(* ===== verification/Skynet_Prelude.thy ===== *)
theory Skynet_Prelude
  imports Main "HOL-Library.Word" "HOL-Library.Monad_Syntax" "HOL-Library.Sublist"
begin

text \<open>
  What every component shares: the names of the C types, IEEE 754 doubles as their 64 bits with
  the comparisons C gives them, \<open>memcmp\<close>, reads and writes of arrays that are undefined out of
  range, and the lemmas on lists, options and words that the component proofs use.

  Throughout the development a result of type \<open>'a option\<close> is \<open>None\<close> where the C code has no
  defined behaviour (an access out of range, a read of memory that was never written, a failed
  \<^verbatim>\<open>assert\<close>) or does not return; a theorem that a model function gives \<open>Some\<close> is a safety
  statement about the code.
\<close>

unbundle bit_operations_syntax

subsection \<open>The C types\<close>

type_synonym byte = "8 word"
type_synonym u16 = "16 word"
type_synonym u32 = "32 word"
type_synonym u64 = "64 word"
type_synonym bytes = "8 word list"

named_theorems sl_simps "unfolding rules of the skiplist operations"
named_theorems ring_simps "unfolding rules of the ring buffers"
named_theorems ws_simps "unfolding rules of the websocket codec"

text \<open>A character constant of the C source as a byte.\<close>

definition chr :: "char \<Rightarrow> byte" where
  "chr c = of_nat (of_char c)"

definition str :: "string \<Rightarrow> bytes" where
  "str s = map chr s"

lemma length_str [simp]: "length (str s) = length s"
  by (simp add: str_def)

lemma unat_byte_less [simp]: "unat (b :: byte) < 256"
  using unsigned_less [of b] by simp

subsection \<open>Arrays\<close>

text \<open>An array read and write: \<open>None\<close> outside the array.\<close>

definition arr_get :: "'a list \<Rightarrow> nat \<Rightarrow> 'a option" where
  "arr_get xs i = (if i < length xs then Some (xs ! i) else None)"

definition arr_set :: "'a list \<Rightarrow> nat \<Rightarrow> 'a \<Rightarrow> 'a list option" where
  "arr_set xs i v = (if i < length xs then Some (xs[i := v]) else None)"

lemma arr_get_eq_Some [simp]: "arr_get xs i = Some v \<longleftrightarrow> i < length xs \<and> v = xs ! i"
  by (auto simp: arr_get_def)

lemma arr_set_eq_Some [simp]: "arr_set xs i v = Some ys \<longleftrightarrow> i < length xs \<and> ys = xs[i := v]"
  by (auto simp: arr_set_def)

text \<open>
  \<^verbatim>\<open>memcpy(dst + off, src, n)\<close> where \<open>src\<close> holds at least \<open>n\<close> bytes: the bytes of \<open>dst\<close> from
  \<open>off\<close> on are replaced; \<open>None\<close> when source or destination is too short.
\<close>

definition mem_copy :: "'a list \<Rightarrow> nat \<Rightarrow> 'a list \<Rightarrow> nat \<Rightarrow> 'a list option" where
  "mem_copy dst off src n =
     (if n \<le> length src \<and> off + n \<le> length dst
      then Some (take off dst @ take n src @ drop (off + n) dst) else None)"

lemma length_mem_copy: "mem_copy dst off src n = Some r \<Longrightarrow> length r = length dst"
  by (auto simp: mem_copy_def split: if_splits)

subsection \<open>Byte comparison\<close>

text \<open>\<^verbatim>\<open>memcmp\<close> over the common length: C fixes the sign of the result only.\<close>

fun memcmp :: "bytes \<Rightarrow> bytes \<Rightarrow> nat \<Rightarrow> int" where
  "memcmp (a # as) (b # bs) (Suc n) =
     (if a < b then - 1 else if b < a then 1 else memcmp as bs n)"
| "memcmp _ _ _ = 0"

lemma memcmp_take: "n \<le> length as \<Longrightarrow> n \<le> length bs \<Longrightarrow> memcmp as bs n = 0 \<longleftrightarrow> take n as = take n bs"
  by (induction as bs n rule: memcmp.induct) auto

subsection \<open>Doubles\<close>

text \<open>
  A C \<^verbatim>\<open>double\<close> is its IEEE 754 binary64 bit pattern: sign bit, 11 exponent bits, 52 fraction bits.
  Sign and magnitude order the patterns that are not NaN, both zeros being equal.
\<close>

type_synonym double = "64 word"

definition dmag :: "double \<Rightarrow> nat" where
  "dmag d = unat d mod 2 ^ 63"

definition dneg :: "double \<Rightarrow> bool" where
  "dneg d \<longleftrightarrow> 2 ^ 63 \<le> unat d"

definition d_isnan :: "double \<Rightarrow> bool" where
  "d_isnan d \<longleftrightarrow> 0x7FF0000000000000 < dmag d"

definition d_isinf :: "double \<Rightarrow> bool" where
  "d_isinf d \<longleftrightarrow> dmag d = 0x7FF0000000000000"

definition dkey :: "double \<Rightarrow> int" where
  "dkey d = (if dneg d then - int (dmag d) else int (dmag d))"

definition d_lt :: "double \<Rightarrow> double \<Rightarrow> bool" where
  "d_lt a b \<longleftrightarrow> \<not> d_isnan a \<and> \<not> d_isnan b \<and> dkey a < dkey b"

definition d_le :: "double \<Rightarrow> double \<Rightarrow> bool" where
  "d_le a b \<longleftrightarrow> \<not> d_isnan a \<and> \<not> d_isnan b \<and> dkey a \<le> dkey b"

definition d_eq :: "double \<Rightarrow> double \<Rightarrow> bool" where
  "d_eq a b \<longleftrightarrow> \<not> d_isnan a \<and> \<not> d_isnan b \<and> dkey a = dkey b"

lemma d_order_keys:
  assumes "\<not> d_isnan a" "\<not> d_isnan b"
  shows "d_lt a b \<longleftrightarrow> dkey a < dkey b" "d_le a b \<longleftrightarrow> dkey a \<le> dkey b" "d_eq a b \<longleftrightarrow> dkey a = dkey b"
  using assms by (simp_all add: d_lt_def d_le_def d_eq_def)

subsection \<open>Formatted output\<close>

text \<open>The conversions of \<^verbatim>\<open>printf\<close> the code uses: \<^verbatim>\<open>%d\<close>, \<^verbatim>\<open>%u\<close> and \<^verbatim>\<open>%08x\<close>.\<close>

fun fmt_u :: "nat \<Rightarrow> bytes" where
  "fmt_u n = (if n < 10 then [of_nat (48 + n)] else fmt_u (n div 10) @ [of_nat (48 + n mod 10)])"

declare fmt_u.simps [simp del]

definition fmt_d :: "int \<Rightarrow> bytes" where
  "fmt_d i = (if i < 0 then chr (CHR ''-'') # fmt_u (nat (- i)) else fmt_u (nat i))"

definition hex_digit :: "nat \<Rightarrow> byte" where
  "hex_digit n = of_nat (if n < 10 then 48 + n else 87 + n)"

definition fmt_08x :: "u32 \<Rightarrow> bytes" where
  "fmt_08x w = map (\<lambda>i. hex_digit (unat w div 16 ^ i mod 16)) [7, 6, 5, 4, 3, 2, 1, 0]"

subsection \<open>Formatted input\<close>

text \<open>
  What \<^verbatim>\<open>sscanf\<close> does for \<^verbatim>\<open>%d\<close> and \<^verbatim>\<open>%u\<close>: skip white space, an optional sign, at least one digit.
  The value and the input that is left, or \<open>None\<close> when the conversion does not match.
\<close>

definition is_space :: "byte \<Rightarrow> bool" where
  "is_space b \<longleftrightarrow> b = 32 \<or> 9 \<le> b \<and> b \<le> 13"

definition is_digit :: "byte \<Rightarrow> bool" where
  "is_digit b \<longleftrightarrow> 48 \<le> b \<and> b \<le> 57"

definition digits_value :: "bytes \<Rightarrow> nat" where
  "digits_value ds = foldl (\<lambda>v d. 10 * v + (unat d - 48)) 0 ds"

definition scan_number :: "bytes \<Rightarrow> (int \<times> bytes) option" where
  "scan_number s =
     (let s1 = dropWhile is_space s;
          neg = (s1 \<noteq> [] \<and> hd s1 = 45);
          s2 = (if s1 \<noteq> [] \<and> (hd s1 = 45 \<or> hd s1 = 43) then tl s1 else s1);
          ds = takeWhile is_digit s2
      in if ds = [] then None
         else Some (if neg then - int (digits_value ds) else int (digits_value ds), dropWhile is_digit s2))"

subsection \<open>Lists\<close>

lemma takeWhile_append_all:
  "\<forall>x \<in> set xs. P x \<Longrightarrow> takeWhile P (xs @ ys) = xs @ takeWhile P ys"
  by (induction xs) auto

lemma length_takeWhile_less_nth:
  "length (takeWhile P xs) < length xs \<Longrightarrow> \<not> P (xs ! length (takeWhile P xs))"
  by (rule nth_length_takeWhile)

lemma sorted_wrt_append_Cons:
  "sorted_wrt R (as @ x # bs) \<longleftrightarrow>
     sorted_wrt R as \<and> sorted_wrt R bs \<and> (\<forall>a \<in> set as. R a x) \<and> (\<forall>b \<in> set bs. R x b) \<and>
     (\<forall>a \<in> set as. \<forall>b \<in> set bs. R a b)"
  by (auto simp: sorted_wrt_append)

text \<open>Running a fallible operation over a list, stopping at the first failure.\<close>

fun fold_opt :: "('s \<Rightarrow> 'a \<Rightarrow> 's option) \<Rightarrow> 's \<Rightarrow> 'a list \<Rightarrow> 's option" where
  "fold_opt f s [] = Some s"
| "fold_opt f s (x # xs) = (case f s x of None \<Rightarrow> None | Some s' \<Rightarrow> fold_opt f s' xs)"

lemma fold_opt_append:
  "fold_opt f s (xs @ ys) = (case fold_opt f s xs of None \<Rightarrow> None | Some s' \<Rightarrow> fold_opt f s' ys)"
  by (induction xs arbitrary: s) (auto split: option.splits)

lemma fold_opt_inv:
  assumes "\<And>s x. I s \<Longrightarrow> x \<in> set xs \<Longrightarrow> \<exists>s'. f s x = Some s' \<and> I s'" and "I s"
  shows "\<exists>s'. fold_opt f s xs = Some s' \<and> I s'"
  using assms
proof (induction xs arbitrary: s)
  case Nil
  then show ?case by simp
next
  case (Cons x xs)
  from Cons.prems obtain s1 where "f s x = Some s1" "I s1" by fastforce
  moreover from Cons.IH [of s1] Cons.prems(1) \<open>I s1\<close>
  obtain s2 where "fold_opt f s1 xs = Some s2" "I s2" by fastforce
  ultimately show ?case by simp
qed

end
