(* ===== verification/Fifo.thy ===== *)
theory Fifo
  imports Skynet_Prelude
begin

text \<open>
  The contract of a first-in first-out queue, which three ring buffers of the code implement:
  \<^verbatim>\<open>struct queue\<close> of service_package.c, \<^verbatim>\<open>struct queue\<close> of lua-websocketnetpack.c and \<^verbatim>\<open>struct queue\<close> of
  lua-clientwebsocket.c. The provider gives an invariant and the list the queue stands for; the
  laws say what pushing and popping do to that list. The client lemmas are proved once here.
\<close>

text \<open>
  A sequence of pushes and pops, what it does to a plain list, and what it does through the calls of a queue, which give
  \<open>None\<close> where the code is undefined. A pop of an empty queue is answered by \<open>None\<close> inside the list of answers.
\<close>

datatype 'x fifo_op = Push 'x | Pop

fun list_run :: "'a list \<Rightarrow> 'a fifo_op list \<Rightarrow> 'a option list \<times> 'a list" where
  "list_run xs [] = ([], xs)"
| "list_run xs (Push x # ops) = list_run (xs @ [x]) ops"
| "list_run [] (Pop # ops) = (case list_run [] ops of (rs, ys) \<Rightarrow> (None # rs, ys))"
| "list_run (x # xs) (Pop # ops) = (case list_run xs ops of (rs, ys) \<Rightarrow> (Some x # rs, ys))"

fun queue_run :: "('q \<Rightarrow> 'x \<Rightarrow> 'q option) \<Rightarrow> ('q \<Rightarrow> ('a option \<times> 'q) option) \<Rightarrow> 'q \<Rightarrow> 'x fifo_op list \<Rightarrow> ('a option list \<times> 'q) option" where
  "queue_run push pop q [] = Some ([], q)"
| "queue_run push pop q (Push x # ops) = (case push q x of None \<Rightarrow> None | Some q1 \<Rightarrow> queue_run push pop q1 ops)"
| "queue_run push pop q (Pop # ops) =
     (case pop q of None \<Rightarrow> None
      | Some (r, q1) \<Rightarrow> (case queue_run push pop q1 ops of None \<Rightarrow> None | Some (rs, q2) \<Rightarrow> Some (r # rs, q2)))"

text \<open>
  The calls of a queue that grows, as its users make them: a push takes the arguments of the element, \<open>elem\<close> is the element
  they stand for, and a pop answers \<open>None\<close> when there is nothing to take.
\<close>

locale queue_calls =
  fixes inv :: "'q \<Rightarrow> bool"
    and contents :: "'q \<Rightarrow> 'a list"
    and elem :: "'x \<Rightarrow> 'a"
    and push :: "'q \<Rightarrow> 'x \<Rightarrow> 'q option"
    and pop :: "'q \<Rightarrow> ('a option \<times> 'q) option"
  assumes push_call: "inv q \<Longrightarrow> \<exists>q'. push q x = Some q' \<and> inv q' \<and> contents q' = contents q @ [elem x]"
    and pop_empty_call: "inv q \<Longrightarrow> contents q = [] \<Longrightarrow> pop q = Some (None, q)"
    and pop_call: "inv q \<Longrightarrow> contents q = y # ys \<Longrightarrow> \<exists>q'. pop q = Some (Some y, q') \<and> inv q' \<and> contents q' = ys"
begin

lemma run_is_list_run:
  "inv q \<Longrightarrow> \<exists>q'. queue_run push pop q ops = Some (fst (list_run (contents q) (map (map_fifo_op elem) ops)), q') \<and>
     inv q' \<and> contents q' = snd (list_run (contents q) (map (map_fifo_op elem) ops))"
proof (induction ops arbitrary: q)
  case (Cons op ops)
  show ?case
  proof (cases op)
    case (Push x)
    from push_call [OF Cons.prems, of x] Cons.IH Push show ?thesis by fastforce
  next
    case Pop
    show ?thesis
    proof (cases "contents q")
      case Nil
      with pop_empty_call [OF Cons.prems] Cons.IH [OF Cons.prems] Pop show ?thesis by (auto split: prod.splits)
    next
      case (Cons y ys)
      with pop_call [OF Cons.prems(1)] obtain q1 where "pop q = Some (Some y, q1)" "inv q1" "contents q1 = ys" by blast
      with Cons.IH [of q1] Pop Cons show ?thesis by (auto split: prod.splits)
    qed
  qed
qed simp

end

locale fifo =
  fixes inv :: "'q \<Rightarrow> bool"
    and contents :: "'q \<Rightarrow> 'a list"
    and push :: "'q \<Rightarrow> 'a \<Rightarrow> 'q option"
    and pop :: "'q \<Rightarrow> ('a \<times> 'q) option"
    and room :: "'q \<Rightarrow> bool"
  assumes push_ok: "inv q \<Longrightarrow> room q \<Longrightarrow> \<exists>q'. push q x = Some q' \<and> inv q' \<and> contents q' = contents q @ [x]"
    and pop_ok: "inv q \<Longrightarrow> contents q = x # xs \<Longrightarrow> \<exists>q'. pop q = Some (x, q') \<and> inv q' \<and> contents q' = xs"
    and pop_none: "inv q \<Longrightarrow> contents q = [] \<Longrightarrow> pop q = None"
begin

text \<open>The element popped is the head of the contents, and only an empty queue pops nothing.\<close>

lemma pop_Some_iff: "inv q \<Longrightarrow> pop q = Some (x, q') \<Longrightarrow> inv q' \<and> contents q = x # contents q'"
  by (cases "contents q") (use pop_none pop_ok in fastforce)+

lemma pop_None_iff: "inv q \<Longrightarrow> pop q = None \<longleftrightarrow> contents q = []"
  by (cases "contents q") (use pop_none pop_ok in fastforce)+

text \<open>Popping \<open>n\<close> times.\<close>

fun pops :: "nat \<Rightarrow> 'q \<Rightarrow> ('a list \<times> 'q) option" where
  "pops 0 q = Some ([], q)"
| "pops (Suc n) q =
     (case pop q of None \<Rightarrow> None
      | Some (x, q1) \<Rightarrow> (case pops n q1 of None \<Rightarrow> None | Some (xs, q2) \<Rightarrow> Some (x # xs, q2)))"

lemma pops_prefix:
  "inv q \<Longrightarrow> contents q = xs @ ys \<Longrightarrow> \<exists>q'. pops (length xs) q = Some (xs, q') \<and> inv q' \<and> contents q' = ys"
proof (induction xs arbitrary: q)
  case Nil
  then show ?case by simp
next
  case (Cons x xs)
  from Cons.prems pop_ok [of q x "xs @ ys"]
  obtain q1 where q1: "pop q = Some (x, q1)" "inv q1" "contents q1 = xs @ ys" by auto
  with Cons.IH [of q1] show ?case by auto
qed

end

text \<open>A queue that grows when it is full takes every push.\<close>

locale growing_fifo = fifo +
  assumes always_room: "inv q \<Longrightarrow> room q"
begin

lemma push_all_ok:
  "inv q \<Longrightarrow> \<exists>q'. fold_opt push q xs = Some q' \<and> inv q' \<and> contents q' = contents q @ xs"
proof (induction xs arbitrary: q)
  case Nil
  then show ?case by simp
next
  case (Cons x xs)
  from push_ok [OF Cons.prems always_room [OF Cons.prems], of x]
  obtain q1 where q1: "push q x = Some q1" "inv q1" "contents q1 = contents q @ [x]" by blast
  with Cons.IH [of q1] show ?case by auto
qed

text \<open>First in, first out: what was pushed onto an empty queue comes back in the same order.\<close>

lemma push_all_pops:
  assumes "inv q" "contents q = []"
  shows "\<exists>q1 q2. fold_opt push q xs = Some q1 \<and> pops (length xs) q1 = Some (xs, q2) \<and> contents q2 = []"
proof -
  from push_all_ok [OF assms(1), of xs] assms(2)
  obtain q1 where q1: "fold_opt push q xs = Some q1" "inv q1" "contents q1 = xs" by auto
  with pops_prefix [of q1 xs "[]"] show ?thesis by auto
qed

end

end
