(* ===== verification/Ring_Queue.thy ===== *)
theory Ring_Queue
  imports Fifo
begin

text \<open>
  \<^verbatim>\<open>struct queue\<close> of server/lualib-src/service_package.c: a ring of \<open>cap\<close> slots of \<open>sz\<close> bytes that
  doubles when a push fills it. A slot is one element (the code only ever copies whole slots of
  \<open>sz\<close> bytes); a slot that was never written is \<open>None\<close>. The C \<^verbatim>\<open>int\<close> fields are natural numbers: they
  never go negative, and they stay below 2 to the 31 as long as the queue holds fewer than 2 to the
  27 elements, beyond which \<^verbatim>\<open>cap * sz\<close> would overflow.
\<close>

record 'a queue =
  cap :: nat
  sz :: nat
  head :: nat
  tail :: nat
  buffer :: "'a option list"

definition queue_init :: "nat \<Rightarrow> 'a queue" where
  "queue_init s = \<lparr>cap = 4, sz = s, head = 0, tail = 0, buffer = replicate 4 None\<rparr>"

text \<open>\<^verbatim>\<open>queue_exit\<close>: the memory it frees, and the queue.\<close>

definition queue_exit :: "'a queue \<Rightarrow> 'a option list \<times> 'a queue" where
  "queue_exit q = (buffer q, q\<lparr>buffer := []\<rparr>)"

definition queue_empty :: "'a queue \<Rightarrow> bool" where
  "queue_empty q \<longleftrightarrow> head q = tail q"

text \<open>
  The return code, what was copied to \<^verbatim>\<open>*result\<close> (\<open>None\<close>: nothing, or bytes that were never
  written), and the queue.
\<close>

definition queue_pop :: "'a queue \<Rightarrow> nat \<times> 'a option \<times> 'a queue" where
  "queue_pop q =
     (if head q = tail q then (1, None, q)
      else
        let r = (case arr_get (buffer q) (head q) of None \<Rightarrow> None | Some s \<Rightarrow> s);
            h = head q + 1
        in (0, r, q\<lparr>head := if h \<ge> cap q then 0 else h\<rparr>))"

text \<open>The copy loop of a full queue: \<open>n\<close> slots from \<open>h\<close> on, wrapping at \<open>c\<close>.\<close>

fun queue_copy :: "nat \<Rightarrow> nat \<Rightarrow> nat \<Rightarrow> 'a option list \<Rightarrow> 'a option list option" where
  "queue_copy 0 h c buf = Some []"
| "queue_copy (Suc n) h c buf =
     (case arr_get buf h of None \<Rightarrow> None
      | Some s \<Rightarrow>
          map_option ((#) s) (queue_copy n (if h + 1 \<ge> c then 0 else h + 1) c buf))"

definition queue_push :: "'a queue \<Rightarrow> 'a \<Rightarrow> 'a queue option" where
  "queue_push q v =
     (let slot = tail q;
          t = (if tail q + 1 \<ge> cap q then 0 else tail q + 1)
      in if head q = t then
           (if sz q > 0 then
              (case queue_copy (cap q) (head q) (cap q) (buffer q) of None \<Rightarrow> None
               | Some tmp \<Rightarrow>
                   map_option
                     (\<lambda>b. q\<lparr>head := 0, tail := cap q, cap := cap q * 2, buffer := b\<rparr>)
                     (arr_set (tmp @ replicate (cap q) None) (cap q - 1) (Some v)))
            else None)
         else map_option (\<lambda>b. q\<lparr>tail := t, buffer := b\<rparr>) (arr_set (buffer q) slot (Some v)))"

definition queue_size :: "'a queue \<Rightarrow> nat" where
  "queue_size q = (if head q > tail q then tail q + cap q - head q else tail q - head q)"

subsection \<open>Invariant and abstraction\<close>

definition ring_index :: "'a queue \<Rightarrow> nat \<Rightarrow> nat" where
  "ring_index q i = (head q + i) mod cap q"

definition queue_inv :: "'a queue \<Rightarrow> bool" where
  "queue_inv q \<longleftrightarrow> 2 \<le> cap q \<and> 0 < sz q \<and> head q < cap q \<and> tail q < cap q \<and>
     length (buffer q) = cap q \<and> (\<forall>i < queue_size q. buffer q ! ring_index q i \<noteq> None)"

definition queue_list :: "'a queue \<Rightarrow> 'a list" where
  "queue_list q = map (\<lambda>i. the (buffer q ! ring_index q i)) [0..<queue_size q]"

lemmas queue_defs [ring_simps] = queue_inv_def queue_list_def ring_index_def queue_size_def

lemma length_queue_list: "length (queue_list q) = queue_size q"
  by (simp add: queue_list_def)

lemma queue_list_nth: "i < queue_size q \<Longrightarrow> queue_list q ! i = the (buffer q ! ring_index q i)"
  by (simp add: queue_list_def)

lemma queue_empty_iff: "queue_inv q \<Longrightarrow> queue_empty q \<longleftrightarrow> queue_list q = []"
  by (auto simp: queue_empty_def queue_inv_def queue_list_def queue_size_def)

lemma queue_init_inv: "0 < s \<Longrightarrow> queue_inv (queue_init s)"
  and queue_init_list: "queue_list (queue_init s) = []"
  by (simp_all add: queue_init_def ring_simps)

text \<open>Advancing an index by one, the way the code wraps it.\<close>

lemma ring_wrap: "h < c \<Longrightarrow> (if h + 1 \<ge> c then 0 else h + 1) = (h + 1) mod (c::nat)"
  by (cases "Suc h = c") auto

lemma ring_size_bound: "queue_inv q \<Longrightarrow> queue_size q < cap q"
  by (auto simp: queue_inv_def queue_size_def)

lemma ring_tail: "queue_inv q \<Longrightarrow> ring_index q (queue_size q) = tail q"
  by (auto simp: queue_inv_def queue_size_def ring_index_def)

lemma mod_add_inj:
  assumes "i < c" "j < (c::nat)" "(h + i) mod c = (h + j) mod c"
  shows "i = j"
proof -
  have "i = j" if "i \<le> j" "j < c" "(h + i) mod c = (h + j) mod c" for i j :: nat
  proof -
    have "c dvd (h + j) - (h + i)" using that(1,3) by (metis mod_eq_dvd_iff_nat add_le_mono order_refl)
    then have "c dvd j - i" by simp
    moreover have "j - i < c" using that(2) by simp
    ultimately have "j - i = 0" by (meson dvd_imp_le not_le gr0I)
    then show ?thesis using that(1) by simp
  qed
  then show ?thesis using assms by (metis nat_le_linear)
qed

lemma ring_index_inj:
  "i < cap q \<Longrightarrow> j < cap q \<Longrightarrow> ring_index q i = ring_index q j \<Longrightarrow> i = j"
  unfolding ring_index_def by (rule mod_add_inj)

subsection \<open>Popping\<close>

lemma ring_index_pop:
  assumes "h = (head q + 1) mod cap q"
  shows "ring_index (q\<lparr>head := h\<rparr>) i = ring_index q (Suc i)"
  using assms by (simp add: ring_index_def mod_add_left_eq)

lemma queue_size_pop:
  assumes "queue_inv q" "head q \<noteq> tail q"
  shows "queue_size (q\<lparr>head := Suc (head q) mod cap q\<rparr>) = queue_size q - 1"
  using assms by (auto simp: queue_inv_def queue_size_def mod_Suc)

lemma queue_pop_ok:
  assumes inv: "queue_inv q" and ne: "queue_list q = x # xs"
  shows "\<exists>q'. queue_pop q = (0, Some x, q') \<and> queue_inv q' \<and> queue_list q' = xs \<and> sz q' = sz q"
proof -
  let ?q = "q\<lparr>head := Suc (head q) mod cap q\<rparr>"
  from ne have n: "queue_size q = Suc (length xs)" by (metis length_queue_list length_Cons)
  then have ht: "head q \<noteq> tail q" by (auto simp: queue_size_def)
  note length_queue_list [simp]
  have sz': "queue_size ?q = length xs" using queue_size_pop [OF inv ht] n by simp
  have idx: "ring_index ?q i = ring_index q (Suc i)" for i by (rule ring_index_pop) simp
  have hd: "buffer q ! head q = Some x"
  proof -
    have "ring_index q 0 = head q" using inv by (simp add: ring_index_def queue_inv_def)
    moreover have "buffer q ! ring_index q 0 \<noteq> None" using inv n by (auto simp: queue_inv_def)
    moreover have "the (buffer q ! ring_index q 0) = x" using ne n queue_list_nth [of 0 q] by simp
    ultimately show ?thesis by auto
  qed
  have lst: "queue_list ?q = xs"
  proof (rule nth_equalityI)
    show "length (queue_list ?q) = length xs" by (simp add: sz')
    fix i assume "i < length (queue_list ?q)"
    then have i: "i < length xs" by (simp add: sz')
    then have "queue_list ?q ! i = queue_list q ! Suc i"
      using n by (simp add: queue_list_nth sz' idx)
    then show "queue_list ?q ! i = xs ! i" by (simp add: ne)
  qed
  have inv': "queue_inv ?q"
    using inv n idx by (auto simp: queue_inv_def sz')
  have "queue_pop q = (0, Some x, ?q)"
    using ht hd inv ring_wrap [of "head q" "cap q"]
    by (auto simp: queue_pop_def queue_inv_def arr_get_def Let_def)
  with inv' lst show ?thesis by auto
qed

lemma queue_pop_empty: "queue_inv q \<Longrightarrow> queue_list q = [] \<Longrightarrow> queue_pop q = (1, None, q)"
  using queue_empty_iff [of q] by (simp add: queue_pop_def queue_empty_def)

subsection \<open>Pushing\<close>

lemma queue_copy_nth:
  "h < c \<Longrightarrow> length buf = c \<Longrightarrow>
     queue_copy n h c buf = Some (map (\<lambda>i. buf ! ((h + i) mod c)) [0..<n])"
proof (induction n arbitrary: h)
  case 0
  then show ?case by simp
next
  case (Suc n)
  let ?h = "(h + 1) mod c"
  have "?h < c" using Suc.prems(1) by simp
  then have "queue_copy n ?h c buf = Some (map (\<lambda>i. buf ! ((?h + i) mod c)) [0..<n])"
    using Suc.IH Suc.prems(2) by blast
  moreover have "(?h + i) mod c = (h + Suc i) mod c" for i by (simp add: mod_add_left_eq)
  moreover have "map (\<lambda>i. buf ! ((h + i) mod c)) [0..<Suc n]
      = buf ! h # map (\<lambda>i. buf ! ((h + Suc i) mod c)) [0..<n]"
    using Suc.prems(1) by (simp add: map_upt_Suc del: upt_Suc)
  ultimately show ?case
    using Suc.prems ring_wrap [of h c] by (simp add: arr_get_def del: upt_Suc)
qed

lemma queue_push_slot:
  assumes inv: "queue_inv q" and t: "t = (tail q + 1) mod cap q" and nf: "head q \<noteq> t"
  shows "queue_inv (q\<lparr>tail := t, buffer := (buffer q)[tail q := Some v]\<rparr>) \<and>
    queue_list (q\<lparr>tail := t, buffer := (buffer q)[tail q := Some v]\<rparr>) = queue_list q @ [v] \<and>
    sz (q\<lparr>tail := t, buffer := (buffer q)[tail q := Some v]\<rparr>) = sz q"
proof -
  let ?q = "q\<lparr>tail := t, buffer := (buffer q)[tail q := Some v]\<rparr>"
  note length_queue_list [simp]
  have size': "queue_size ?q = Suc (queue_size q)"
    using inv t nf by (auto simp: queue_inv_def queue_size_def mod_Suc split: if_splits)
  have idx: "ring_index ?q i = ring_index q i" for i by (simp add: ring_index_def)
  have tl: "ring_index q i \<noteq> tail q" if "i < queue_size q" for i
    using ring_index_inj [of i q "queue_size q"] ring_tail [OF inv] ring_size_bound [OF inv] that
    by auto
  have slots: "buffer ?q ! ring_index q i = (if i = queue_size q then Some v else buffer q ! ring_index q i)"
    if "i < Suc (queue_size q)" for i
    using that tl [of i] ring_tail [OF inv] inv by (auto simp: queue_inv_def less_Suc_eq)
  have live: "buffer ?q ! ring_index ?q i \<noteq> None" if "i < Suc (queue_size q)" for i
    unfolding idx slots [OF that] using that inv by (auto simp: queue_inv_def less_Suc_eq)
  have "t < cap q" using t inv by (simp add: queue_inv_def)
  then have "queue_inv ?q"
    using inv live unfolding queue_inv_def size' by simp
  moreover have "queue_list ?q ! i = (queue_list q @ [v]) ! i" if "i < Suc (queue_size q)" for i
    using that slots [OF that] idx by (auto simp: queue_list_nth size' nth_append)
  then have "queue_list ?q = queue_list q @ [v]"
    by (intro nth_equalityI) (simp_all add: size')
  moreover have "sz ?q = sz q" by simp
  ultimately show ?thesis by blast
qed

text \<open>A full ring copied to the front of one that is \<open>n\<close> slots longer.\<close>

lemma queue_push_grow:
  assumes inv: "queue_inv q" and n0: "0 < n" and f: "head q = (tail q + 1) mod cap q"
    and b: "b = (map (\<lambda>i. buffer q ! ring_index q i) [0..<cap q] @ replicate n None)[cap q - 1 := Some v]"
  shows "queue_inv (q\<lparr>head := 0, tail := cap q, cap := cap q + n, buffer := b\<rparr>) \<and>
    queue_list (q\<lparr>head := 0, tail := cap q, cap := cap q + n, buffer := b\<rparr>) = queue_list q @ [v] \<and>
    sz (q\<lparr>head := 0, tail := cap q, cap := cap q + n, buffer := b\<rparr>) = sz q"
proof -
  let ?q = "q\<lparr>head := 0, tail := cap q, cap := cap q + n, buffer := b\<rparr>"
  have sz: "queue_size q = cap q - 1" and c: "2 \<le> cap q"
    using inv f by (auto simp: queue_inv_def queue_size_def mod_Suc split: if_splits)
  note length_queue_list [simp]
  have size': "queue_size ?q = cap q" by (simp add: queue_size_def)
  have idx: "ring_index ?q i = i" if "i < cap q" for i using that n0 by (simp add: ring_index_def)
  have slots: "b ! i = (if i = queue_size q then Some v else buffer q ! ring_index q i)" if "i < cap q" for i
    using that sz b by (auto simp: nth_append nth_list_update)
  have live: "b ! ring_index ?q i \<noteq> None" if "i < cap q" for i
    using that slots [OF that] idx [OF that] inv sz by (auto simp: queue_inv_def)
  have "length b = cap q + n" by (simp add: b)
  then have "queue_inv ?q"
    using inv c live n0 by (simp add: queue_inv_def size')
  moreover have "queue_list ?q ! i = (queue_list q @ [v]) ! i" if "i < cap q" for i
    using that slots [OF that] idx [OF that] sz
    by (auto simp: queue_list_nth size' nth_append)
  then have "queue_list ?q = queue_list q @ [v]"
    using sz c by (intro nth_equalityI) (simp_all add: size')
  moreover have "sz ?q = sz q" by simp
  ultimately show ?thesis by blast
qed

lemma queue_push_ok:
  assumes inv: "queue_inv q"
  shows "\<exists>q'. queue_push q v = Some q' \<and> queue_inv q' \<and> queue_list q' = queue_list q @ [v] \<and> sz q' = sz q"
proof -
  let ?t = "(tail q + 1) mod cap q"
  from inv have tc: "tail q < cap q" and hc: "head q < cap q" and lb: "length (buffer q) = cap q"
    and s: "0 < sz q" and c: "2 \<le> cap q"
    by (auto simp: queue_inv_def)
  have t: "(if tail q + 1 \<ge> cap q then 0 else tail q + 1) = ?t" by (rule ring_wrap [OF tc])
  show ?thesis
  proof (cases "head q = ?t")
    case False
    then have "queue_push q v = Some (q\<lparr>tail := ?t, buffer := (buffer q)[tail q := Some v]\<rparr>)"
      unfolding queue_push_def Let_def t by (simp add: arr_set_def lb tc)
    then show ?thesis using queue_push_slot [OF inv refl False, of v] by blast
  next
    case True
    let ?b = "(map (\<lambda>i. buffer q ! ring_index q i) [0..<cap q] @ replicate (cap q) None)[cap q - 1 := Some v]"
    have cp: "queue_copy (cap q) (head q) (cap q) (buffer q) = Some (map (\<lambda>i. buffer q ! ring_index q i) [0..<cap q])"
      unfolding ring_index_def by (rule queue_copy_nth [OF hc lb])
    have "queue_push q v = Some (q\<lparr>head := 0, tail := cap q, cap := cap q * 2, buffer := ?b\<rparr>)"
      unfolding queue_push_def Let_def t if_P [OF True] if_P [OF s] cp option.case arr_set_def
      using c by simp
    then show ?thesis using queue_push_grow [OF inv _ True refl, of "cap q" v] c by (simp add: mult_2_right)
  qed
qed

subsection \<open>The contract\<close>

text \<open>Popping as the interface has it: the code tests the return code.\<close>

definition queue_take :: "'a queue \<Rightarrow> ('a \<times> 'a queue) option" where
  "queue_take q = (case queue_pop q of (0, Some v, q') \<Rightarrow> Some (v, q') | _ \<Rightarrow> None)"

interpretation rq: growing_fifo queue_inv queue_list queue_push queue_take "\<lambda>_. True"
proof unfold_locales
  fix q :: "'a queue" and x :: 'a and xs
  show "queue_inv q \<Longrightarrow> True \<Longrightarrow> \<exists>q'. queue_push q x = Some q' \<and> queue_inv q' \<and> queue_list q' = queue_list q @ [x]"
    using queue_push_ok [of q x] by blast
  show "queue_inv q \<Longrightarrow> queue_list q = x # xs \<Longrightarrow>
      \<exists>q'. queue_take q = Some (x, q') \<and> queue_inv q' \<and> queue_list q' = xs"
    using queue_pop_ok [of q x xs] by (auto simp: queue_take_def)
  show "queue_inv q \<Longrightarrow> queue_list q = [] \<Longrightarrow> queue_take q = None"
    using queue_pop_empty [of q] by (simp add: queue_take_def)
qed simp

end
