(* ===== verification/Package_Service.thy ===== *)
theory Package_Service
  imports Ring_Queue
begin

text \<open>
  The package service of server/lualib-src/service_package.c: one service per connection that cuts
  the byte stream of a socket into packages (two bytes of big-endian length, then the payload),
  hands package \<open>k\<close> to the \<open>k\<close>-th requester, and frames what clients send out. The skynet runtime
  (message passing, sockets, timers) is outside the repository: each call to it is an element of
  the list of effects a handler returns, in the order the code makes them.
\<close>

type_synonym mem = "byte option list"

definition malloc :: "nat \<Rightarrow> mem" where
  "malloc n = replicate n None"

record response =
  r_sz :: nat
  r_msg :: mem

record request =
  source :: u32
  session :: int

datatype ptype = PTYPE_TEXT | PTYPE_RESPONSE | PTYPE_ERROR

datatype effect =
    SkynetSend u32 ptype bool int mem   \<comment> \<open>destination, type, DONTCOPY tag, session, data\<close>
  | SkynetCommand bytes bytes
  | SkynetError bytes
  | SkynetSocketShutdown int
  | SkynetSocketSend int bytes
  | SkynetSocketStart int
  | SkynetSocketNodelay int
  | SkynetCallback
  | SkynetFree mem
  | SkynetFreeRequests "request option list"     \<comment> \<open>the buffer of the queue of requests\<close>
  | SkynetFreeResponses "response option list"   \<comment> \<open>the buffer of the queue of packages\<close>
  | SkynetFreePackage                            \<comment> \<open>the \<^verbatim>\<open>struct package\<close> itself\<close>

record package =
  manager :: u32
  fd :: int
  heartbeat_n :: int
  recv :: int
  init :: int
  closed :: bool
  header_sz :: int
  header0 :: byte
  header1 :: byte
  uncomplete_sz :: int
  uncomplete :: response
  requests :: "request queue"
  responses :: "response queue"

text \<open>\<^verbatim>\<open>memset\<close> to zero, then the two counters and the two queues; the element sizes are those of an LP64 target.\<close>

definition package_create :: package where
  "package_create =
     \<lparr>manager = 0, fd = 0, heartbeat_n = - 1, recv = 0, init = 0, closed = False,
      header_sz = 0, header0 = 0, header1 = 0, uncomplete_sz = - 1,
      uncomplete = \<lparr>r_sz = 0, r_msg = []\<rparr>,
      requests = queue_init 8, responses = queue_init 16\<rparr>"

text \<open>\<^verbatim>\<open>service_exit\<close>: the loop that answers every waiting request with an error.\<close>

partial_function (option) exit_loop :: "request queue \<Rightarrow> effect list \<Rightarrow> (request queue \<times> effect list) option" where
  "exit_loop q es =
     (if queue_empty q then Some (q, es)
      else (case queue_pop q of
              (_, None, _) \<Rightarrow> None
            | (_, Some req, q') \<Rightarrow>
                exit_loop q' (es @ [SkynetSend (source req) PTYPE_ERROR False (session req) []])))"

definition service_exit :: "package \<Rightarrow> (package \<times> effect list) option" where
  "service_exit P =
     (let P1 = P\<lparr>closed := True\<rparr> in
      do { (q, es) \<leftarrow> exit_loop (requests P1) [];
           Some (P1\<lparr>requests := q\<rparr>,
                 es @ [SkynetSend (manager P1) PTYPE_TEXT False 0 (map Some (str ''CLOSED'')),
                       SkynetCommand (str ''EXIT'') []]) })"

definition report_info :: "package \<Rightarrow> int \<Rightarrow> u32 \<Rightarrow> effect list" where
  "report_info P sess src =
     (let (unc, unc_sz) =
            (if header_sz P \<noteq> 0 then (- 1, 0)
             else if uncomplete_sz P = 0 then (0, 0)
             else (uncomplete_sz P, int (r_sz (uncomplete P))));
          tmp = str ''req='' @ fmt_d (int (queue_size (requests P))) @
                str '' resp='' @ fmt_d (int (queue_size (responses P))) @
                str '' uncomplete='' @ fmt_d unc @ str ''/'' @ fmt_d unc_sz
      in [SkynetSend src PTYPE_RESPONSE False sess (map Some tmp)])"

definition command :: "package \<Rightarrow> int \<Rightarrow> u32 \<Rightarrow> bytes \<Rightarrow> (package \<times> effect list) option" where
  "command P sess src msg =
     (case msg of [] \<Rightarrow> None
      | c # _ \<Rightarrow>
        if c = chr (CHR ''R'') then
          (if closed P then Some (P, [SkynetSend src PTYPE_ERROR False sess []])
           else if \<not> queue_empty (responses P) then
             (if queue_empty (requests P) then
                (case queue_pop (responses P) of
                   (_, None, _) \<Rightarrow> None
                 | (_, Some resp, q') \<Rightarrow>
                     Some (P\<lparr>responses := q'\<rparr>, [SkynetSend src PTYPE_RESPONSE True sess (r_msg resp)]))
              else None)
           else
             (case queue_push (requests P) \<lparr>source = src, session = sess\<rparr> of
                None \<Rightarrow> None
              | Some q' \<Rightarrow> Some (P\<lparr>requests := q'\<rparr>, [])))
        else if c = chr (CHR ''K'') then Some (P, [SkynetSocketShutdown (fd P)])
        else if c = chr (CHR ''I'') then Some (P, report_info P sess src)
        else Some (P, [SkynetError (str ''Invalid command '' @ msg), SkynetSend src PTYPE_ERROR False sess []]))"

text \<open>
  The loop of \<^verbatim>\<open>new_message\<close> over the bytes that are left (\<^verbatim>\<open>sz\<close> is their number). \<open>nm_fill\<close> is its first
  block: \<open>Inl\<close> where the code returns, \<open>Inr\<close> where it goes on. \<open>nm_header\<close> is its second block.
\<close>

definition nm_fill :: "package \<Rightarrow> bytes \<Rightarrow> (package + package \<times> bytes) option" where
  "nm_fill P msg =
     (if uncomplete_sz P \<ge> 0 then
        (if int (length msg) \<ge> uncomplete_sz P then
           do { m \<leftarrow> mem_copy (r_msg (uncomplete P)) (nat (int (r_sz (uncomplete P)) - uncomplete_sz P))
                       (map Some msg) (nat (uncomplete_sz P));
                q \<leftarrow> queue_push (responses P) ((uncomplete P)\<lparr>r_msg := m\<rparr>);
                Some (Inr (P\<lparr>uncomplete := (uncomplete P)\<lparr>r_msg := m\<rparr>, responses := q, uncomplete_sz := - 1\<rparr>,
                           drop (nat (uncomplete_sz P)) msg)) }
         else
           do { m \<leftarrow> mem_copy (r_msg (uncomplete P)) (nat (int (r_sz (uncomplete P)) - uncomplete_sz P))
                       (map Some msg) (length msg);
                Some (Inl (P\<lparr>uncomplete := (uncomplete P)\<lparr>r_msg := m\<rparr>,
                             uncomplete_sz := uncomplete_sz P - int (length msg)\<rparr>)) })
      else Some (Inr (P, msg)))"

definition nm_alloc :: "package \<Rightarrow> package" where
  "nm_alloc P =
     (let n = unat (header0 P) * 256 + unat (header1 P)
      in P\<lparr>uncomplete := \<lparr>r_sz = n, r_msg = malloc n\<rparr>, uncomplete_sz := int n\<rparr>)"

definition nm_header :: "package \<Rightarrow> bytes \<Rightarrow> (package + package \<times> bytes) option" where
  "nm_header P msg =
     (if header_sz P = 0 then
        (case msg of
           [a] \<Rightarrow> Some (Inl (P\<lparr>header0 := a, header_sz := 1\<rparr>))
         | a # b # rest \<Rightarrow> Some (Inr (nm_alloc (P\<lparr>header0 := a, header1 := b\<rparr>), rest))
         | [] \<Rightarrow> None)
      else if header_sz P = 1 then
        (case msg of
           b # rest \<Rightarrow> Some (Inr (nm_alloc (P\<lparr>header1 := b, header_sz := 0\<rparr>), rest))
         | [] \<Rightarrow> None)
      else None)"

lemma nm_fill_shrinks: "nm_fill P msg = Some (Inr (P', msg')) \<Longrightarrow> length msg' \<le> length msg"
  by (auto simp: nm_fill_def split: if_splits option.splits bind_splits)

lemma nm_header_shrinks: "nm_header P msg = Some (Inr (P', msg')) \<Longrightarrow> length msg' < length msg"
  by (auto simp: nm_header_def split: if_splits list.splits)

function new_message_loop :: "package \<Rightarrow> bytes \<Rightarrow> package option" where
  "new_message_loop P msg =
     (case nm_fill P msg of
        None \<Rightarrow> None
      | Some (Inl P1) \<Rightarrow> Some P1
      | Some (Inr (P1, msg1)) \<Rightarrow>
          (if msg1 = [] then Some P1
           else (case nm_header P1 msg1 of
                   None \<Rightarrow> None
                 | Some (Inl P2) \<Rightarrow> Some P2
                 | Some (Inr (P2, msg2)) \<Rightarrow> new_message_loop P2 msg2)))"
  by pat_completeness auto
termination
  by (relation "measure (length \<circ> snd)") (auto dest!: nm_fill_shrinks nm_header_shrinks)

declare new_message_loop.simps [simp del]

text \<open>
  \<^verbatim>\<open>++P->recv\<close> is a sum of unbounded integers here: the counter goes back to 0 at every tick of the heartbeat, every ten
  seconds, and only 2 to the 31 socket messages in between would overflow the \<^verbatim>\<open>int\<close>.
\<close>

definition new_message :: "package \<Rightarrow> bytes \<Rightarrow> package option" where
  "new_message P msg = new_message_loop (P\<lparr>recv := recv P + 1\<rparr>) msg"

text \<open>\<^verbatim>\<open>response\<close>: requests and packages are paired while there are both.\<close>

partial_function (option) response_loop :: "package \<Rightarrow> effect list \<Rightarrow> (package \<times> effect list) option" where
  "response_loop P es =
     (if queue_empty (requests P) then Some (P, es)
      else if queue_empty (responses P) then Some (P, es)
      else (case queue_pop (requests P) of
              (_, None, _) \<Rightarrow> None
            | (_, Some req, rq') \<Rightarrow>
                (case queue_pop (responses P) of
                   (_, None, _) \<Rightarrow> None
                 | (_, Some resp, rs') \<Rightarrow>
                     response_loop (P\<lparr>requests := rq', responses := rs'\<rparr>)
                       (es @ [SkynetSend (source req) PTYPE_RESPONSE True (session req) (r_msg resp)]))))"

datatype socket_type = SOCKET_DATA | SOCKET_CONNECT | SOCKET_CLOSE | SOCKET_ERROR | SOCKET_WARNING | SOCKET_OTHER

record socket_message =
  s_type :: socket_type
  s_id :: int
  s_buffer :: bytes   \<comment> \<open>\<^verbatim>\<open>ud\<close> is its length for DATA\<close>

definition socket_connect :: "package \<Rightarrow> socket_message \<Rightarrow> bytes \<Rightarrow> package \<times> effect list" where
  "socket_connect P sm txt =
     (if init P = 0 \<and> s_id sm = fd P
      then (P\<lparr>init := 1\<rparr>, [SkynetSend (manager P) PTYPE_TEXT False 0 (map Some txt)])
      else (P, []))"

definition socket_message :: "package \<Rightarrow> socket_message \<Rightarrow> (package \<times> effect list) option" where
  "socket_message P sm =
     (case s_type sm of
        SOCKET_CONNECT \<Rightarrow> Some (socket_connect P sm (str ''SUCC''))
      | SOCKET_DATA \<Rightarrow>
          do { P1 \<leftarrow> new_message P (s_buffer sm);
               (P2, es) \<leftarrow> response_loop P1 [];
               Some (P2, SkynetFree (map Some (s_buffer sm)) # es) }
      | SOCKET_WARNING \<Rightarrow> Some (P, [SkynetError (str ''Overload on '' @ fmt_d (fd P))])
      | SOCKET_OTHER \<Rightarrow> Some (P, [])
      | _ \<Rightarrow>
          (let (P1, es1) = socket_connect P sm (str ''FAIL'')
           in if s_id sm \<noteq> fd P1
              then Some (P1, es1 @ [SkynetError (str ''Invalid fd ('' @ fmt_d (s_id sm) @ str ''), should be ('' @ fmt_d (fd P1) @ str '')'')])
              else do { (P2, es2) \<leftarrow> response_loop P1 [];
                        (P3, es3) \<leftarrow> service_exit P2;
                        Some (P3, es1 @ es2 @ es3) }))"

definition heartbeat :: "package \<Rightarrow> package \<times> effect list" where
  "heartbeat P =
     (if recv P = heartbeat_n P then
        (if \<not> closed P then (P, [SkynetSocketShutdown (fd P), SkynetError (str ''timeout '' @ fmt_d (fd P))])
         else (P, []))
      else (P\<lparr>heartbeat_n := 0, recv := 0\<rparr>, [SkynetCommand (str ''TIMEOUT'') (str ''1000'')]))"

definition send_out :: "package \<Rightarrow> bytes \<Rightarrow> effect list" where
  "send_out P msg =
     (let n = length msg in
      if n > 0xffff then [SkynetError (str ''package too long ('' @ fmt_08x (of_nat n) @ str '')'')]
      else [SkynetSocketSend (fd P) (of_nat ((n AND 0xff00) div 256) # of_nat (n AND 0xff) # msg)])"

datatype message =
    M_TEXT bytes | M_CLIENT bytes | M_RESPONSE | M_SOCKET socket_message | M_ERROR | M_OTHER

definition message_handler :: "package \<Rightarrow> message \<Rightarrow> int \<Rightarrow> u32 \<Rightarrow> (package \<times> effect list) option" where
  "message_handler P m sess src =
     (case m of
        M_TEXT msg \<Rightarrow> command P sess src msg
      | M_CLIENT msg \<Rightarrow> Some (P, send_out P msg)
      | M_RESPONSE \<Rightarrow> Some (heartbeat P)
      | M_SOCKET sm \<Rightarrow> socket_message P sm
      | M_ERROR \<Rightarrow> Some (P, [])
      | M_OTHER \<Rightarrow> Some (P, if sess > 0 then [SkynetSend src PTYPE_ERROR False sess []] else []))"

text \<open>\<^verbatim>\<open>package_release\<close>: everything it frees, in order.\<close>

partial_function (option) release_loop :: "response queue \<Rightarrow> effect list \<Rightarrow> (response queue \<times> effect list) option" where
  "release_loop q es =
     (if queue_empty q then Some (q, es)
      else (case queue_pop q of
              (_, None, _) \<Rightarrow> None
            | (_, Some resp, q') \<Rightarrow> release_loop q' (es @ [SkynetFree (r_msg resp)])))"

definition package_release :: "package \<Rightarrow> effect list option" where
  "package_release P =
     do { (rs, es) \<leftarrow> release_loop (responses P) [];
          let unc = (if uncomplete_sz P \<ge> 0 then [SkynetFree (r_msg (uncomplete P))] else []);
          let (rqbuf, _) = queue_exit (requests P);
          let (rsbuf, _) = queue_exit rs;
          Some (es @ unc @ [SkynetFreeRequests rqbuf, SkynetFreeResponses rsbuf, SkynetFreePackage]) }"

text \<open>
  \<^verbatim>\<open>package_init\<close>: \<^verbatim>\<open>sscanf(param, "%u %d", ...)\<close> stores what it matched; the result is the return code.
\<close>

definition package_init :: "package \<Rightarrow> bytes \<Rightarrow> nat \<times> package \<times> effect list" where
  "package_init P param =
     (let (n, P1) =
            (case scan_number param of
               None \<Rightarrow> (0::nat, P)
             | Some (m, rest) \<Rightarrow>
                 (case scan_number rest of
                    None \<Rightarrow> (1, P\<lparr>manager := of_int m\<rparr>)
                  | Some (f, _) \<Rightarrow> (2, P\<lparr>manager := of_int m, fd := sint (of_int f :: 32 word)\<rparr>)))
      in if n \<noteq> 2 \<or> manager P1 = 0 \<or> fd P1 = 0
         then (1, P1, [SkynetError (str ''Invalid param ['' @ param @ str '']'')])
         else (let (P2, es) = heartbeat P1
               in (0, P2, [SkynetSocketStart (fd P1), SkynetSocketNodelay (fd P1)] @ es @ [SkynetCallback])))"


subsection \<open>What the framing means\<close>

text \<open>
  The reference definition: cut a byte stream into the packages it holds and the incomplete rest.
\<close>

function unframe :: "bytes \<Rightarrow> bytes list \<times> bytes" where
  "unframe (a # b # r) =
     (let n = unat a * 256 + unat b
      in if length r < n then ([], a # b # r)
         else (case unframe (drop n r) of (fs, rest) \<Rightarrow> (take n r # fs, rest)))"
| "unframe [] = ([], [])"
| "unframe [a] = ([], [a])"
  by pat_completeness auto
termination
  by (relation "measure length") auto

declare unframe.simps(1) [simp del]

definition frame_header :: "nat \<Rightarrow> bytes" where
  "frame_header n = [of_nat (n div 256), of_nat (n mod 256)]"

definition frame :: "bytes \<Rightarrow> bytes" where
  "frame m = frame_header (length m) @ m"

definition as_response :: "bytes \<Rightarrow> response" where
  "as_response f = \<lparr>r_sz = length f, r_msg = map Some f\<rparr>"

lemma unat_frame_header:
  "n < 65536 \<Longrightarrow> unat (of_nat (n div 256) :: byte) * 256 + unat (of_nat (n mod 256) :: byte) = n"
  by (simp add: unat_of_nat)

lemma frame_header_bytes:
  "frame_header (unat (a :: byte) * 256 + unat (b :: byte)) = [a, b]"
proof -
  have "unat b < 256" by simp
  then show ?thesis by (simp add: frame_header_def)
qed

lemma unframe_short: "n < 65536 \<Longrightarrow> length r < n \<Longrightarrow> unframe (frame_header n @ r) = ([], frame_header n @ r)"
  by (simp add: frame_header_def unframe.simps(1) unat_of_nat)

lemma unframe_complete:
  "n < 65536 \<Longrightarrow> length f = n \<Longrightarrow> unframe (frame_header n @ f @ r) = (f # fst (unframe r), snd (unframe r))"
  by (simp add: frame_header_def unframe.simps(1) unat_of_nat split: prod.splits)

lemma unframe_frames:
  "\<forall>m \<in> set ms. length m < 65536 \<Longrightarrow> unframe (concat (map frame ms) @ r) = (ms @ fst (unframe r), snd (unframe r))"
  by (induction ms) (simp_all add: frame_def unframe_complete)

text \<open>Cutting a stream in two pieces and carrying the rest over gives the same packages.\<close>

lemma unframe_append:
  "unframe (p @ bs) =
     (fst (unframe p) @ fst (unframe (snd (unframe p) @ bs)), snd (unframe (snd (unframe p) @ bs)))"
proof (induction p rule: unframe.induct)
  case (1 a b r)
  let ?n = "unat a * 256 + unat b"
  show ?case
  proof (cases "length r < ?n")
    case True
    then show ?thesis by (simp add: unframe.simps(1))
  next
    case False
    then show ?thesis
      using "1.IH" [OF refl False] by (simp add: unframe.simps(1) Let_def split_beta)
  qed
qed simp_all

subsection \<open>The invariant of the service\<close>

definition pending :: "package \<Rightarrow> bytes" where
  "pending P =
     (if header_sz P = 1 then [header0 P]
      else if uncomplete_sz P \<ge> 0 then
        frame_header (r_sz (uncomplete P)) @
        map the (take (r_sz (uncomplete P) - nat (uncomplete_sz P)) (r_msg (uncomplete P)))
      else [])"

definition stream_inv :: "package \<Rightarrow> bool" where
  "stream_inv P \<longleftrightarrow>
     queue_inv (responses P) \<and> (header_sz P = 0 \<or> header_sz P = 1) \<and> - 1 \<le> uncomplete_sz P \<and>
     (header_sz P = 1 \<longrightarrow> uncomplete_sz P = - 1) \<and>
     (0 \<le> uncomplete_sz P \<longrightarrow>
        r_sz (uncomplete P) < 65536 \<and> length (r_msg (uncomplete P)) = r_sz (uncomplete P) \<and>
        nat (uncomplete_sz P) \<le> r_sz (uncomplete P) \<and>
        (\<forall>x \<in> set (take (r_sz (uncomplete P) - nat (uncomplete_sz P)) (r_msg (uncomplete P))). x \<noteq> None))"

definition same_context :: "package \<Rightarrow> package \<Rightarrow> bool" where
  "same_context P P' \<longleftrightarrow>
     manager P' = manager P \<and> fd P' = fd P \<and> heartbeat_n P' = heartbeat_n P \<and> recv P' = recv P \<and>
     init P' = init P \<and> closed P' = closed P \<and> requests P' = requests P"

lemma same_context_trans: "same_context P Q \<Longrightarrow> same_context Q R \<Longrightarrow> same_context P R"
  by (simp add: same_context_def)

lemma map_the_Some: "\<forall>x \<in> set xs. x \<noteq> None \<Longrightarrow> map Some (map the xs) = xs"
  by (induction xs) auto

text \<open>The first block: a package that is complete is queued, one that is not keeps the new bytes.\<close>

lemma nm_fill_complete:
  assumes inv: "stream_inv P" and u: "0 \<le> uncomplete_sz P" and le: "uncomplete_sz P \<le> int (length msg)"
  shows "\<exists>P1 f rest. nm_fill P msg = Some (Inr (P1, rest)) \<and> stream_inv P1 \<and> pending P1 = [] \<and>
    uncomplete_sz P1 = - 1 \<and> same_context P P1 \<and>
    queue_list (responses P1) = queue_list (responses P) @ [as_response f] \<and>
    unframe (pending P @ msg) = (f # fst (unframe rest), snd (unframe rest))"
proof -
  let ?n = "r_sz (uncomplete P)" and ?u = "nat (uncomplete_sz P)"
  let ?got = "take (?n - ?u) (r_msg (uncomplete P))"
  let ?m = "?got @ map Some (take ?u msg)"
  let ?f = "map the ?got @ take ?u msg"
  from inv u have n: "?n < 65536" and len: "length (r_msg (uncomplete P)) = ?n" and un: "?u \<le> ?n"
    and some: "\<forall>x \<in> set ?got. x \<noteq> None" and q: "queue_inv (responses P)" and h: "header_sz P = 0"
    by (auto simp: stream_inv_def)
  have off: "nat (int ?n - uncomplete_sz P) = ?n - ?u" using u by simp
  have cp: "mem_copy (r_msg (uncomplete P)) (?n - ?u) (map Some msg) ?u = Some ?m"
    using le u un len by (auto simp: mem_copy_def take_map)
  have f: "length ?f = ?n" "map Some ?f = ?m"
    using le u un len map_the_Some [OF some] by auto
  have resp: "(uncomplete P)\<lparr>r_msg := ?m\<rparr> = as_response ?f"
    using f by (simp add: as_response_def)
  from queue_push_ok [OF q, of "as_response ?f"]
  obtain q' where q': "queue_push (responses P) (as_response ?f) = Some q'" "queue_inv q'"
    "queue_list q' = queue_list (responses P) @ [as_response ?f]" by blast
  let ?P = "P\<lparr>uncomplete := as_response ?f, responses := q', uncomplete_sz := - 1\<rparr>"
  have "nm_fill P msg = Some (Inr (?P, drop ?u msg))"
    using u le by (simp add: nm_fill_def off cp resp q')
  moreover have "stream_inv ?P" "pending ?P = []" "same_context P ?P"
    using q' h by (simp_all add: stream_inv_def pending_def same_context_def)
  moreover have "pending P @ msg = frame_header ?n @ ?f @ drop ?u msg"
    using u h by (simp add: pending_def)
  ultimately show ?thesis using q' unframe_complete [OF n f(1), of "drop ?u msg"] by fastforce
qed

lemma nm_fill_partial:
  assumes inv: "stream_inv P" and u: "0 \<le> uncomplete_sz P" and gt: "int (length msg) < uncomplete_sz P"
  shows "\<exists>P1. nm_fill P msg = Some (Inl P1) \<and> stream_inv P1 \<and> pending P1 = pending P @ msg \<and>
    same_context P P1 \<and> responses P1 = responses P \<and> unframe (pending P @ msg) = ([], pending P @ msg)"
proof -
  let ?n = "r_sz (uncomplete P)" and ?u = "nat (uncomplete_sz P)"
  let ?got = "take (?n - ?u) (r_msg (uncomplete P))"
  let ?m = "?got @ map Some msg @ drop (?n - ?u + length msg) (r_msg (uncomplete P))"
  from inv u have n: "?n < 65536" and len: "length (r_msg (uncomplete P)) = ?n" and un: "?u \<le> ?n"
    and some: "\<forall>x \<in> set ?got. x \<noteq> None" and h: "header_sz P = 0"
    by (auto simp: stream_inv_def)
  have off: "nat (int ?n - uncomplete_sz P) = ?n - ?u" using u by simp
  have cp: "mem_copy (r_msg (uncomplete P)) (?n - ?u) (map Some msg) (length msg) = Some ?m"
    using gt u un len by (auto simp: mem_copy_def)
  define Q where "Q = P\<lparr>uncomplete := (uncomplete P)\<lparr>r_msg := ?m\<rparr>, uncomplete_sz := uncomplete_sz P - int (length msg)\<rparr>"
  have Q: "r_sz (uncomplete Q) = ?n" "r_msg (uncomplete Q) = ?m" "header_sz Q = 0" "responses Q = responses P"
    "uncomplete_sz Q = uncomplete_sz P - int (length msg)" "same_context P Q"
    by (simp_all add: Q_def h same_context_def)
  have sz: "?n - nat (uncomplete_sz P - int (length msg)) = (?n - ?u) + length msg"
    using gt u un by arith
  have tk: "take ((?n - ?u) + length msg) ?m = ?got @ map Some msg" using len un by simp
  have tkQ: "take (r_sz (uncomplete Q) - nat (uncomplete_sz Q)) (r_msg (uncomplete Q)) = ?got @ map Some msg"
    unfolding Q sz by (rule tk)
  have "length ?m = ?n" using len un gt by simp
  then have "stream_inv Q"
    using inv u gt n un some unfolding stream_inv_def tkQ Q by auto
  moreover have "pending Q = pending P @ msg"
    using u gt h Q unfolding pending_def tkQ by simp
  moreover have "unframe (pending P @ msg) = ([], pending P @ msg)"
    using u h gt len un unframe_short [OF n, of "map the ?got @ msg"] by (simp add: pending_def)
  moreover have "nm_fill P msg = Some (Inl Q)"
    using u gt by (simp add: nm_fill_def off cp Q_def)
  ultimately show ?thesis using Q by blast
qed

lemma nm_alloc_step:
  assumes "queue_inv (responses Q)" "header_sz Q = 0"
  shows "stream_inv (nm_alloc Q) \<and> pending (nm_alloc Q) = [header0 Q, header1 Q] \<and> responses (nm_alloc Q) = responses Q \<and>
    same_context Q (nm_alloc Q)"
proof -
  define n where "n = unat (header0 Q) * 256 + unat (header1 Q)"
  have "unat (header0 Q) < 256" "unat (header1 Q) < 256" by simp_all
  then have "n < 65536" unfolding n_def by linarith
  moreover have "frame_header n = [header0 Q, header1 Q]" unfolding n_def by (rule frame_header_bytes)
  ultimately show ?thesis
    using assms by (simp add: nm_alloc_def stream_inv_def pending_def malloc_def same_context_def n_def [symmetric])
qed

text \<open>The second block moves header bytes from the input to the state; nothing is lost.\<close>

lemma nm_header_step:
  assumes inv: "stream_inv P" and u: "uncomplete_sz P = - 1" and ne: "msg \<noteq> []"
  shows "(\<exists>P1. nm_header P msg = Some (Inl P1) \<and> stream_inv P1 \<and> pending P1 = pending P @ msg \<and>
            same_context P P1 \<and> responses P1 = responses P \<and> unframe (pending P @ msg) = ([], pending P @ msg)) \<or>
         (\<exists>P1 rest. nm_header P msg = Some (Inr (P1, rest)) \<and> stream_inv P1 \<and>
            pending P1 @ rest = pending P @ msg \<and> same_context P P1 \<and> responses P1 = responses P)"
proof (cases "header_sz P = 0")
  case True
  then have p: "pending P = []" using u by (simp add: pending_def)
  show ?thesis
  proof (cases "tl msg")
    case Nil
    then obtain a where "msg = [a]" using ne by (cases msg) auto
    then show ?thesis
      using inv u True p by (simp add: nm_header_def stream_inv_def pending_def same_context_def)
  next
    case (Cons b rest)
    then obtain a where m: "msg = a # b # rest" using ne by (cases msg) auto
    then show ?thesis
      using nm_alloc_step [of "P\<lparr>header0 := a, header1 := b\<rparr>"] inv True p
      by (simp add: nm_header_def stream_inv_def same_context_def)
  qed
next
  case False
  then have h: "header_sz P = 1" using inv by (auto simp: stream_inv_def)
  then show ?thesis
    using nm_alloc_step [of "P\<lparr>header1 := hd msg, header_sz := 0\<rparr>"] inv ne
    by (cases msg) (auto simp: nm_header_def stream_inv_def pending_def same_context_def)
qed


text \<open>What one call of the loop adds to the queue and leaves pending; a turn of it composes with the rest of the run.\<close>

definition loop_result :: "package \<Rightarrow> bytes \<Rightarrow> bool" where
  "loop_result P msg \<longleftrightarrow> (\<exists>P'. new_message_loop P msg = Some P' \<and> stream_inv P' \<and> same_context P P' \<and>
     queue_list (responses P') = queue_list (responses P) @ map as_response (fst (unframe (pending P @ msg))) \<and>
     pending P' = snd (unframe (pending P @ msg)))"

lemma loop_result_turn:
  assumes fill: "nm_fill P msg = Some (Inr (P1, rest))" and inv1: "stream_inv P1" and u1: "uncomplete_sz P1 = - 1"
    and ctx1: "same_context P P1"
    and resp1: "queue_list (responses P1) = queue_list (responses P) @ map as_response fs"
    and uf: "unframe (pending P @ msg) = (fs @ fst (unframe (pending P1 @ rest)), snd (unframe (pending P1 @ rest)))"
    and pr: "unframe (pending P1) = ([], pending P1)"
    and next_turn: "\<And>P2 rest2. rest \<noteq> [] \<Longrightarrow> nm_header P1 rest = Some (Inr (P2, rest2)) \<Longrightarrow> stream_inv P2 \<Longrightarrow> loop_result P2 rest2"
  shows "loop_result P msg"
proof (cases "rest = []")
  case True
  then show ?thesis
    using fill inv1 ctx1 resp1 uf pr by (simp add: new_message_loop.simps [of P msg] loop_result_def)
next
  case False
  from nm_header_step [OF inv1 u1 False] show ?thesis
  proof (elim disjE exE conjE)
    fix P2
    assume "nm_header P1 rest = Some (Inl P2)" "stream_inv P2" "pending P2 = pending P1 @ rest"
      "same_context P1 P2" "responses P2 = responses P1" "unframe (pending P1 @ rest) = ([], pending P1 @ rest)"
    then show ?thesis
      using fill False ctx1 resp1 uf
      by (auto simp: new_message_loop.simps [of P msg] loop_result_def intro: same_context_trans)
  next
    fix P2 rest2
    assume hd: "nm_header P1 rest = Some (Inr (P2, rest2))" "stream_inv P2" "pending P2 @ rest2 = pending P1 @ rest"
      "same_context P1 P2" "responses P2 = responses P1"
    from next_turn [OF False hd(1,2)] hd(3-5) show ?thesis
      using fill False hd(1) ctx1 resp1 uf
      by (auto simp: new_message_loop.simps [of P msg] loop_result_def intro: same_context_trans)
  qed
qed

lemma new_message_loop_spec: "stream_inv P \<Longrightarrow> loop_result P msg"
proof (induction P msg rule: new_message_loop.induct)
  case (1 P msg)
  note inv = "1.prems"
  show ?case
  proof (cases "0 \<le> uncomplete_sz P")
    case True
    show ?thesis
    proof (cases "uncomplete_sz P \<le> int (length msg)")
      case True
      from nm_fill_complete [OF inv \<open>0 \<le> uncomplete_sz P\<close> this]
      obtain P1 f rest where c: "nm_fill P msg = Some (Inr (P1, rest))" "stream_inv P1" "pending P1 = []"
        "uncomplete_sz P1 = - 1" "same_context P P1"
        "queue_list (responses P1) = queue_list (responses P) @ [as_response f]"
        "unframe (pending P @ msg) = (f # fst (unframe rest), snd (unframe rest))" by blast
      show ?thesis
        by (rule loop_result_turn [OF c(1,2,4,5), of "[f]"]) (use c "1.IH" [OF c(1) refl refl _ _ refl refl] in auto)
    next
      case False
      with nm_fill_partial [OF inv \<open>0 \<le> uncomplete_sz P\<close>, of msg]
      show ?thesis by (auto simp: new_message_loop.simps [of P msg] loop_result_def)
    qed
  next
    case False
    then have c: "uncomplete_sz P = - 1" "nm_fill P msg = Some (Inr (P, msg))"
      using inv by (auto simp: stream_inv_def nm_fill_def)
    moreover have "same_context P P" by (simp add: same_context_def)
    ultimately show ?thesis
      using loop_result_turn [OF c(2) inv c(1), of "[]"] "1.IH" [OF c(2) refl refl _ _ refl refl] False
      by (auto simp: pending_def)
  qed
qed

lemma new_message_spec:
  assumes "stream_inv P"
  shows "\<exists>P'. new_message P msg = Some P' \<and> stream_inv P' \<and> same_context (P\<lparr>recv := recv P + 1\<rparr>) P' \<and>
    queue_list (responses P') = queue_list (responses P) @ map as_response (fst (unframe (pending P @ msg))) \<and>
    pending P' = snd (unframe (pending P @ msg))"
proof -
  have "stream_inv (P\<lparr>recv := recv P + 1\<rparr>)" "pending (P\<lparr>recv := recv P + 1\<rparr>) = pending P"
    using assms by (simp_all add: stream_inv_def pending_def)
  then show ?thesis
    using new_message_loop_spec [of "P\<lparr>recv := recv P + 1\<rparr>" msg] by (simp add: new_message_def loop_result_def)
qed

subsection \<open>Pairing requests with packages\<close>

definition reply :: "request \<Rightarrow> response \<Rightarrow> effect" where
  "reply req resp = SkynetSend (source req) PTYPE_RESPONSE True (session req) (r_msg resp)"

lemma response_loop_spec:
  assumes "queue_inv (requests P)" "queue_inv (responses P)"
  shows "\<exists>P'. response_loop P es = Some (P', es @ map2 reply (queue_list (requests P)) (queue_list (responses P))) \<and>
    queue_inv (requests P') \<and> queue_inv (responses P') \<and>
    queue_list (requests P') = drop (length (queue_list (responses P))) (queue_list (requests P)) \<and>
    queue_list (responses P') = drop (length (queue_list (requests P))) (queue_list (responses P)) \<and>
    P' = P\<lparr>requests := requests P', responses := responses P'\<rparr>"
  using assms
proof (induction "queue_list (requests P)" arbitrary: P es)
  case Nil
  then have "queue_empty (requests P)" by (simp add: queue_empty_iff)
  with Nil show ?case by (simp add: response_loop.simps [of P es])
next
  case (Cons r rs)
  from Cons.hyps(2) have rl: "queue_list (requests P) = r # rs" by simp
  then have ne: "\<not> queue_empty (requests P)" using Cons.prems by (simp add: queue_empty_iff)
  show ?case
  proof (cases "queue_list (responses P)")
    case Nil
    then have "queue_empty (responses P)" using Cons.prems by (simp add: queue_empty_iff)
    with Nil Cons.prems ne show ?thesis by (simp add: response_loop.simps [of P es])
  next
    case pl: (Cons p ps)
    then have ne': "\<not> queue_empty (responses P)" using Cons.prems by (simp add: queue_empty_iff)
    from queue_pop_ok [OF \<open>queue_inv (requests P)\<close> rl]
    obtain rq where rq: "queue_pop (requests P) = (0, Some r, rq)" "queue_inv rq" "queue_list rq = rs" by auto
    from queue_pop_ok [OF \<open>queue_inv (responses P)\<close> pl]
    obtain rp where rp: "queue_pop (responses P) = (0, Some p, rp)" "queue_inv rp" "queue_list rp = ps" by auto
    let ?P = "P\<lparr>requests := rq, responses := rp\<rparr>"
    have "response_loop P es = response_loop ?P (es @ [reply r p])"
      using ne ne' rq rp by (simp add: response_loop.simps [of P es] reply_def)
    then show ?thesis
      using Cons.hyps(1) [of ?P "es @ [reply r p]"] rq rp rl pl by auto
  qed
qed


definition error_to :: "request \<Rightarrow> effect" where
  "error_to req = SkynetSend (source req) PTYPE_ERROR False (session req) []"

lemma exit_loop_spec:
  assumes "queue_inv q"
  shows "\<exists>q'. exit_loop q es = Some (q', es @ map error_to (queue_list q)) \<and> queue_inv q' \<and> queue_list q' = []"
  using assms
proof (induction "queue_list q" arbitrary: q es)
  case Nil
  then show ?case using queue_empty_iff [of q] by (simp add: exit_loop.simps [of q es])
next
  case (Cons r rs)
  from Cons.hyps(2) have rl: "queue_list q = r # rs" by simp
  from queue_pop_ok [OF Cons.prems rl]
  obtain q1 where q1: "queue_pop q = (0, Some r, q1)" "queue_inv q1" "queue_list q1 = rs" by blast
  moreover have "\<not> queue_empty q" using rl Cons.prems by (simp add: queue_empty_iff)
  ultimately show ?case
    using Cons.hyps(1) [of q1 "es @ [error_to r]"] rl by (simp add: exit_loop.simps [of q es] error_to_def)
qed

lemma release_loop_spec:
  assumes "queue_inv q"
  shows "\<exists>q'. release_loop q es = Some (q', es @ map (SkynetFree \<circ> r_msg) (queue_list q)) \<and> buffer q' = buffer q"
  using assms
proof (induction "queue_list q" arbitrary: q es)
  case Nil
  then show ?case using queue_empty_iff [of q] by (simp add: release_loop.simps [of q es])
next
  case (Cons r rs)
  from Cons.hyps(2) have rl: "queue_list q = r # rs" by simp
  from queue_pop_ok [OF Cons.prems rl]
  obtain q1 where q1: "queue_pop q = (0, Some r, q1)" "queue_inv q1" "queue_list q1 = rs" by blast
  moreover have "\<not> queue_empty q" using rl Cons.prems by (simp add: queue_empty_iff)
  moreover have "buffer q1 = buffer q" using q1(1) by (auto simp: queue_pop_def Let_def split: if_splits)
  ultimately show ?case
    using Cons.hyps(1) [of q1 "es @ [SkynetFree (r_msg r)]"] rl by (simp add: release_loop.simps [of q es])
qed

definition pkg_inv :: "package \<Rightarrow> bool" where
  "pkg_inv P \<longleftrightarrow> stream_inv P \<and> queue_inv (requests P) \<and> unframe (pending P) = ([], pending P) \<and>
     (queue_list (requests P) = [] \<or> queue_list (responses P) = [])"

lemma pkg_inv_create: "pkg_inv package_create" and pending_create: "pending package_create = []"
  by (simp_all add: pkg_inv_def package_create_def stream_inv_def pending_def queue_init_inv queue_init_list)

lemma pkg_inv_cong:
  "responses Q = responses P \<Longrightarrow> requests Q = requests P \<Longrightarrow> header_sz Q = header_sz P \<Longrightarrow> header0 Q = header0 P \<Longrightarrow>
   uncomplete_sz Q = uncomplete_sz P \<Longrightarrow> uncomplete Q = uncomplete P \<Longrightarrow>
   pkg_inv Q = pkg_inv P \<and> pending Q = pending P"
  by (simp add: pkg_inv_def stream_inv_def pending_def)

text \<open>What one message asks for and brings in.\<close>

fun requests_in :: "message \<times> int \<times> u32 \<Rightarrow> request list" where
  "requests_in (M_TEXT (c # cs), sess, src) = (if c = chr (CHR ''R'') then [\<lparr>source = src, session = sess\<rparr>] else [])"
| "requests_in _ = []"

fun bytes_in :: "message \<times> int \<times> u32 \<Rightarrow> bytes" where
  "bytes_in (M_SOCKET sm, _, _) = (if s_type sm = SOCKET_DATA then s_buffer sm else [])"
| "bytes_in _ = []"

text \<open>
  A message that the code defines a behaviour for, and one that ends the service. \<^verbatim>\<open>command\<close> reads \<^verbatim>\<open>msg[0]\<close> without a look at
  \<^verbatim>\<open>sz\<close>: a text message without any byte is the only one that is not well formed.
\<close>

fun well_formed :: "message \<times> int \<times> u32 \<Rightarrow> bool" where
  "well_formed (M_TEXT t, _, _) \<longleftrightarrow> t \<noteq> []"
| "well_formed _ \<longleftrightarrow> True"

fun closes :: "int \<Rightarrow> message \<times> int \<times> u32 \<Rightarrow> bool" where
  "closes f (M_SOCKET sm, _, _) \<longleftrightarrow> (s_type sm = SOCKET_CLOSE \<or> s_type sm = SOCKET_ERROR) \<and> s_id sm = f"
| "closes _ _ \<longleftrightarrow> False"

fun is_reply :: "effect \<Rightarrow> bool" where
  "is_reply (SkynetSend _ PTYPE_RESPONSE dontcopy _ _) = dontcopy"
| "is_reply _ = False"

lemma is_reply_reply [simp]: "is_reply (reply a b)" by (simp add: reply_def)

lemma filter_replies [simp]: "filter is_reply (map2 reply xs ys) = map2 reply xs ys"
  by (induction xs arbitrary: ys) (auto simp: list_all_iff filter_id_conv in_set_zip)

text \<open>The state a handler sees, as the lists it works on.\<close>

definition steps_to :: "package \<Rightarrow> request list \<Rightarrow> bytes \<Rightarrow> package \<Rightarrow> effect list \<Rightarrow> bool" where
  "steps_to P rs bs P' es \<longleftrightarrow>
     (let reqs = queue_list (requests P) @ rs;
          pkgs = queue_list (responses P) @ map as_response (fst (unframe (pending P @ bs)))
      in pkg_inv P' \<and> fd P' = fd P \<and> closed P' = closed P \<and>
         filter is_reply es = map2 reply reqs pkgs \<and>
         queue_list (requests P') = drop (length pkgs) reqs \<and>
         queue_list (responses P') = drop (length reqs) pkgs \<and>
         pending P' = snd (unframe (pending P @ bs)))"

lemma steps_to_quiet:
  assumes "pkg_inv P" "pkg_inv Q" "pending Q = pending P" "requests Q = requests P" "responses Q = responses P"
    "fd Q = fd P" "closed Q = closed P" "filter is_reply es = []"
  shows "steps_to P [] [] Q es"
  using assms by (auto simp: steps_to_def pkg_inv_def)

lemma steps_to_request:
  assumes inv: "pkg_inv P" and op: "\<not> closed P"
  shows "\<exists>P' es. command P sess src (chr (CHR ''R'') # cs) = Some (P', es) \<and>
    steps_to P [\<lparr>source = src, session = sess\<rparr>] [] P' es"
proof -
  let ?r = "\<lparr>source = src, session = sess\<rparr>"
  from inv have q: "queue_inv (requests P)" "queue_inv (responses P)" and s: "stream_inv P"
    and p: "unframe (pending P) = ([], pending P)"
    by (auto simp: pkg_inv_def stream_inv_def)
  show ?thesis
  proof (cases "queue_list (responses P)")
    case Nil
    from queue_push_ok [OF q(1), of ?r] obtain q' where q':
      "queue_push (requests P) ?r = Some q'" "queue_inv q'" "queue_list q' = queue_list (requests P) @ [?r]" by blast
    let ?P = "P\<lparr>requests := q'\<rparr>"
    have "pending ?P = pending P" "stream_inv ?P" using s by (simp_all add: pending_def stream_inv_def)
    moreover have "command P sess src (chr (CHR ''R'') # cs) = Some (?P, [])"
      using Nil q q' op by (simp add: command_def queue_empty_iff)
    ultimately show ?thesis using Nil q' p by (simp add: steps_to_def pkg_inv_def)
  next
    case (Cons x xs)
    then have e: "queue_list (requests P) = []" using inv by (simp add: pkg_inv_def)
    from queue_pop_ok [OF q(2) Cons] obtain q' where q':
      "queue_pop (responses P) = (0, Some x, q')" "queue_inv q'" "queue_list q' = xs" by blast
    let ?P = "P\<lparr>responses := q'\<rparr>"
    have "pending ?P = pending P" "stream_inv ?P" using s q' by (simp_all add: pending_def stream_inv_def)
    moreover have "command P sess src (chr (CHR ''R'') # cs) = Some (?P, [reply ?r x])"
      using Cons e q q' op by (simp add: command_def queue_empty_iff reply_def)
    ultimately show ?thesis using Cons e q q' p by (simp add: steps_to_def pkg_inv_def)
  qed
qed

lemma unframe_rest: "unframe (snd (unframe bs)) = ([], snd (unframe bs))"
proof (induction bs rule: unframe.induct)
  case (1 a b r)
  then show ?case by (auto simp: unframe.simps(1) Let_def split_beta)
qed simp_all

lemma steps_to_data:
  assumes inv: "pkg_inv P"
  shows "\<exists>P1 P2 es. new_message P bs = Some P1 \<and> response_loop P1 [] = Some (P2, es) \<and> steps_to P [] bs P2 es \<and>
    recv P2 = recv P + 1 \<and> heartbeat_n P2 = heartbeat_n P"
proof -
  from inv have q: "queue_inv (requests P)" and s: "stream_inv P" by (auto simp: pkg_inv_def)
  from new_message_spec [OF s, of bs] obtain P1 where P1: "new_message P bs = Some P1" "stream_inv P1"
    "same_context (P\<lparr>recv := recv P + 1\<rparr>) P1"
    "queue_list (responses P1) = queue_list (responses P) @ map as_response (fst (unframe (pending P @ bs)))"
    "pending P1 = snd (unframe (pending P @ bs))" by blast
  then have r1: "requests P1 = requests P" and q1: "queue_inv (responses P1)"
    by (simp_all add: same_context_def stream_inv_def)
  from response_loop_spec [of P1 "[]"] r1 q q1 P1 obtain P2 where P2:
    "response_loop P1 [] = Some (P2, map2 reply (queue_list (requests P1)) (queue_list (responses P1)))"
    "queue_inv (requests P2)" "queue_inv (responses P2)"
    "queue_list (requests P2) = drop (length (queue_list (responses P1))) (queue_list (requests P1))"
    "queue_list (responses P2) = drop (length (queue_list (requests P1))) (queue_list (responses P1))"
    "P2 = P1\<lparr>requests := requests P2, responses := responses P2\<rparr>" by auto
  have same: "pending P2 = pending P1" "header_sz P2 = header_sz P1" "uncomplete_sz P2 = uncomplete_sz P1"
    "uncomplete P2 = uncomplete P1" "fd P2 = fd P1" "closed P2 = closed P1" "recv P2 = recv P1" "heartbeat_n P2 = heartbeat_n P1"
    by (subst P2(6), simp add: pending_def)+
  have "stream_inv P2" using P1(2) P2(3) same by (simp add: stream_inv_def)
  moreover have "unframe (pending P2) = ([], pending P2)" using P1(5) same unframe_rest by simp
  ultimately have "pkg_inv P2" using P2 by (simp add: pkg_inv_def) linarith
  with P1 P2 same r1 have "steps_to P [] bs P2 (map2 reply (queue_list (requests P1)) (queue_list (responses P1)))"
    by (simp add: steps_to_def same_context_def Let_def)
  with P1 P2 same show ?thesis by (auto simp: same_context_def)
qed

end
