(* ===== verification/Package_Props.thy ===== *)
theory Package_Props
  imports Package_Service
begin

text \<open>
  What the package service promises over whole runs of its message handler: it never reaches
  undefined behaviour, the \<open>k\<close>-th request is answered with the \<open>k\<close>-th package of the byte stream
  however the stream is cut into socket messages, closing answers every waiting request with an
  error, the heartbeat shuts a silent connection down, and what \<^verbatim>\<open>send_out\<close> frames is what
  \<^verbatim>\<open>new_message\<close> unframes.
\<close>

subsection \<open>Single steps\<close>

lemma steps_to_same:
  assumes "pkg_inv P" "responses Q = responses P" "requests Q = requests P" "header_sz Q = header_sz P" "header0 Q = header0 P"
    "uncomplete_sz Q = uncomplete_sz P" "uncomplete Q = uncomplete P" "fd Q = fd P" "closed Q = closed P" "filter is_reply es = []"
  shows "steps_to P [] [] Q es"
  using pkg_inv_cong [OF assms(2-7)] assms by (intro steps_to_quiet) auto

lemma text_open_step:
  assumes inv: "pkg_inv P" and op: "\<not> closed P" and wf: "well_formed (M_TEXT t, sess, src)"
  shows "\<exists>P' es. message_handler P (M_TEXT t) sess src = Some (P', es) \<and>
    steps_to P (requests_in (M_TEXT t, sess, src)) (bytes_in (M_TEXT t, sess, src)) P' es"
proof -
  obtain c cs where t: "t = c # cs" using wf by (cases t) auto
  show ?thesis
  proof (cases "c = chr (CHR ''R'')")
    case True
    with steps_to_request [OF inv op, of sess src cs] t show ?thesis by (simp add: message_handler_def)
  next
    case False
    then show ?thesis
      using t steps_to_same [OF inv] by (simp add: message_handler_def command_def report_info_def Let_def split_beta)
  qed
qed

lemma socket_open_step:
  assumes inv: "pkg_inv P" and nc: "\<not> closes (fd P) (M_SOCKET sm, sess, src)"
  shows "\<exists>P' es. message_handler P (M_SOCKET sm) sess src = Some (P', es) \<and>
    steps_to P (requests_in (M_SOCKET sm, sess, src)) (bytes_in (M_SOCKET sm, sess, src)) P' es"
proof (cases "s_type sm = SOCKET_DATA")
  case True
  with steps_to_data [OF inv, of "s_buffer sm"] show ?thesis
    by (auto simp: message_handler_def socket_message_def steps_to_def)
next
  case False
  then show ?thesis using nc steps_to_same [OF inv]
    by (cases "s_type sm") (simp_all add: message_handler_def socket_message_def socket_connect_def)
qed

lemma handler_open_step:
  assumes inv: "pkg_inv P" and op: "\<not> closed P" and wf: "well_formed ev" and nc: "\<not> closes (fd P) ev"
  shows "\<exists>P' es. message_handler P (fst ev) (fst (snd ev)) (snd (snd ev)) = Some (P', es) \<and>
    steps_to P (requests_in ev) (bytes_in ev) P' es"
proof -
  obtain m sess src where ev: "ev = (m, sess, src)" by (cases ev)
  note same = steps_to_same [OF inv]
  show ?thesis
  proof (cases m)
    case (M_TEXT t)
    then show ?thesis using text_open_step [OF inv op] wf ev by simp
  next
    case (M_CLIENT t)
    then show ?thesis using ev same by (simp add: message_handler_def send_out_def Let_def)
  next
    case M_RESPONSE
    then show ?thesis using ev same op by (simp add: message_handler_def heartbeat_def)
  next
    case (M_SOCKET sm)
    then show ?thesis using socket_open_step [OF inv] nc ev by simp
  qed (use ev same in \<open>simp_all add: message_handler_def\<close>)
qed

text \<open>The connection is closed: everybody who waits is told, and the manager is told last.\<close>

lemma handler_close_step:
  assumes inv: "pkg_inv P" and cl: "closes (fd P) (M_SOCKET sm, sess, src)"
  shows "\<exists>P' pre. socket_message P sm =
      Some (P', pre @ map error_to (queue_list (requests P)) @
        [SkynetSend (manager P) PTYPE_TEXT False 0 (map Some (str ''CLOSED'')), SkynetCommand (str ''EXIT'') []]) \<and>
    pre = (if init P = 0 then [SkynetSend (manager P) PTYPE_TEXT False 0 (map Some (str ''FAIL''))] else []) \<and>
    pkg_inv P' \<and> closed P' \<and> queue_list (requests P') = [] \<and> queue_list (responses P') = queue_list (responses P)"
proof -
  let ?P1 = "fst (socket_connect P sm (str ''FAIL''))"
  from cl have id: "s_id sm = fd P" and ty: "s_type sm = SOCKET_CLOSE \<or> s_type sm = SOCKET_ERROR" by auto
  have P1: "?P1 = (if init P = 0 then P\<lparr>init := 1\<rparr> else P)" using id by (simp add: socket_connect_def)
  then have f1: "responses ?P1 = responses P" "requests ?P1 = requests P" "header_sz ?P1 = header_sz P"
    "header0 ?P1 = header0 P" "uncomplete_sz ?P1 = uncomplete_sz P" "uncomplete ?P1 = uncomplete P"
    "fd ?P1 = fd P" "manager ?P1 = manager P" by simp_all
  from pkg_inv_cong [OF f1(1-6)] inv have inv1: "pkg_inv ?P1" by simp
  then have q1: "queue_inv (requests ?P1)" "queue_inv (responses ?P1)" by (auto simp: pkg_inv_def stream_inv_def)
  have none: "map2 reply (queue_list (requests P)) (queue_list (responses P)) = []"
    using inv by (auto simp: pkg_inv_def)
  from response_loop_spec [OF q1, of "[]"] none f1 inv obtain P2 where P2:
    "response_loop ?P1 [] = Some (P2, [])" "queue_inv (requests P2)" "queue_inv (responses P2)"
    "queue_list (requests P2) = queue_list (requests P)" "queue_list (responses P2) = queue_list (responses P)"
    "P2 = ?P1\<lparr>requests := requests P2, responses := responses P2\<rparr>"
    by (auto simp: pkg_inv_def)
  from exit_loop_spec [OF P2(2), of "[]"] obtain q' where q':
    "exit_loop (requests P2) [] = Some (q', map error_to (queue_list (requests P2)))" "queue_inv q'" "queue_list q' = []"
    by auto
  let ?P3 = "P2\<lparr>closed := True, requests := q'\<rparr>"
  have f2: "header_sz P2 = header_sz P" "header0 P2 = header0 P" "uncomplete_sz P2 = uncomplete_sz P"
    "uncomplete P2 = uncomplete P" "manager P2 = manager P"
    by (subst P2(6), simp add: f1)+
  have "pending ?P3 = pending P" using f2 by (simp add: pending_def)
  moreover have "stream_inv ?P3" using inv P2(3) f2 by (simp add: pkg_inv_def stream_inv_def)
  ultimately have "pkg_inv ?P3" using inv q' by (simp add: pkg_inv_def)
  moreover have "socket_message P sm =
      Some (?P3, (if init P = 0 then [SkynetSend (manager P) PTYPE_TEXT False 0 (map Some (str ''FAIL''))] else []) @
        map error_to (queue_list (requests P)) @
        [SkynetSend (manager P) PTYPE_TEXT False 0 (map Some (str ''CLOSED'')), SkynetCommand (str ''EXIT'') []])"
    using ty id f1 f2 P2(1,4) q'(1)
    by (auto simp: socket_message_def service_exit_def split_beta) (simp_all add: socket_connect_def)
  ultimately show ?thesis using P2 q' by force
qed


lemma close_keeps_counters:
  assumes inv: "pkg_inv P" and cl: "closes (fd P) (M_SOCKET sm, sess, src)"
    and run: "socket_message P sm = Some (P', es)"
  shows "recv P' = recv P \<and> heartbeat_n P' = heartbeat_n P"
proof -
  let ?P1 = "fst (socket_connect P sm (str ''FAIL''))"
  have f: "recv ?P1 = recv P" "heartbeat_n ?P1 = heartbeat_n P" "requests ?P1 = requests P" "responses ?P1 = responses P"
    "fd ?P1 = fd P"
    by (simp_all add: socket_connect_def)
  with response_loop_spec [of ?P1 "[]"] inv obtain P2 es2 where
    P2: "response_loop ?P1 [] = Some (P2, es2)" "P2 = ?P1\<lparr>requests := requests P2, responses := responses P2\<rparr>"
    by (auto simp: pkg_inv_def stream_inv_def)
  have "recv P2 = recv P" "heartbeat_n P2 = heartbeat_n P" by (subst P2(2), simp add: f)+
  then show ?thesis
    using cl run P2(1) f(5)
    by (auto simp: socket_message_def service_exit_def split_beta split: bind_splits if_splits socket_type.splits)
qed

subsection \<open>Whole runs\<close>

fun handler_run :: "package \<Rightarrow> (message \<times> int \<times> u32) list \<Rightarrow> (package \<times> effect list) option" where
  "handler_run P [] = Some (P, [])"
| "handler_run P ((m, sess, src) # evs) =
     (case message_handler P m sess src of None \<Rightarrow> None
      | Some (P1, es1) \<Rightarrow>
          (case handler_run P1 evs of None \<Rightarrow> None | Some (P2, es2) \<Rightarrow> Some (P2, es1 @ es2)))"

lemma map2_split:
  "map2 f (as @ as') (bs @ bs') = map2 f as bs @ map2 f (drop (length bs) as @ as') (drop (length as) bs @ bs')"
  by (induction as arbitrary: bs) (simp, case_tac bs, auto)

lemma drop_split:
  "drop (length (bs @ bs')) (as @ as') = drop (length (drop (length as) bs @ bs')) (drop (length bs) as @ as')"
  by (cases "length as \<le> length bs") (auto simp: drop_drop add.commute)

lemma steps_to_trans:
  assumes "steps_to P rs bs P1 es1" "steps_to P1 rs' bs' P2 es2"
  shows "steps_to P (rs @ rs') (bs @ bs') P2 (es1 @ es2)"
proof -
  let ?q = "queue_list (requests P) @ rs"
  let ?p = "queue_list (responses P) @ map as_response (fst (unframe (pending P @ bs)))"
  let ?f = "map as_response (fst (unframe (pending P1 @ bs')))"
  have uf: "fst (unframe (pending P @ bs @ bs')) = fst (unframe (pending P @ bs)) @ fst (unframe (pending P1 @ bs'))"
    "snd (unframe (pending P @ bs @ bs')) = snd (unframe (pending P1 @ bs'))"
    using unframe_append [of "pending P @ bs" bs'] assms(1) by (simp_all add: steps_to_def Let_def)
  have 1: "queue_list (requests P1) = drop (length ?p) ?q" "queue_list (responses P1) = drop (length ?q) ?p"
    using assms(1) by (simp_all add: steps_to_def Let_def)
  show ?thesis
    using assms map2_split [of reply ?q rs' ?p ?f] drop_split [of ?p ?f ?q rs'] drop_split [of ?q rs' ?p ?f]
    unfolding steps_to_def Let_def uf map_append 1 by (simp add: append_assoc del: drop_append)
qed

lemma handler_run_open:
  assumes "pkg_inv P" "\<not> closed P" "\<forall>ev \<in> set evs. well_formed ev \<and> \<not> closes (fd P) ev"
  shows "\<exists>P' es. handler_run P evs = Some (P', es) \<and>
    steps_to P (concat (map requests_in evs)) (concat (map bytes_in evs)) P' es"
  using assms
proof (induction evs arbitrary: P)
  case Nil
  then show ?case by (auto intro: steps_to_quiet)
next
  case (Cons ev evs)
  from handler_open_step [of P ev] Cons.prems obtain P1 es1 where
    1: "message_handler P (fst ev) (fst (snd ev)) (snd (snd ev)) = Some (P1, es1)"
    and s1: "steps_to P (requests_in ev) (bytes_in ev) P1 es1" by auto
  from s1 have "pkg_inv P1" "\<not> closed P1" "fd P1 = fd P"
    using Cons.prems(2) by (auto simp: steps_to_def Let_def)
  with Cons.IH [of P1] Cons.prems(3) obtain P2 es2 where
    2: "handler_run P1 evs = Some (P2, es2)"
    and s2: "steps_to P1 (concat (map requests_in evs)) (concat (map bytes_in evs)) P2 es2" by auto
  have "handler_run P (ev # evs) = Some (P2, es1 @ es2)"
    using 1 2 by (cases ev) simp
  with steps_to_trans [OF s1 s2] show ?case by auto
qed

lemma package_init_ok:
  assumes "package_init package_create param = (0, P, es)"
  shows "pkg_inv P \<and> \<not> closed P \<and> pending P = [] \<and> queue_list (requests P) = [] \<and> queue_list (responses P) = [] \<and>
    recv P = 0 \<and> heartbeat_n P = 0 \<and> fd P \<noteq> 0 \<and> filter is_reply es = []"
proof -
  obtain m f where P: "P = package_create\<lparr>manager := m, fd := f, heartbeat_n := 0, recv := 0\<rparr>" and f: "f \<noteq> 0"
    and es: "filter is_reply es = []"
    using assms by (auto simp: package_init_def heartbeat_def package_create_def Let_def split: option.splits if_splits)
  have "pkg_inv P \<and> pending P = pending package_create"
    using pkg_inv_cong [of P package_create] pkg_inv_create P by simp
  then show ?thesis
    using f es by (simp add: P pending_create) (simp add: package_create_def queue_init_list)
qed


lemma handler_safe_step:
  assumes inv: "pkg_inv P" and wf: "well_formed (m, sess, src)"
  shows "\<exists>P' es. message_handler P m sess src = Some (P', es) \<and> pkg_inv P'"
proof (cases "closes (fd P) (m, sess, src)")
  case True
  then obtain sm where "m = M_SOCKET sm" by (cases m) auto
  with handler_close_step [OF inv, of sm sess src] True show ?thesis by (auto simp: message_handler_def)
next
  case nc: False
  show ?thesis
  proof (cases "closed P")
    case False
    with handler_open_step [OF inv False wf nc] show ?thesis by (auto simp: steps_to_def Let_def)
  next
    case True
    let ?Q = "P\<lparr>closed := False\<rparr>"
    have Q: "pkg_inv ?Q" using pkg_inv_cong [of ?Q P] inv by simp
    consider (R) t where "m = M_TEXT (chr (CHR ''R'') # t)" | (T) "m = M_RESPONSE" | (D) sm where "m = M_SOCKET sm" "s_type sm = SOCKET_DATA"
      | (other) "\<not> (\<exists>t. m = M_TEXT (chr (CHR ''R'') # t))" "m \<noteq> M_RESPONSE" "\<not> (\<exists>sm. m = M_SOCKET sm \<and> s_type sm = SOCKET_DATA)"
      by blast
    then show ?thesis
    proof cases
      case R
      then show ?thesis using True inv by (simp add: message_handler_def command_def)
    next
      case T
      then show ?thesis
        using inv pkg_inv_cong [of "P\<lparr>heartbeat_n := 0, recv := 0\<rparr>" P] by (simp add: message_handler_def heartbeat_def)
    next
      case D
      with steps_to_data [OF inv, of "s_buffer sm"] show ?thesis
        by (auto simp: message_handler_def socket_message_def steps_to_def Let_def)
    next
      case other
      then show ?thesis
        using inv wf nc pkg_inv_cong [of "P\<lparr>init := 1\<rparr>" P]
        by (cases m)
          (auto simp: message_handler_def command_def neq_Nil_conv socket_message_def socket_connect_def
            split: socket_type.splits)
    qed
  qed
qed

lemma handler_run_inv:
  assumes "pkg_inv P" "\<forall>ev \<in> set evs. well_formed ev"
  shows "\<exists>P' es. handler_run P evs = Some (P', es) \<and> pkg_inv P'"
  using assms
proof (induction evs arbitrary: P)
  case Nil
  then show ?case by simp
next
  case (Cons ev evs)
  obtain m sess src where ev: "ev = (m, sess, src)" by (cases ev)
  from handler_safe_step [of P m sess src] Cons.prems ev obtain P1 es1 where
    "message_handler P m sess src = Some (P1, es1)" "pkg_inv P1" by auto
  with Cons.IH [of P1] Cons.prems ev show ?case by auto
qed

lemma empty_text_undefined: "\<not> well_formed (m, sess, src) \<Longrightarrow> message_handler P m sess src = None"
  by (cases m) (simp_all add: message_handler_def command_def)

lemma handler_run_undefined: "\<exists>ev \<in> set evs. \<not> well_formed ev \<Longrightarrow> handler_run P evs = None"
proof (induction evs arbitrary: P)
  case (Cons ev evs)
  obtain m sess src where ev: "ev = (m, sess, src)" by (cases ev)
  show ?case
  proof (cases "well_formed ev")
    case True
    with Cons ev show ?thesis by (auto split: option.splits)
  next
    case False
    with ev empty_text_undefined show ?thesis by simp
  qed
qed simp

text \<open>
  C2: From a freshly created and initialised service on, the handler reaches undefined behaviour exactly when one of the
  messages is a text message without any byte, whose first byte \<^verbatim>\<open>command\<close> reads all the same. On every other sequence of
  messages no ring buffer is read or written out of range, no slot or payload is used before it was written, the
  assertions on the queues and on the header hold, every loop ends, and the invariant holds afterwards. (The \<^verbatim>\<open>int\<close> counters
  are unbounded here: fewer than 2 to the 31 socket messages come between two ticks, and fewer than 2 to the 27 elements wait.)
\<close>

theorem package_handler_total:
  assumes "package_init package_create param = (0, P, es0)"
  shows "if \<forall>ev \<in> set evs. \<forall>sess src. ev \<noteq> (M_TEXT [], sess, src)
    then \<exists>P' es. handler_run P evs = Some (P', es) \<and> pkg_inv P'
    else handler_run P evs = None"
proof -
  have "well_formed ev \<longleftrightarrow> (\<forall>sess src. ev \<noteq> (M_TEXT [], sess, src))" for ev
    by (cases ev rule: well_formed.cases) auto
  then show ?thesis
    using handler_run_inv [of P evs] handler_run_undefined [of evs P] package_init_ok [OF assms] by auto
qed

text \<open>
  C1: While the connection is open, the replies the service sends are exactly the \<open>k\<close>-th request paired
  with the \<open>k\<close>-th package of the byte stream, in order: requests and packages may arrive in any interleaving
  and the stream may be cut into socket messages anywhere.
\<close>

theorem package_kth_request_kth_package:
  assumes "package_init package_create param = (0, P, es0)"
    and "\<forall>ev \<in> set evs. well_formed ev \<and> \<not> closes (fd P) ev"
  shows "\<exists>P' es. handler_run P evs = Some (P', es) \<and>
    filter is_reply es =
      map2 reply (concat (map requests_in evs)) (map as_response (fst (unframe (concat (map bytes_in evs)))))"
  using handler_run_open [of P evs] package_init_ok [OF assms(1)] assms(2)
  by (auto simp: steps_to_def Let_def)

text \<open>
  C3: The packages a stream of framed messages is cut into do not depend on how it arrives: for every way
  to split the stream into chunks, feeding the chunks one after the other queues exactly the messages, with
  every byte written, and leaves nothing pending.
\<close>

theorem new_message_any_chunking:
  assumes "\<forall>m \<in> set ms. length m < 65536" and "concat css = concat (map frame ms)"
  shows "\<exists>P. fold_opt new_message package_create css = Some P \<and>
    queue_list (responses P) = map as_response ms \<and> pending P = []"
proof -
  have gen: "\<exists>P'. fold_opt new_message P css = Some P' \<and>
      queue_list (responses P') = queue_list (responses P) @ map as_response (fst (unframe (pending P @ concat css))) \<and>
      pending P' = snd (unframe (pending P @ concat css))"
    if "stream_inv P" "unframe (pending P) = ([], pending P)" for P
    using that
  proof (induction css arbitrary: P)
    case Nil
    then show ?case by simp
  next
    case (Cons cs css)
    from new_message_spec [OF Cons.prems(1), of cs] obtain P1 where P1: "new_message P cs = Some P1" "stream_inv P1"
      "queue_list (responses P1) = queue_list (responses P) @ map as_response (fst (unframe (pending P @ cs)))"
      "pending P1 = snd (unframe (pending P @ cs))" by blast
    with Cons.IH [of P1] unframe_rest [of "pending P @ cs"] unframe_append [of "pending P @ cs" "concat css"]
    show ?case by auto
  qed
  have "stream_inv package_create" using pkg_inv_create by (simp add: pkg_inv_def)
  from gen [OF this] pkg_inv_create pending_create assms(2) unframe_frames [OF assms(1), of "[]"]
  show ?thesis by (simp add: package_create_def queue_init_list)
qed

lemma send_out_header:
  fixes n :: nat
  assumes "n < 65536"
  shows "(n AND 0xff00) div 256 = n div 256" and "n AND 0xff = n mod 256"
proof -
  have m8: "(0xff :: nat) = mask 8" by (simp add: mask_eq_exp_minus_1)
  show "n AND 0xff = n mod 256" unfolding m8 take_bit_eq_mask [symmetric] by (simp add: take_bit_eq_mod)
  have "(n AND 0xff00) div 256 = drop_bit 8 (n AND push_bit 8 (mask 8))"
    by (simp add: drop_bit_eq_div push_bit_eq_mult mask_eq_exp_minus_1)
  also have "\<dots> = take_bit 8 (drop_bit 8 n)"
    by (simp add: drop_bit_and drop_bit_push_bit take_bit_eq_mask)
  also have "\<dots> = n div 256"
    using assms by (simp add: drop_bit_eq_div take_bit_eq_mod)
  finally show "(n AND 0xff00) div 256 = n div 256" .
qed

text \<open>
  C4: Framing round trip: a message of at most 65535 bytes that \<^verbatim>\<open>send_out\<close> writes to the socket is cut back
  into exactly that message; a longer one is refused with an error and nothing is sent.
\<close>

theorem send_out_roundtrip:
  "if length m \<le> 65535
   then \<exists>w. send_out P m = [SkynetSocketSend (fd P) w] \<and> unframe w = ([m], []) \<and> length w = length m + 2
   else \<exists>txt. send_out P m = [SkynetError txt]"
proof (cases "length m \<le> 65535")
  case True
  then have "length m < 65536" by simp
  note h = send_out_header [OF this]
  have "send_out P m = [SkynetSocketSend (fd P) (frame m)]"
    using True by (simp add: send_out_def Let_def h frame_def frame_header_def)
  moreover have "unframe (frame m) = ([m], [])"
    using unframe_frames [of "[m]" "[]"] True by simp
  ultimately show ?thesis using True by (simp add: frame_def frame_header_def)
next
  case False
  then show ?thesis by (simp add: send_out_def Let_def)
qed


text \<open>
  C5: When the socket closes or fails, every request that still waits is answered with an error exactly
  once and in order, the manager is told \<^verbatim>\<open>FAIL\<close> when the connection never came up and then \<^verbatim>\<open>CLOSED\<close>, the service
  asks to exit, and from then on a request is refused at once.
\<close>

theorem socket_close_answers_waiting:
  assumes "pkg_inv P" and "closes (fd P) (M_SOCKET sm, sess, src)"
  shows "\<exists>P' pre. message_handler P (M_SOCKET sm) sess src =
      Some (P', pre @ map error_to (queue_list (requests P)) @
        [SkynetSend (manager P) PTYPE_TEXT False 0 (map Some (str ''CLOSED'')), SkynetCommand (str ''EXIT'') []]) \<and>
    pre = (if init P = 0 then [SkynetSend (manager P) PTYPE_TEXT False 0 (map Some (str ''FAIL''))] else []) \<and>
    queue_list (requests P') = [] \<and>
    (\<forall>s c t. message_handler P' (M_TEXT (chr (CHR ''R'') # t)) s c = Some (P', [SkynetSend c PTYPE_ERROR False s []]))"
proof -
  from handler_close_step [OF assms] obtain P' where
    "socket_message P sm = Some (P', (if init P = 0 then [SkynetSend (manager P) PTYPE_TEXT False 0 (map Some (str ''FAIL''))] else []) @
       map error_to (queue_list (requests P)) @
       [SkynetSend (manager P) PTYPE_TEXT False 0 (map Some (str ''CLOSED'')), SkynetCommand (str ''EXIT'') []])"
    "closed P'" "queue_list (requests P') = []" by blast
  then show ?thesis by (auto simp: message_handler_def command_def)
qed

subsection \<open>The heartbeat\<close>

lemma recv_counts_data:
  assumes "pkg_inv P" "heartbeat_n P = 0" "0 \<le> recv P" and "\<forall>ev \<in> set evs. well_formed ev \<and> fst ev \<noteq> M_RESPONSE"
    and "handler_run P evs = Some (P', es)"
  shows "heartbeat_n P' = 0 \<and> recv P' = recv P + int (length (filter (\<lambda>ev. \<exists>sm. fst ev = M_SOCKET sm \<and> s_type sm = SOCKET_DATA) evs))"
  using assms
proof (induction evs arbitrary: P es)
  case Nil
  then show ?case by simp
next
  case (Cons ev evs)
  obtain m sess src where ev: "ev = (m, sess, src)" by (cases ev)
  from handler_safe_step [of P m sess src] Cons.prems ev obtain P1 es1 where
    1: "message_handler P m sess src = Some (P1, es1)" "pkg_inv P1" by auto
  let ?data = "\<exists>sm. m = M_SOCKET sm \<and> s_type sm = SOCKET_DATA"
  have r: "heartbeat_n P1 = 0 \<and> recv P1 = recv P + (if ?data then 1 else 0)"
  proof (cases ?data)
    case True
    then obtain sm where sm: "m = M_SOCKET sm" "s_type sm = SOCKET_DATA" by blast
    with steps_to_data [OF Cons.prems(1), of "s_buffer sm"] 1 Cons.prems(2) True show ?thesis
      by (auto simp: message_handler_def socket_message_def)
  next
    case nd: False
    show ?thesis
    proof (cases "closes (fd P) (m, sess, src)")
      case True
      then obtain sm where sm: "m = M_SOCKET sm" by (cases m) auto
      then show ?thesis using 1 nd True Cons.prems(1,2) close_keeps_counters [of P sm sess src P1 es1]
        by (simp add: message_handler_def)
    next
      case False
      then show ?thesis using 1 nd ev Cons.prems
        by (cases m)
          (auto simp: message_handler_def command_def neq_Nil_conv socket_message_def socket_connect_def
            split: socket_type.splits if_splits option.splits prod.splits)
    qed
  qed
  from Cons.prems 1 ev obtain es2 where "handler_run P1 evs = Some (P', es2)" by (auto split: option.splits)
  with Cons.IH [of P1 es2] Cons.prems r 1 ev show ?case by auto
qed


definition silent :: "(message \<times> int \<times> u32) list \<Rightarrow> bool" where
  "silent evs \<longleftrightarrow> filter (\<lambda>ev. \<exists>sm. fst ev = M_SOCKET sm \<and> s_type sm = SOCKET_DATA) evs = []"

text \<open>
  C6: The heartbeat: at the first timer tick after initialisation, and whatever other messages came before it,
  the service shuts the socket down exactly when no data arrived and the connection is still open; when data
  arrived it resets both counters and asks for the next tick.
\<close>

theorem heartbeat_detects_silence:
  assumes "package_init package_create param = (0, P, es0)"
    and "\<forall>ev \<in> set evs. well_formed ev \<and> fst ev \<noteq> M_RESPONSE"
  shows "\<exists>P' es. handler_run P evs = Some (P', es) \<and>
    heartbeat P' =
      (if silent evs
       then (P', if closed P' then [] else [SkynetSocketShutdown (fd P'), SkynetError (str ''timeout '' @ fmt_d (fd P'))])
       else (P'\<lparr>heartbeat_n := 0, recv := 0\<rparr>, [SkynetCommand (str ''TIMEOUT'') (str ''1000'')]))"
proof -
  note i = package_init_ok [OF assms(1)]
  from handler_run_inv [of P evs] i assms(2) obtain P' es where r: "handler_run P evs = Some (P', es)" by blast
  from recv_counts_data [OF _ _ _ assms(2) r] i
  have "heartbeat_n P' = 0" "recv P' = 0 \<longleftrightarrow> silent evs" by (auto simp: silent_def)
  with r show ?thesis by (auto simp: heartbeat_def)
qed

text \<open>
  C7: Releasing the service frees every package that was never handed out exactly once, in order, then the buffer of the
  package that was being received, if there is one, then the buffers of both queues and the service's own record, and
  nothing else.
\<close>

theorem package_release_frees_all:
  assumes "pkg_inv P"
  shows "package_release P =
    Some (map (SkynetFree \<circ> r_msg) (queue_list (responses P)) @
          (if uncomplete_sz P \<ge> 0 then [SkynetFree (r_msg (uncomplete P))] else []) @
          [SkynetFreeRequests (buffer (requests P)), SkynetFreeResponses (buffer (responses P)), SkynetFreePackage])"
  using assms release_loop_spec [of "responses P" "[]"]
  by (auto simp: package_release_def queue_exit_def pkg_inv_def stream_inv_def)

subsection \<open>Witnesses\<close>

definition ex_param :: bytes where "ex_param = str ''1 5''"

definition ex_pkg :: package where
  "ex_pkg = package_create\<lparr>manager := 1, fd := 5, heartbeat_n := 0, recv := 0\<rparr>"

lemma ex_init: "package_init package_create ex_param =
    (0, ex_pkg, [SkynetSocketStart 5, SkynetSocketNodelay 5, SkynetCommand (str ''TIMEOUT'') (str ''1000''), SkynetCallback])"
  by code_simp

text \<open>Two requests, then one package whose header is cut in the middle.\<close>

definition ex_events :: "(message \<times> int \<times> u32) list" where
  "ex_events =
     [(M_TEXT (str ''R''), 7, 9), (M_TEXT (str ''R''), 8, 9),
      (M_SOCKET \<lparr>s_type = SOCKET_DATA, s_id = 5, s_buffer = [0]\<rparr>, 0, 0),
      (M_SOCKET \<lparr>s_type = SOCKET_DATA, s_id = 5, s_buffer = [2, 65, 66]\<rparr>, 0, 0)]"

lemma ex_events_ok: "\<forall>ev \<in> set ex_events. well_formed ev \<and> \<not> closes (fd ex_pkg) ev \<and> fst ev \<noteq> M_RESPONSE"
  by (simp add: ex_events_def str_def)

theorem package_handler_total_witness:
  "(\<exists>P' es. handler_run ex_pkg ex_events = Some (P', es) \<and> pkg_inv P') \<and>
   handler_run ex_pkg (ex_events @ [(M_TEXT [], 0, 9)]) = None"
proof -
  have "\<forall>ev \<in> set ex_events. \<forall>sess src. ev \<noteq> (M_TEXT [], sess, src)"
    by (simp add: ex_events_def str_def)
  then show ?thesis
    using package_handler_total [OF ex_init, of ex_events]
      package_handler_total [OF ex_init, of "ex_events @ [(M_TEXT [], 0, 9)]"] by simp
qed

theorem package_kth_request_kth_package_witness:
  "\<exists>P' es. handler_run ex_pkg ex_events = Some (P', es) \<and>
     filter is_reply es = [SkynetSend 9 PTYPE_RESPONSE True 7 [Some 65, Some 66]]"
proof -
  have "fst (unframe (concat (map bytes_in ex_events))) = [[65, 66]]"
    by (simp add: ex_events_def unframe.simps(1))
  moreover have "concat (map requests_in ex_events) = [\<lparr>source = 9, session = 7\<rparr>, \<lparr>source = 9, session = 8\<rparr>]"
    by (simp add: ex_events_def str_def)
  ultimately show ?thesis
    using package_kth_request_kth_package [OF ex_init, of ex_events] ex_events_ok
    by (simp add: reply_def as_response_def)
qed

theorem new_message_any_chunking_witness:
  "\<exists>P. fold_opt new_message package_create [[0], [1, 65, 0], [], [0, 0, 2, 66], [67]] = Some P \<and>
    queue_list (responses P) = map as_response [[65], [], [66, 67]] \<and> pending P = []"
  by (rule new_message_any_chunking [of "[[65], [], [66, 67]]"]) (simp_all add: frame_def frame_header_def)

text \<open>The service with the two requests waiting.\<close>

definition ex_waiting :: package where
  "ex_waiting = ex_pkg\<lparr>requests := \<lparr>cap = 4, sz = 8, head = 0, tail = 2,
     buffer = [Some \<lparr>source = 9, session = 7\<rparr>, Some \<lparr>source = 9, session = 8\<rparr>, None, None]\<rparr>\<rparr>"

lemma ex_waiting_run: "map_option fst (handler_run ex_pkg (take 2 ex_events)) = Some ex_waiting"
  by code_simp

lemma ex_waiting_inv: "pkg_inv ex_waiting"
  using handler_run_inv [of ex_pkg "take 2 ex_events"] ex_waiting_run package_init_ok [OF ex_init] ex_events_ok
    in_set_takeD [of _ 2 ex_events] by fastforce

theorem socket_close_answers_waiting_witness:
  "\<exists>P'. message_handler ex_waiting (M_SOCKET \<lparr>s_type = SOCKET_CLOSE, s_id = 5, s_buffer = []\<rparr>) 0 0 =
      Some (P', [SkynetSend 1 PTYPE_TEXT False 0 (map Some (str ''FAIL'')),
        SkynetSend 9 PTYPE_ERROR False 7 [], SkynetSend 9 PTYPE_ERROR False 8 [],
        SkynetSend 1 PTYPE_TEXT False 0 (map Some (str ''CLOSED'')), SkynetCommand (str ''EXIT'') []])"
proof -
  have cl: "closes (fd ex_waiting) (M_SOCKET \<lparr>s_type = SOCKET_CLOSE, s_id = 5, s_buffer = []\<rparr>, 0, 0)"
    by (simp add: ex_waiting_def ex_pkg_def)
  have ql: "queue_list (requests ex_waiting) = [\<lparr>source = 9, session = 7\<rparr>, \<lparr>source = 9, session = 8\<rparr>]"
    by (simp add: ex_waiting_def queue_list_def queue_size_def ring_index_def upt_rec numeral_2_eq_2)
  have m: "manager ex_waiting = 1 \<and> init ex_waiting = 0" by (simp add: ex_waiting_def ex_pkg_def package_create_def)
  from socket_close_answers_waiting [OF ex_waiting_inv cl] obtain P' where
    "message_handler ex_waiting (M_SOCKET \<lparr>s_type = SOCKET_CLOSE, s_id = 5, s_buffer = []\<rparr>) 0 0 =
      Some (P', [SkynetSend 1 PTYPE_TEXT False 0 (map Some (str ''FAIL''))] @ map error_to (queue_list (requests ex_waiting)) @
        [SkynetSend 1 PTYPE_TEXT False 0 (map Some (str ''CLOSED'')), SkynetCommand (str ''EXIT'') []])"
    using m by auto
  then show ?thesis by (auto simp: ql error_to_def)
qed

theorem heartbeat_detects_silence_witness:
  "\<exists>P' es. handler_run ex_pkg ex_events = Some (P', es) \<and>
     heartbeat P' = (P'\<lparr>heartbeat_n := 0, recv := 0\<rparr>, [SkynetCommand (str ''TIMEOUT'') (str ''1000'')])"
proof -
  have "\<not> silent ex_events" by (simp add: silent_def ex_events_def)
  then show ?thesis using heartbeat_detects_silence [OF ex_init, of ex_events] ex_events_ok by auto
qed

text \<open>Two packages that nobody asked for and the first byte of a third one of three bytes.\<close>

definition ex_data :: "(message \<times> int \<times> u32) list" where
  "ex_data = [(M_SOCKET \<lparr>s_type = SOCKET_DATA, s_id = 5, s_buffer = [0, 1, 65, 0, 2, 66, 67, 0, 3, 68]\<rparr>, 0, 0)]"

definition ex_full :: package where
  "ex_full = ex_pkg\<lparr>recv := 1, header0 := 0, header1 := 3, uncomplete_sz := 2,
     uncomplete := \<lparr>r_sz = 3, r_msg = [Some 68, None, None]\<rparr>,
     responses := \<lparr>cap = 4, sz = 16, head = 0, tail = 2,
       buffer = [Some (as_response [65]), Some (as_response [66, 67]), None, None]\<rparr>\<rparr>"

lemma ex_full_run: "map_option fst (handler_run ex_pkg ex_data) = Some ex_full"
proof -
  have "new_message ex_pkg [0, 1, 65, 0, 2, 66, 67, 0, 3, 68] = Some ex_full" by code_simp
  moreover have "queue_empty (requests ex_full)"
    by (simp add: ex_full_def ex_pkg_def package_create_def queue_init_def queue_empty_def)
  ultimately show ?thesis
    by (simp add: ex_data_def message_handler_def socket_message_def response_loop.simps [of ex_full])
qed

lemma ex_full_inv: "pkg_inv ex_full"
  using handler_run_inv [of ex_pkg ex_data] ex_full_run package_init_ok [OF ex_init] by (auto simp: ex_data_def)

theorem package_release_frees_all_witness:
  "package_release ex_full =
     Some [SkynetFree [Some 65], SkynetFree [Some 66, Some 67], SkynetFree [Some 68, None, None],
           SkynetFreeRequests [None, None, None, None],
           SkynetFreeResponses [Some (as_response [65]), Some (as_response [66, 67]), None, None], SkynetFreePackage]"
proof -
  have "queue_list (responses ex_full) = [as_response [65], as_response [66, 67]]"
    by (simp add: ex_full_def queue_list_def queue_size_def ring_index_def upt_rec numeral_2_eq_2)
  then show ?thesis
    using package_release_frees_all [OF ex_full_inv]
    by (simp add: as_response_def) (simp add: ex_full_def ex_pkg_def package_create_def queue_init_def as_response_def numeral_eq_Suc)
qed

end
