(* ===== verification/Skiplist.thy ===== *)
theory Skiplist
  imports Skynet_Prelude
begin

text \<open>
  server/lualib-src/skiplist/skiplist.h and skiplist.c: a sorted multi-level linked list with ranks, the
  score board of the game server. Nodes live in an explicit store from addresses to nodes, so that
  the pointer updates of the code are what the model does; \<open>brk\<close> is the next address \<^verbatim>\<open>malloc\<close> gives out.
  Spans are 32-bit, lengths and ranks 64-bit, as declared. A read through an address that holds no node,
  or of a level a node does not have, is \<open>None\<close>.
\<close>

type_synonym ptr = nat

record slobj =
  obj_ptr :: bytes
  obj_length :: nat

record sl_level =
  forward :: "ptr option"
  span :: u32

record sl_node =
  nobj :: "slobj option"
  score :: double
  backward :: "ptr option"
  levels :: "sl_level list"

record skiplist =
  heap :: "ptr \<Rightarrow> sl_node option"
  brk :: ptr
  header :: ptr
  tail_p :: "ptr option"
  sl_length :: u64
  level :: nat

definition SKIPLIST_MAXLEVEL :: nat where
  "SKIPLIST_MAXLEVEL = 32"

subsection \<open>Reads and writes of the store\<close>

definition lvl :: "skiplist \<Rightarrow> ptr \<Rightarrow> nat \<Rightarrow> sl_level option" where
  "lvl s p i = (case heap s p of None \<Rightarrow> None | Some n \<Rightarrow> arr_get (levels n) i)"

definition upd_lvl :: "skiplist \<Rightarrow> ptr \<Rightarrow> nat \<Rightarrow> (sl_level \<Rightarrow> sl_level) \<Rightarrow> skiplist option" where
  "upd_lvl s p i f =
     (case heap s p of None \<Rightarrow> None
      | Some n \<Rightarrow>
          if i < length (levels n)
          then Some (s\<lparr>heap := (heap s)(p \<mapsto> n\<lparr>levels := (levels n)[i := f (levels n ! i)]\<rparr>)\<rparr>)
          else None)"

definition set_forward :: "skiplist \<Rightarrow> ptr \<Rightarrow> nat \<Rightarrow> ptr option \<Rightarrow> skiplist option" where
  "set_forward s p i q = upd_lvl s p i (\<lambda>l. l\<lparr>forward := q\<rparr>)"

definition set_span :: "skiplist \<Rightarrow> ptr \<Rightarrow> nat \<Rightarrow> u32 \<Rightarrow> skiplist option" where
  "set_span s p i w = upd_lvl s p i (\<lambda>l. l\<lparr>span := w\<rparr>)"

definition set_backward :: "skiplist \<Rightarrow> ptr \<Rightarrow> ptr option \<Rightarrow> skiplist option" where
  "set_backward s p q =
     (case heap s p of None \<Rightarrow> None | Some n \<Rightarrow> Some (s\<lparr>heap := (heap s)(p \<mapsto> n\<lparr>backward := q\<rparr>)\<rparr>))"

subsection \<open>Objects and nodes\<close>

definition slCreateObj :: "bytes \<Rightarrow> nat \<Rightarrow> slobj option" where
  "slCreateObj p len = (if len \<le> length p then Some \<lparr>obj_ptr = take len p @ [0], obj_length = len\<rparr> else None)"

text \<open>A fresh node; its levels and its back pointer hold whatever the memory held, here zeros.\<close>

definition slCreateNode :: "skiplist \<Rightarrow> nat \<Rightarrow> double \<Rightarrow> slobj option \<Rightarrow> ptr \<times> skiplist" where
  "slCreateNode s lv sc ob =
     (brk s, s\<lparr>heap := (heap s)(brk s \<mapsto> \<lparr>nobj = ob, score = sc, backward = None,
                                        levels = replicate lv \<lparr>forward = None, span = 0\<rparr>\<rparr>),
               brk := brk s + 1\<rparr>)"

definition slCreate :: "skiplist option" where
  "slCreate =
     (let s0 = \<lparr>heap = (\<lambda>_. None), brk = 1, header = 0, tail_p = None, sl_length = 0, level = 1\<rparr>;
          (h, s1) = slCreateNode s0 SKIPLIST_MAXLEVEL 0 None;
          s2 = s1\<lparr>header := h\<rparr>
      in do { s3 \<leftarrow> fold_opt (\<lambda>s j. do { s' \<leftarrow> set_forward s h j None; set_span s' h j 0 }) s2 [0..<SKIPLIST_MAXLEVEL];
              s4 \<leftarrow> set_backward s3 h None;
              Some (s4\<lparr>tail_p := None\<rparr>) })"

definition slFreeNode :: "skiplist \<Rightarrow> ptr \<Rightarrow> skiplist option" where
  "slFreeNode s p = (case heap s p of None \<Rightarrow> None | Some n \<Rightarrow> Some (s\<lparr>heap := (heap s)(p := None)\<rparr>))"

text \<open>\<^verbatim>\<open>slFree\<close>: the nodes are freed along the bottom level; a node is read before it is freed.\<close>

partial_function (option) slFree_loop :: "skiplist \<Rightarrow> ptr option \<Rightarrow> skiplist option" where
  "slFree_loop s p =
     (case p of None \<Rightarrow> Some s
      | Some q \<Rightarrow> do { l \<leftarrow> lvl s q 0; s' \<leftarrow> slFreeNode s q; slFree_loop s' (forward l) })"

definition slFree :: "skiplist \<Rightarrow> skiplist option" where
  "slFree s = do { l \<leftarrow> lvl s (header s) 0; s1 \<leftarrow> slFreeNode s (header s); slFree_loop s1 (forward l) }"

text \<open>
  \<^verbatim>\<open>slRandomLevel\<close>: the values \<^verbatim>\<open>random()\<close> returns are a list that is consumed; \<open>SKIPLIST_P * 0xffff\<close>
  is 16383.75, so a draw raises the level when its low 16 bits are at most 16383.
\<close>

fun random_loop :: "nat \<Rightarrow> u64 list \<Rightarrow> (nat \<times> u64 list) option" where
  "random_loop lv [] = None"
| "random_loop lv (r # rs) = (if unat (r AND 0xffff) \<le> 16383 then random_loop (lv + 1) rs else Some (lv, rs))"

definition slRandomLevel :: "u64 list \<Rightarrow> (nat \<times> u64 list) option" where
  "slRandomLevel rs =
     map_option (\<lambda>(lv, rs'). (if lv < SKIPLIST_MAXLEVEL then lv else SKIPLIST_MAXLEVEL, rs')) (random_loop 1 rs)"

text \<open>The length difference is a \<^verbatim>\<open>size_t\<close> that is returned as an \<^verbatim>\<open>int\<close>.\<close>

definition compareslObj :: "slobj \<Rightarrow> slobj \<Rightarrow> int" where
  "compareslObj a b =
     (let cmp = memcmp (obj_ptr a) (obj_ptr b) (min (obj_length a) (obj_length b))
      in if cmp = 0 then sint (word_of_int (int (obj_length a) - int (obj_length b)) :: 32 word) else cmp)"

definition equalslObj :: "slobj \<Rightarrow> slobj \<Rightarrow> bool" where
  "equalslObj a b \<longleftrightarrow> compareslObj a b = 0"

subsection \<open>Walking the levels\<close>

text \<open>
  The inner loop that every search of the file has: at level \<open>i\<close>, from node \<open>x\<close>, move forward and add up the
  spans while there is a next node and the condition holds for it. The condition sees the sum so far, the span
  and the next node, and is itself undefined where it reads a null object.
\<close>

type_synonym 'w walk_cond = "'w word \<Rightarrow> u32 \<Rightarrow> sl_node \<Rightarrow> bool option"

partial_function (option) sl_walk ::
  "skiplist \<Rightarrow> 'w::len walk_cond \<Rightarrow> nat \<Rightarrow> ptr \<Rightarrow> 'w word \<Rightarrow> (ptr \<times> 'w word) option" where
  "sl_walk s c i x acc =
     do { l \<leftarrow> lvl s x i;
          (case forward l of None \<Rightarrow> Some (x, acc)
           | Some f \<Rightarrow> do { n \<leftarrow> heap s f;
                            go \<leftarrow> c acc (span l) n;
                            if go then sl_walk s c i f (acc + ucast (span l)) else Some (x, acc) }) }"

text \<open>
  The outer loop, from level \<open>i - 1\<close> down to 0: for each level the node where the walk stopped and the sum
  there. Entry \<open>i\<close> of the result is \<^verbatim>\<open>update[i]\<close> and \<^verbatim>\<open>rank[i]\<close>.
\<close>

fun sl_descend :: "skiplist \<Rightarrow> 'w::len walk_cond \<Rightarrow> nat \<Rightarrow> ptr \<Rightarrow> 'w word \<Rightarrow> (ptr \<times> 'w word) list option" where
  "sl_descend s c 0 x acc = Some []"
| "sl_descend s c (Suc i) x acc =
     do { (x', acc') \<leftarrow> sl_walk s c i x acc;
          ups \<leftarrow> sl_descend s c i x' acc';
          Some (ups @ [(x', acc')]) }"

text \<open>The condition of the searches by score and object: the next node is before the one looked for.\<close>

definition before_cond :: "(int \<Rightarrow> bool) \<Rightarrow> double \<Rightarrow> slobj \<Rightarrow> 'w::len walk_cond" where
  "before_cond ok sc ob acc sp n =
     (if d_lt (score n) sc then Some True
      else if d_eq (score n) sc then
        (case nobj n of None \<Rightarrow> None | Some o1 \<Rightarrow> Some (ok (compareslObj o1 ob)))
      else Some False)"

subsection \<open>Insertion\<close>

text \<open>One round of the linking loop: the four assignments of the code in their order.\<close>

definition link_node :: "ptr \<Rightarrow> (ptr \<times> u32) list \<Rightarrow> skiplist \<Rightarrow> nat \<Rightarrow> skiplist option" where
  "link_node x ups s i =
     do { (u, ri) \<leftarrow> arr_get ups i;
          (_, r0) \<leftarrow> arr_get ups 0;
          lu \<leftarrow> lvl s u i;
          s1 \<leftarrow> set_forward s x i (forward lu);
          s2 \<leftarrow> set_forward s1 u i (Some x);
          lu2 \<leftarrow> lvl s2 u i;
          s3 \<leftarrow> set_span s2 x i (span lu2 - (r0 - ri));
          set_span s3 u i ((r0 - ri) + 1) }"

definition bump_span :: "(ptr \<times> u32) list \<Rightarrow> skiplist \<Rightarrow> nat \<Rightarrow> skiplist option" where
  "bump_span ups s i =
     do { (u, _) \<leftarrow> arr_get ups i; lu \<leftarrow> lvl s u i; set_span s u i (span lu + 1) }"

definition raise_level :: "skiplist \<Rightarrow> nat \<Rightarrow> (ptr \<times> u32) list \<Rightarrow> (skiplist \<times> (ptr \<times> u32) list) option" where
  "raise_level s lv ups =
     (if lv > level s then
        do { s1 \<leftarrow> fold_opt (\<lambda>t i. set_span t (header t) i (ucast (sl_length t))) s [level s..<lv];
             Some (s1\<lparr>level := lv\<rparr>, ups @ replicate (lv - level s) (header s, 0)) }
      else Some (s, ups))"

definition slInsert :: "skiplist \<Rightarrow> u64 list \<Rightarrow> double \<Rightarrow> slobj \<Rightarrow> (skiplist \<times> u64 list) option" where
  "slInsert s rs sc ob =
     do { ups \<leftarrow> sl_descend s (before_cond (\<lambda>c. c < 0) sc ob) (level s) (header s) 0;
          (lv, rs') \<leftarrow> slRandomLevel rs;
          (s1, ups1) \<leftarrow> raise_level s lv ups;
          let (x, s2) = slCreateNode s1 lv sc (Some ob);
          s3 \<leftarrow> fold_opt (link_node x ups1) s2 [0..<lv];
          s4 \<leftarrow> fold_opt (bump_span ups1) s3 [lv..<level s3];
          (u0, _) \<leftarrow> arr_get ups1 0;
          s5 \<leftarrow> set_backward s4 x (if u0 = header s4 then None else Some u0);
          l0 \<leftarrow> lvl s5 x 0;
          s6 \<leftarrow> (case forward l0 of Some f \<Rightarrow> set_backward s5 f (Some x) | None \<Rightarrow> Some (s5\<lparr>tail_p := Some x\<rparr>));
          Some (s6\<lparr>sl_length := sl_length s6 + 1\<rparr>, rs') }"

subsection \<open>Deletion\<close>

definition unlink_node :: "ptr \<Rightarrow> ptr list \<Rightarrow> skiplist \<Rightarrow> nat \<Rightarrow> skiplist option" where
  "unlink_node x upd s i =
     do { u \<leftarrow> arr_get upd i;
          lu \<leftarrow> lvl s u i;
          if forward lu = Some x then
            do { lx \<leftarrow> lvl s x i;
                 s1 \<leftarrow> set_span s u i (span lu + (span lx - 1));
                 set_forward s1 u i (forward lx) }
          else set_span s u i (span lu - 1) }"

text \<open>\<^verbatim>\<open>while (sl->level > 1 && sl->header->level[sl->level-1].forward == NULL) sl->level--\<close>\<close>

fun shrink_level :: "skiplist \<Rightarrow> nat \<Rightarrow> nat option" where
  "shrink_level s 0 = Some 0"
| "shrink_level s (Suc n) =
     (if Suc n > 1
      then do { l \<leftarrow> lvl s (header s) n; if forward l = None then shrink_level s n else Some (Suc n) }
      else Some (Suc n))"

definition slDeleteNode :: "skiplist \<Rightarrow> ptr \<Rightarrow> ptr list \<Rightarrow> skiplist option" where
  "slDeleteNode s x upd =
     do { s1 \<leftarrow> fold_opt (unlink_node x upd) s [0..<level s];
          l0 \<leftarrow> lvl s1 x 0;
          n \<leftarrow> heap s1 x;
          s2 \<leftarrow> (case forward l0 of Some f \<Rightarrow> set_backward s1 f (backward n)
                | None \<Rightarrow> Some (s1\<lparr>tail_p := backward n\<rparr>));
          lv \<leftarrow> shrink_level s2 (level s2);
          Some (s2\<lparr>level := lv, sl_length := sl_length s2 - 1\<rparr>) }"

definition slDelete :: "skiplist \<Rightarrow> double \<Rightarrow> slobj \<Rightarrow> (bool \<times> skiplist) option" where
  "slDelete s sc ob =
     do { ups \<leftarrow> sl_descend s (before_cond (\<lambda>c. c < 0) sc ob) (level s) (header s) (0 :: u64);
          (u0, _) \<leftarrow> arr_get ups 0;
          l0 \<leftarrow> lvl s u0 0;
          (case forward l0 of None \<Rightarrow> Some (False, s)
           | Some x \<Rightarrow>
               do { n \<leftarrow> heap s x;
                    same \<leftarrow> (if d_eq sc (score n) then map_option (\<lambda>o1. equalslObj o1 ob) (nobj n) else Some False);
                    if same then
                      do { s1 \<leftarrow> slDeleteNode s x (map fst ups);
                           s2 \<leftarrow> slFreeNode s1 x;
                           Some (True, s2) }
                    else Some (False, s) }) }"

text \<open>The condition of the walks by rank.\<close>

definition rank_cond :: "(u64 \<Rightarrow> bool) \<Rightarrow> 64 walk_cond" where
  "rank_cond ok acc sp n = Some (ok (acc + ucast sp))"

text \<open>The deletion loop of \<^verbatim>\<open>slDeleteByRank\<close>; the objects handed to the callback are collected in order.\<close>

partial_function (option) del_rank_loop ::
  "skiplist \<Rightarrow> ptr option \<Rightarrow> ptr list \<Rightarrow> u32 \<Rightarrow> u64 \<Rightarrow> u64 \<Rightarrow> slobj list \<Rightarrow> (u64 \<times> slobj list \<times> skiplist) option" where
  "del_rank_loop s x upd en traversed removed cbs =
     (case x of None \<Rightarrow> Some (removed, cbs, s)
      | Some p \<Rightarrow>
          if traversed \<le> ucast en then
            do { l \<leftarrow> lvl s p 0;
                 s1 \<leftarrow> slDeleteNode s p upd;
                 n \<leftarrow> heap s1 p;
                 ob \<leftarrow> nobj n;
                 s2 \<leftarrow> slFreeNode s1 p;
                 del_rank_loop s2 (forward l) upd en (traversed + 1) (removed + 1) (cbs @ [ob]) }
          else Some (removed, cbs, s))"

definition slDeleteByRank :: "skiplist \<Rightarrow> u32 \<Rightarrow> u32 \<Rightarrow> (u64 \<times> slobj list \<times> skiplist) option" where
  "slDeleteByRank s start en =
     do { ups \<leftarrow> sl_descend s (rank_cond (\<lambda>t. t < ucast start)) (level s) (header s) 0;
          (u0, traversed) \<leftarrow> arr_get ups 0;
          l0 \<leftarrow> lvl s u0 0;
          del_rank_loop s (forward l0) (map fst ups) en (traversed + 1) 0 [] }"

subsection \<open>Queries\<close>

text \<open>\<^verbatim>\<open>slGetRank\<close> tests at every level whether it already stands on the object.\<close>

fun get_rank_loop :: "skiplist \<Rightarrow> double \<Rightarrow> slobj \<Rightarrow> nat \<Rightarrow> ptr \<Rightarrow> u64 \<Rightarrow> u64 option" where
  "get_rank_loop s sc ob 0 x rank = Some 0"
| "get_rank_loop s sc ob (Suc i) x rank =
     do { (x', rank') \<leftarrow> sl_walk s (before_cond (\<lambda>c. c \<le> 0) sc ob) i x rank;
          n \<leftarrow> heap s x';
          if (case nobj n of None \<Rightarrow> False | Some o1 \<Rightarrow> equalslObj o1 ob) then Some rank'
          else get_rank_loop s sc ob i x' rank' }"

definition slGetRank :: "skiplist \<Rightarrow> double \<Rightarrow> slobj \<Rightarrow> u64 option" where
  "slGetRank s sc ob = get_rank_loop s sc ob (level s) (header s) 0"

fun node_rank_loop :: "skiplist \<Rightarrow> u64 \<Rightarrow> nat \<Rightarrow> ptr \<Rightarrow> u64 \<Rightarrow> ptr option option" where
  "node_rank_loop s rank 0 x traversed = Some None"
| "node_rank_loop s rank (Suc i) x traversed =
     do { (x', t') \<leftarrow> sl_walk s (rank_cond (\<lambda>t. t \<le> rank)) i x traversed;
          if t' = rank then Some (Some x') else node_rank_loop s rank i x' t' }"

definition slGetNodeByRank :: "skiplist \<Rightarrow> u64 \<Rightarrow> ptr option option" where
  "slGetNodeByRank s rank =
     (if rank = 0 \<or> rank > sl_length s then Some None else node_rank_loop s rank (level s) (header s) 0)"

definition slIsInRange :: "skiplist \<Rightarrow> double \<Rightarrow> double \<Rightarrow> bool option" where
  "slIsInRange s mn mx =
     (if d_lt mx mn then Some False
      else case tail_p s of None \<Rightarrow> Some False
           | Some t \<Rightarrow>
               do { n \<leftarrow> heap s t;
                    if d_lt (score n) mn then Some False
                    else do { l0 \<leftarrow> lvl s (header s) 0;
                              (case forward l0 of None \<Rightarrow> Some False
                               | Some f \<Rightarrow> do { n1 \<leftarrow> heap s f; Some (\<not> d_lt mx (score n1)) }) } })"

definition score_cond :: "(double \<Rightarrow> bool) \<Rightarrow> 64 walk_cond" where
  "score_cond ok acc sp n = Some (ok (score n))"

definition slFirstInRange :: "skiplist \<Rightarrow> double \<Rightarrow> double \<Rightarrow> ptr option option" where
  "slFirstInRange s mn mx =
     do { ir \<leftarrow> slIsInRange s mn mx;
          if \<not> ir then Some None
          else do { ups \<leftarrow> sl_descend s (score_cond (\<lambda>d. d_lt d mn)) (level s) (header s) 0;
                    (u0, _) \<leftarrow> arr_get ups 0;
                    l0 \<leftarrow> lvl s u0 0;
                    Some (forward l0) } }"

definition slLastInRange :: "skiplist \<Rightarrow> double \<Rightarrow> double \<Rightarrow> ptr option option" where
  "slLastInRange s mn mx =
     do { ir \<leftarrow> slIsInRange s mn mx;
          if \<not> ir then Some None
          else do { ups \<leftarrow> sl_descend s (score_cond (\<lambda>d. d_le d mx)) (level s) (header s) 0;
                    (u0, _) \<leftarrow> arr_get ups 0;
                    Some (Some u0) } }"

text \<open>\<^verbatim>\<open>slDump\<close>: the numbered scores and members it prints.\<close>

partial_function (option) slDump_loop ::
  "skiplist \<Rightarrow> ptr \<Rightarrow> nat \<Rightarrow> (nat \<times> double \<times> slobj) list \<Rightarrow> (nat \<times> double \<times> slobj) list option" where
  "slDump_loop s x i out =
     do { l \<leftarrow> lvl s x 0;
          (case forward l of None \<Rightarrow> Some out
           | Some f \<Rightarrow> do { n \<leftarrow> heap s f; ob \<leftarrow> nobj n; slDump_loop s f (i + 1) (out @ [(i + 1, score n, ob)]) }) }"

definition slDump :: "skiplist \<Rightarrow> (nat \<times> double \<times> slobj) list option" where
  "slDump s = slDump_loop s (header s) 0 []"

end
