(* ===== verification/Skiplist_Inv.thy ===== *)
theory Skiplist_Inv
  imports Skiplist
begin

text \<open>
  When a store represents a list of entries: the links and spans each node must hold at each of its
  levels, and the search lemma every operation rests on. A node at position \<open>k\<close> (the header is position 0)
  is linked at level \<open>i\<close> to the next node that has that level, and its span is the distance, or the number
  of nodes that follow when there is none.
\<close>

record entry =
  eptr :: ptr
  eh :: nat
  escore :: double
  eobj :: slobj

definition skipn :: "nat \<Rightarrow> entry list \<Rightarrow> nat" where
  "skipn i ys = length (takeWhile (\<lambda>e. eh e \<le> i) ys)"

definition link_of :: "nat \<Rightarrow> entry list \<Rightarrow> sl_level" where
  "link_of i ys =
     (if skipn i ys < length ys
      then \<lparr>forward = Some (eptr (ys ! skipn i ys)), span = of_nat (skipn i ys + 1)\<rparr>
      else \<lparr>forward = None, span = of_nat (length ys)\<rparr>)"

definition prev_of :: "entry list \<Rightarrow> ptr option" where
  "prev_of as = (if as = [] then None else Some (eptr (last as)))"

definition node_of :: "entry list \<Rightarrow> entry \<Rightarrow> entry list \<Rightarrow> sl_node" where
  "node_of as e bs =
     \<lparr>nobj = Some (eobj e), score = escore e, backward = prev_of as, levels = map (\<lambda>i. link_of i bs) [0..<eh e]\<rparr>"

definition header_ok :: "sl_node \<Rightarrow> nat \<Rightarrow> entry list \<Rightarrow> bool" where
  "header_ok hn lv xs \<longleftrightarrow>
     nobj hn = None \<and> score hn = 0 \<and> length (levels hn) = 32 \<and> (\<forall>i < lv. levels hn ! i = link_of i xs) \<and>
     (\<forall>i < 32. lv \<le> i \<longrightarrow> forward (levels hn ! i) = None)"

definition rep_core :: "skiplist \<Rightarrow> entry list \<Rightarrow> bool" where
  "rep_core s xs \<longleftrightarrow>
     distinct (header s # map eptr xs) \<and> (\<forall>p \<in> set (header s # map eptr xs). p < brk s) \<and>
     (\<exists>hn. heap s (header s) = Some hn \<and> header_ok hn (level s) xs) \<and>
     (\<forall>e \<in> set xs. 1 \<le> eh e \<and> eh e \<le> level s) \<and> 1 \<le> level s \<and> level s \<le> 32 \<and>
     (\<forall>as e bs. xs = as @ e # bs \<longrightarrow> heap s (eptr e) = Some (node_of as e bs)) \<and>
     tail_p s = prev_of xs \<and> sl_length s = of_nat (length xs)"

text \<open>The level of the list is not higher than it has to be.\<close>

definition level_tight :: "skiplist \<Rightarrow> entry list \<Rightarrow> bool" where
  "level_tight s xs \<longleftrightarrow> level s = 1 \<or> (\<exists>e \<in> set xs. eh e = level s)"

definition sl_rep :: "skiplist \<Rightarrow> entry list \<Rightarrow> bool" where
  "sl_rep s xs \<longleftrightarrow> rep_core s xs \<and> level_tight s xs"

subsection \<open>Links\<close>

lemma skipn_le: "skipn i ys \<le> length ys"
  by (simp add: skipn_def length_takeWhile_le)

lemma skipn_append:
  "skipn i (as @ bs) = (if \<forall>e \<in> set as. eh e \<le> i then length as + skipn i bs else skipn i as)"
  by (induction as) (auto simp: skipn_def)

lemma skipn_less: "\<exists>e \<in> set as. i < eh e \<Longrightarrow> skipn i as < length as"
  by (induction as) (auto simp: skipn_def)

lemma skipn_all: "skipn i ys = length ys \<longleftrightarrow> (\<forall>e \<in> set ys. eh e \<le> i)"
  by (induction ys) (auto simp: skipn_def)

lemma skipn_nth: "skipn i ys < length ys \<Longrightarrow> i < eh (ys ! skipn i ys)"
  using nth_length_takeWhile [of "\<lambda>e. eh e \<le> i" ys] by (simp add: skipn_def)

lemma skipn_before: "j < skipn i ys \<Longrightarrow> eh (ys ! j) \<le> i"
  unfolding skipn_def by (metis nth_mem set_takeWhileD takeWhile_nth)

text \<open>A taller node in between hides what follows; lower ones only add to the distance.\<close>

lemma link_of_hidden: "\<exists>e \<in> set as. i < eh e \<Longrightarrow> link_of i (as @ bs) = link_of i as"
  using skipn_less [of as i] by (auto simp: link_of_def skipn_append nth_append not_le)

lemma link_of_shift:
  "\<forall>e \<in> set as. eh e \<le> i \<Longrightarrow>
     link_of i (as @ bs) = (link_of i bs)\<lparr>span := span (link_of i bs) + of_nat (length as)\<rparr>"
  by (auto simp: link_of_def skipn_append nth_append)

lemma link_of_Cons_tall: "i < eh e \<Longrightarrow> link_of i (e # bs) = \<lparr>forward = Some (eptr e), span = 1\<rparr>"
  by (simp add: link_of_def skipn_def)

lemma link_of_Cons_low: "eh e \<le> i \<Longrightarrow> link_of i (e # bs) = (link_of i bs)\<lparr>span := span (link_of i bs) + 1\<rparr>"
  using link_of_shift [of "[e]" i bs] by simp

lemma link_of_none: "\<forall>e \<in> set ys. eh e \<le> i \<Longrightarrow> link_of i ys = \<lparr>forward = None, span = of_nat (length ys)\<rparr>"
  by (simp add: link_of_def skipn_all [THEN iffD2])

lemma forward_link_of_None: "forward (link_of i ys) = None \<longleftrightarrow> (\<forall>e \<in> set ys. eh e \<le> i)"
  using skipn_all [of i ys] skipn_le [of i ys] by (auto simp: link_of_def)

lemma forward_link_of_mem: "forward (link_of i ys) = Some p \<Longrightarrow> p \<in> eptr ` set ys"
  by (auto simp: link_of_def split: if_splits)

subsection \<open>Positions\<close>

definition pos_ptr :: "skiplist \<Rightarrow> entry list \<Rightarrow> nat \<Rightarrow> ptr" where
  "pos_ptr s xs k = (if k = 0 then header s else eptr (xs ! (k - 1)))"

definition pos_h :: "skiplist \<Rightarrow> entry list \<Rightarrow> nat \<Rightarrow> nat" where
  "pos_h s xs k = (if k = 0 then level s else eh (xs ! (k - 1)))"

lemma rep_header:
  assumes "rep_core s xs"
  obtains hn where "heap s (header s) = Some hn" "header_ok hn (level s) xs"
  using assms by (auto simp: rep_core_def)

lemma rep_node:
  assumes "rep_core s xs" "k < length xs"
  shows "heap s (eptr (xs ! k)) = Some (node_of (take k xs) (xs ! k) (drop (Suc k) xs))"
  using assms id_take_nth_drop [of k xs] by (auto simp: rep_core_def)

lemma lvl_pos:
  assumes rep: "rep_core s xs" and k: "k \<le> length xs" and i: "i < pos_h s xs k"
  shows "lvl s (pos_ptr s xs k) i = Some (link_of i (drop k xs))"
proof (cases k)
  case 0
  from rep obtain hn where "heap s (header s) = Some hn" "header_ok hn (level s) xs" by (rule rep_header)
  with 0 i rep show ?thesis
    by (auto simp: lvl_def pos_ptr_def pos_h_def header_ok_def rep_core_def)
next
  case (Suc j)
  with rep_node [OF rep, of j] k i show ?thesis
    by (simp add: lvl_def pos_ptr_def pos_h_def node_of_def)
qed

text \<open>
  \<open>upos i as\<close>: the position of the last node of the prefix \<open>as\<close> that has level \<open>i\<close>, 0 (the header) if none has.
\<close>

definition upos :: "nat \<Rightarrow> entry list \<Rightarrow> nat" where
  "upos i as = length as - length (takeWhile (\<lambda>e. eh e \<le> i) (rev as))"

lemma upos_le: "upos i as \<le> length as"
  by (simp add: upos_def)

lemma upos_Nil [simp]: "upos i [] = 0"
  by (simp add: upos_def)

lemma upos_snoc: "upos i (as @ [e]) = (if eh e \<le> i then upos i as else Suc (length as))"
  using length_takeWhile_le [of "\<lambda>e. eh e \<le> i" "rev as"] by (auto simp: upos_def)

lemma upos_tail: "e \<in> set (drop (upos i as) as) \<Longrightarrow> eh e \<le> i"
proof (induction as rule: rev_induct)
  case (snoc a as)
  then show ?case using upos_le [of i as] by (auto simp: upos_snoc split: if_splits)
qed simp

lemma upos_top: "0 < upos i as \<Longrightarrow> i < eh (as ! (upos i as - 1))"
proof (induction as rule: rev_induct)
  case (snoc a as)
  then show ?case
    using upos_le [of i as] by (auto simp: upos_snoc nth_append split: if_splits)
qed simp

lemma upos_unique:
  assumes "k \<le> length as" "\<And>e. e \<in> set (drop k as) \<Longrightarrow> eh e \<le> i" "0 < k \<Longrightarrow> i < eh (as ! (k - 1))"
  shows "upos i as = k"
  using assms
proof (induction as rule: rev_induct)
  case Nil
  then show ?case by simp
next
  case (snoc a as)
  show ?case
  proof (cases "k = Suc (length as)")
    case True
    with snoc.prems(3) show ?thesis by (simp add: upos_snoc nth_append)
  next
    case False
    with snoc.prems(1) have k: "k \<le> length as" by simp
    with snoc.prems(2) have "eh a \<le> i" "\<And>e. e \<in> set (drop k as) \<Longrightarrow> eh e \<le> i" by auto
    moreover have "0 < k \<Longrightarrow> i < eh (as ! (k - 1))"
      using snoc.prems(3) k by (simp add: nth_append split: if_splits)
    ultimately show ?thesis using snoc.IH [OF k] by (simp add: upos_snoc)
  qed
qed

lemma upos_mono: "upos (Suc i) as \<le> upos i as"
  by (induction as rule: rev_induct) (auto simp: upos_snoc upos_le le_SucI)

subsection \<open>The search\<close>

text \<open>
  A condition decides a cut at position \<open>K\<close> when, standing at any position, it goes on exactly to the nodes
  whose position is at most \<open>K\<close>.
\<close>

definition decides :: "'w::len walk_cond \<Rightarrow> entry list \<Rightarrow> nat \<Rightarrow> bool" where
  "decides c xs K \<longleftrightarrow>
     (\<forall>k j. k < j \<longrightarrow> j \<le> length xs \<longrightarrow>
        c (of_nat k) (of_nat (j - k)) (node_of (take (j - 1) xs) (xs ! (j - 1)) (drop j xs)) = Some (j \<le> K))"

text \<open>Sums of spans do not lose bits: either they are 32-bit sums, or no distance needs more than 32 bits.\<close>

definition span_fits :: "'w::len itself \<Rightarrow> nat \<Rightarrow> bool" where
  "span_fits t n \<longleftrightarrow> n < 2 ^ 32 \<or> LENGTH('w) \<le> 32"

lemma add_span:
  fixes acc :: "'w::len word"
  assumes "span_fits TYPE('w) n" "m \<le> n"
  shows "(of_nat k :: 'w word) + ucast (of_nat m :: u32) = of_nat (k + m)"
proof -
  have "ucast (of_nat m :: u32) = (of_nat m :: 'w word)"
  proof (cases "n < 2 ^ 32")
    case True
    then have "unat (of_nat m :: u32) = m" using assms(2) by (simp add: unat_of_nat)
    then show ?thesis by (metis unsigned_def of_nat_unat)
  next
    case False
    then have "LENGTH('w) \<le> LENGTH(32)" using assms(1) by (simp add: span_fits_def)
    then show ?thesis by (simp add: unsigned_of_nat word_of_nat_eq_iff take_bit_take_bit min_absorb1)
  qed
  then show ?thesis by simp
qed


lemma walk_step:
  assumes rep: "rep_core s xs" and k: "k \<le> length xs" "i < pos_h s xs k"
    and c: "decides c xs K" and fits: "span_fits TYPE('w::len) (length xs)"
  shows "sl_walk s (c :: 'w walk_cond) i (pos_ptr s xs k) (of_nat k) =
    (let j = Suc (k + skipn i (drop k xs)) in
     if j \<le> length xs \<and> j \<le> K then sl_walk s c i (pos_ptr s xs j) (of_nat j) else Some (pos_ptr s xs k, of_nat k))"
proof -
  let ?m = "skipn i (drop k xs)" let ?j = "Suc (k + ?m)"
  note lv = lvl_pos [OF rep k]
  show ?thesis
  proof (cases "?m < length (drop k xs)")
    case True
    then have j: "?j \<le> length xs" by simp
    have f: "link_of i (drop k xs) = \<lparr>forward = Some (eptr (xs ! (k + ?m))), span = of_nat (?m + 1)\<rparr>"
      using True by (simp add: link_of_def)
    have nd: "heap s (eptr (xs ! (k + ?m))) = Some (node_of (take (k + ?m) xs) (xs ! (k + ?m)) (drop ?j xs))"
      using rep_node [OF rep, of "k + ?m"] j by simp
    have cc: "c (of_nat k) (of_nat (?m + 1)) (node_of (take (k + ?m) xs) (xs ! (k + ?m)) (drop ?j xs)) = Some (?j \<le> K)"
      using c [unfolded decides_def, rule_format, of k ?j] j by (simp add: Suc_diff_le)
    have sum: "(of_nat k :: 'w word) + ucast (of_nat (?m + 1) :: u32) = of_nat ?j"
      using add_span [OF fits, of "?m + 1" k] j by simp
    have pj: "pos_ptr s xs ?j = eptr (xs ! (k + ?m))" by (simp add: pos_ptr_def)
    have "sl_walk s c i (pos_ptr s xs k) (of_nat k) =
        (if ?j \<le> K then sl_walk s c i (pos_ptr s xs ?j) (of_nat k + ucast (of_nat (?m + 1) :: u32))
         else Some (pos_ptr s xs k, of_nat k))"
      unfolding pj by (subst sl_walk.simps) (simp only: lv f nd cc bind.bind_lunit sl_level.simps option.case)
    then show ?thesis unfolding sum using j by (simp add: Let_def)
  next
    case False
    then have f: "link_of i (drop k xs) = \<lparr>forward = None, span = of_nat (length (drop k xs))\<rparr>" by (simp add: link_of_def)
    have "\<not> ?j \<le> length xs" using False by simp
    then show ?thesis by (subst sl_walk.simps) (simp add: lv f Let_def)
  qed
qed

lemma walk_spec:
  assumes rep: "rep_core s xs" and c: "decides c xs K" and fits: "span_fits TYPE('w::len) (length xs)"
    and K: "K \<le> length xs" and k: "k \<le> K" "i < pos_h s xs k"
  shows "sl_walk s (c :: 'w walk_cond) i (pos_ptr s xs k) (of_nat k) =
    Some (pos_ptr s xs (upos i (take K xs)), of_nat (upos i (take K xs)))"
  using k
proof (induction "K - k" arbitrary: k rule: less_induct)
  case less
  let ?m = "skipn i (drop k xs)" let ?j = "Suc (k + ?m)"
  have kl: "k \<le> length xs" using less.prems(1) K by simp
  note step = walk_step [OF rep kl less.prems(2) c fits]
  show ?case
  proof (cases "?j \<le> K")
    case True
    then have "?j \<le> length xs" "?m < length (drop k xs)" using K by auto
    then have "i < pos_h s xs ?j" using skipn_nth [of i "drop k xs"] by (simp add: pos_h_def)
    then show ?thesis
      using step True K less.hyps [of ?j] less.prems(1) by (simp add: Let_def)
  next
    case False
    have "upos i (take K xs) = k"
    proof (rule upos_unique)
      show "k \<le> length (take K xs)" using less.prems(1) K by simp
      show "eh e \<le> i" if e: "e \<in> set (drop k (take K xs))" for e
      proof -
        from e obtain q where q: "q < length (drop k (take K xs))" "e = drop k (take K xs) ! q"
          by (auto simp: in_set_conv_nth)
        then have "q < ?m" "e = drop k xs ! q" using False K less.prems(1) by auto
        then show ?thesis using skipn_before by blast
      qed
      show "i < eh (take K xs ! (k - 1))" if "0 < k" using that less.prems by (simp add: pos_h_def)
    qed
    then show ?thesis using step False by (simp add: Let_def)
  qed
qed

definition upd_list :: "skiplist \<Rightarrow> entry list \<Rightarrow> nat \<Rightarrow> nat \<Rightarrow> (ptr \<times> 'w::len word) list" where
  "upd_list s xs K n = map (\<lambda>i. (pos_ptr s xs (upos i (take K xs)), of_nat (upos i (take K xs)))) [0..<n]"

lemma pos_h_upos:
  assumes "rep_core s xs" "K \<le> length xs" "i < level s"
  shows "i < pos_h s xs (upos i (take K xs))"
  using assms upos_top [of i "take K xs"] upos_le [of i "take K xs"] by (auto simp: pos_h_def)

lemma descend_spec:
  assumes rep: "rep_core s xs" and c: "decides c xs K" and fits: "span_fits TYPE('w::len) (length xs)"
    and K: "K \<le> length xs"
  shows "n \<le> level s \<Longrightarrow> k \<le> K \<Longrightarrow> (\<And>i. i < n \<Longrightarrow> i < pos_h s xs k) \<Longrightarrow>
    sl_descend s (c :: 'w walk_cond) n (pos_ptr s xs k) (of_nat k) = Some (upd_list s xs K n)"
proof (induction n arbitrary: k)
  case 0
  then show ?case by (simp add: upd_list_def)
next
  case (Suc n)
  let ?k = "upos n (take K xs)"
  have "n < pos_h s xs ?k" using pos_h_upos [OF rep K] Suc.prems(1) by simp
  moreover have "?k \<le> K" using upos_le [of n "take K xs"] K by simp
  ultimately have "sl_descend s c n (pos_ptr s xs ?k) (of_nat ?k) = Some (upd_list s xs K n)"
    using Suc.IH [of ?k] Suc.prems(1) by simp
  then show ?case
    using walk_spec [OF rep c fits K Suc.prems(2), of n] Suc.prems(3) by (simp add: upd_list_def)
qed

text \<open>The search from the header, as every operation starts it.\<close>

lemma search_spec:
  assumes "rep_core s xs" "decides c xs K" "span_fits TYPE('w::len) (length xs)" "K \<le> length xs"
  shows "sl_descend s (c :: 'w walk_cond) (level s) (header s) 0 = Some (upd_list s xs K (level s))"
  using descend_spec [OF assms, of "level s" 0] by (simp add: pos_h_def pos_ptr_def)

lemma upos_0: "rep_core s xs \<Longrightarrow> K \<le> length xs \<Longrightarrow> upos 0 (take K xs) = K"
proof (rule upos_unique)
  assume rep: "rep_core s xs" and K: "K \<le> length xs"
  then have "1 \<le> eh (xs ! (K - 1))" if "0 < K" using that by (auto simp: rep_core_def)
  then show "0 < eh (take K xs ! (K - 1))" if "0 < K" using that by simp
qed simp_all

lemma upd_list_0:
  assumes "rep_core s xs" "K \<le> length xs"
  shows "arr_get (upd_list s xs K (level s)) 0 = Some (pos_ptr s xs K, of_nat K)"
  using assms upos_0 [OF assms] by (auto simp: upd_list_def rep_core_def)

lemma length_upd_list [simp]: "length (upd_list s xs K n) = n"
  by (simp add: upd_list_def)

lemma arr_get_upd_list:
  "i < n \<Longrightarrow> arr_get (upd_list s xs K n) i =
     Some (pos_ptr s xs (upos i (take K xs)), of_nat (upos i (take K xs)))"
  by (simp add: upd_list_def)

end
