(* ===== verification/Skiplist_Insert.thy ===== *)
theory Skiplist_Insert
  imports Skiplist_Inv
begin

text \<open>
  Insertion keeps the representation. The loops that rewrite the levels \<open>a\<close> to \<open>b\<close> of the nodes are described
  by the state they lead to (\<open>slots\<close>: each node's levels mapped by a function of level and address); the
  new links and spans are then those of the list with the new entry in it.
\<close>

subsection \<open>Loops over the levels\<close>

definition slots :: "skiplist \<Rightarrow> nat \<Rightarrow> nat \<Rightarrow> (nat \<Rightarrow> ptr \<Rightarrow> sl_level \<Rightarrow> sl_level) \<Rightarrow> skiplist" where
  "slots s a b G =
     s\<lparr>heap := (\<lambda>p. map_option (\<lambda>n. n\<lparr>levels := map (\<lambda>i. if a \<le> i \<and> i < b then G i p (levels n ! i) else levels n ! i)
                                                  [0..<length (levels n)]\<rparr>) (heap s p))\<rparr>"

lemma slots_fields [simp]:
  "header (slots s a b G) = header s" "brk (slots s a b G) = brk s" "tail_p (slots s a b G) = tail_p s"
  "sl_length (slots s a b G) = sl_length s" "level (slots s a b G) = level s"
  by (simp_all add: slots_def)

lemma slots_dom [simp]: "dom (heap (slots s a b G)) = dom (heap s)"
  by (auto simp: slots_def dom_def)

lemma slots_empty: "slots s a a G = s"
proof -
  have "map (\<lambda>i. if a \<le> i \<and> i < a then G i p (ls ! i) else ls ! i) [0..<length ls] = ls" for p and ls :: "sl_level list"
    by (rule nth_equalityI) auto
  then show ?thesis by (simp add: slots_def option.map_ident)
qed

lemma slots_cong:
  assumes "\<And>i p l. a \<le> i \<Longrightarrow> i < b \<Longrightarrow> lvl s p i = Some l \<Longrightarrow> G i p l = G' i p l"
  shows "slots s a b G = slots s a b G'"
proof -
  have "heap (slots s a b G) p = heap (slots s a b G') p" for p
  proof (cases "heap s p")
    case None
    then show ?thesis by (simp add: slots_def)
  next
    case (Some n)
    then have "i < length (levels n) \<Longrightarrow> lvl s p i = Some (levels n ! i)" for i by (simp add: lvl_def)
    with Some assms show ?thesis by (simp add: slots_def)
  qed
  then show ?thesis by (simp add: slots_def fun_eq_iff)
qed

lemma slots_untouched:
  assumes "\<And>i l. a \<le> i \<Longrightarrow> i < b \<Longrightarrow> G i p l = l"
  shows "heap (slots s a b G) p = heap s p"
proof (cases "heap s p")
  case (Some n)
  have "map (\<lambda>i. if a \<le> i \<and> i < b then G i p (levels n ! i) else levels n ! i) [0..<length (levels n)] = levels n"
    using assms by (intro nth_equalityI) auto
  with Some show ?thesis by (simp add: slots_def)
qed (simp add: slots_def)

lemma heap_slots:
  "heap s p = Some n \<Longrightarrow> heap (slots s a b G) p =
     Some (n\<lparr>levels := map (\<lambda>i. if a \<le> i \<and> i < b then G i p (levels n ! i) else levels n ! i) [0..<length (levels n)]\<rparr>)"
  by (simp add: slots_def)

lemma slots_Suc: "slots s a i G = slots s a (Suc i) (G(i := \<lambda>p l. l))"
proof -
  have "map (\<lambda>j. if a \<le> j \<and> j < i then G j p (ls ! j) else ls ! j) [0..<length ls] =
      map (\<lambda>j. if a \<le> j \<and> j < Suc i then (G(i := \<lambda>p l. l)) j p (ls ! j) else ls ! j) [0..<length ls]"
    for p and ls :: "sl_level list"
    by (rule nth_equalityI) (auto simp: less_Suc_eq)
  then show ?thesis unfolding slots_def by presburger
qed

lemma lvl_slots: "lvl (slots s a b G) p i = map_option (\<lambda>l. if a \<le> i \<and> i < b then G i p l else l) (lvl s p i)"
  by (cases "heap s p") (auto simp: slots_def lvl_def arr_get_def)

lemma upd_slots:
  assumes l: "lvl s u i = Some l" and i: "a \<le> i" "i < b"
  shows "upd_lvl (slots s a b G) u i g = Some (slots s a b (G(i := (G i)(u := \<lambda>l. g (G i u l)))))"
proof -
  from l obtain n where n: "heap s u = Some n" "i < length (levels n)"
    by (auto simp: lvl_def split: option.splits)
  let ?n = "n\<lparr>levels := map (\<lambda>j. if a \<le> j \<and> j < b then G j u (levels n ! j) else levels n ! j) [0..<length (levels n)]\<rparr>"
  have h: "heap (slots s a b G) u = Some ?n" using n by (simp add: slots_def)
  have "(heap (slots s a b G))(u \<mapsto> ?n\<lparr>levels := (levels ?n)[i := g (levels ?n ! i)]\<rparr>) =
      heap (slots s a b (G(i := (G i)(u := \<lambda>l. g (G i u l)))))" (is "?L = ?R")
  proof
    fix p
    show "?L p = ?R p"
    proof (cases "p = u")
      case True
      have "(levels ?n)[i := g (levels ?n ! i)] =
          map (\<lambda>j. if a \<le> j \<and> j < b then (G(i := (G i)(u := \<lambda>l. g (G i u l)))) j u (levels n ! j) else levels n ! j)
            [0..<length (levels n)]"
        using i n by (intro nth_equalityI) (auto simp: nth_list_update)
      with True n show ?thesis by (simp add: slots_def)
    next
      case False
      then show ?thesis by (cases "heap s p") (auto simp: slots_def)
    qed
  qed
  with h n show ?thesis by (simp add: upd_lvl_def slots_def)
qed

lemma fold_slots:
  assumes "\<And>i. a \<le> i \<Longrightarrow> i < b \<Longrightarrow> f (slots s a i G) i = Some (slots s a (Suc i) G)" and "a \<le> b"
  shows "fold_opt f s [a..<b] = Some (slots s a b G)"
  using assms
proof (induction b)
  case 0
  then show ?case by (simp add: slots_empty)
next
  case (Suc b)
  show ?case
  proof (cases "a = Suc b")
    case True
    then show ?thesis by (simp add: slots_empty)
  next
    case False
    then have "a \<le> b" using Suc.prems(2) by simp
    with Suc have "fold_opt f s [a..<b] = Some (slots s a b G)" by simp
    then show ?thesis using Suc.prems \<open>a \<le> b\<close> by (simp add: fold_opt_append)
  qed
qed

subsection \<open>Addresses of positions\<close>

lemma pos_ptr_inj:
  assumes "rep_core s xs" "j \<le> length xs" "k \<le> length xs" "pos_ptr s xs j = pos_ptr s xs k"
  shows "j = k"
proof -
  have "(header s # map eptr xs) ! j = (header s # map eptr xs) ! k"
    using assms(2-4) by (cases j; cases k) (auto simp: pos_ptr_def)
  moreover have "distinct (header s # map eptr xs)" using assms(1) by (simp add: rep_core_def)
  ultimately show ?thesis using assms(2,3) nth_eq_iff_index_eq [of "header s # map eptr xs" j k] by simp
qed

lemma pos_ptr_less:
  assumes "rep_core s xs" "k \<le> length xs"
  shows "pos_ptr s xs k < brk s"
  using assms by (auto simp: rep_core_def pos_ptr_def)

text \<open>Which positions the loops touch: at level \<open>i\<close>, exactly the last one that has the level.\<close>

lemma upos_hidden:
  assumes "k \<le> length as" "k \<noteq> upos i as" "0 < k \<longrightarrow> i < eh (as ! (k - 1))"
  shows "\<exists>e \<in> set (drop k as). i < eh e"
proof (rule ccontr)
  assume "\<not> (\<exists>e \<in> set (drop k as). i < eh e)"
  then have "\<And>e. e \<in> set (drop k as) \<Longrightarrow> eh e \<le> i" by auto
  from upos_unique [OF assms(1) this] assms(2,3) show False by simp
qed

lemma upos_low: "k = upos i as \<Longrightarrow> \<forall>e \<in> set (drop k as). eh e \<le> i"
  using upos_tail by blast

lemma of_nat_diff_sub: "k \<le> n \<Longrightarrow> (of_nat n :: 'a::len word) - of_nat k = of_nat (n - k)"
  by (simp add: of_nat_diff)

lemma link_after_insert:
  fixes as bs :: "entry list"
  assumes k: "k \<le> length as" "0 < k \<longrightarrow> i < eh (as ! (k - 1))"
  shows "link_of i (drop k as @ e # bs) =
    (if k = upos i as then
       if i < eh e then \<lparr>forward = Some (eptr e), span = (of_nat (length as) - of_nat k) + 1\<rparr>
       else (link_of i (drop k as @ bs))\<lparr>span := span (link_of i (drop k as @ bs)) + 1\<rparr>
     else link_of i (drop k as @ bs))"
proof (cases "k = upos i as")
  case True
  then show ?thesis
    using link_of_shift [OF upos_low [OF True]] k(1)
    by (simp add: link_of_Cons_tall link_of_Cons_low of_nat_diff)
next
  case False
  then show ?thesis
    using link_of_hidden [OF upos_hidden [OF k(1) False k(2)]] by simp
qed

lemma link_split:
  assumes "k = upos i as" "k \<le> length as"
  shows "\<lparr>forward = forward (link_of i (drop k as @ bs)),
          span = span (link_of i (drop k as @ bs)) - (of_nat (length as) - of_nat k)\<rparr> = link_of i bs"
  using link_of_shift [OF upos_low [OF assms(1)], of bs] assms(2) by (simp add: of_nat_diff)


subsection \<open>Raising the level of the list\<close>

lemma ucast_of_nat_64_32: "ucast (of_nat n :: u64) = (of_nat n :: u32)"
  by (simp add: unsigned_of_nat word_of_nat_eq_iff take_bit_take_bit)

lemma upos_high: "\<forall>e \<in> set as. eh e \<le> i \<Longrightarrow> upos i as = 0"
  by (rule upos_unique) auto

text \<open>Above the level of the list the search has found the header at rank zero.\<close>

lemma upd_list_raised:
  assumes rep: "rep_core s xs" and lv: "level s \<le> lv" and s1: "header s1 = header s"
  shows "upd_list s1 xs K lv = upd_list s xs K (level s) @ replicate (lv - level s) (header s, 0 :: u32)"
proof -
  have "\<forall>e \<in> set xs. eh e \<le> level s" using rep by (simp add: rep_core_def)
  then have "upos i (take K xs) = 0" if "level s \<le> i" for i
    using that by (intro upos_high) (meson in_set_takeD order_trans)
  then have "map (\<lambda>i. (pos_ptr s1 xs (upos i (take K xs)), of_nat (upos i (take K xs)) :: u32)) [level s..<lv] =
      replicate (lv - level s) (header s, 0)"
    using s1 by (intro nth_equalityI) (simp_all add: pos_ptr_def)
  moreover have "[0..<lv] = [0..<level s] @ [level s..<lv]" using lv upt_add_eq_append [of 0 "level s" "lv - level s"] by simp
  moreover have "pos_ptr s1 xs k = pos_ptr s xs k" for k using s1 by (simp add: pos_ptr_def)
  ultimately show ?thesis by (simp add: upd_list_def)
qed

lemma raise_level_spec:
  assumes rep: "rep_core s xs" and lv: "1 \<le> lv" "lv \<le> 32" and K: "K \<le> length xs"
  shows "\<exists>s1. raise_level s lv (upd_list s xs K (level s)) = Some (s1, upd_list s1 xs K (level s1)) \<and>
    rep_core s1 xs \<and> level s1 = max lv (level s) \<and> header s1 = header s \<and> brk s1 = brk s \<and>
    dom (heap s1) = dom (heap s)"
proof (cases "lv > level s")
  case False
  then show ?thesis using rep by (auto simp: raise_level_def max_def)
next
  case True
  obtain hn where hn: "heap s (header s) = Some hn" "header_ok hn (level s) xs" using rep by (rule rep_header)
  let ?G = "\<lambda>i p l. if p = header s then l\<lparr>span := ucast (sl_length s)\<rparr> else l"
  let ?s = "slots s (level s) lv ?G" let ?s1 = "?s\<lparr>level := lv\<rparr>"
  have "set_span (slots s (level s) i ?G) (header (slots s (level s) i ?G)) i (ucast (sl_length (slots s (level s) i ?G))) =
      Some (slots s (level s) (Suc i) ?G)" if i: "level s \<le> i" "i < lv" for i
  proof -
    have l: "lvl s (header s) i = Some (levels hn ! i)" using hn lv i by (simp add: lvl_def header_ok_def)
    show ?thesis
      unfolding set_span_def slots_fields
      using upd_slots [OF l i(1) lessI, of "?G(i := \<lambda>p l. l)"]
      by (subst slots_Suc) (auto intro: slots_cong)
  qed
  then have "fold_opt (\<lambda>t i. set_span t (header t) i (ucast (sl_length t))) s [level s..<lv] = Some ?s"
    using True by (intro fold_slots) auto
  moreover have hdr: "header_ok (hn\<lparr>levels := map (\<lambda>i. if level s \<le> i \<and> i < lv then ?G i (header s) (levels hn ! i) else levels hn ! i) [0..<32]\<rparr>) lv xs"
  proof -
    have "link_of i xs = \<lparr>forward = None, span = of_nat (length xs)\<rparr>" if "level s \<le> i" for i
      using rep that by (intro link_of_none) (auto simp: rep_core_def)
    moreover have "sl_length s = of_nat (length xs)" using rep by (simp add: rep_core_def)
    ultimately show ?thesis
      using hn(2) lv True by (auto simp: header_ok_def ucast_of_nat_64_32 not_le)
  qed
  have nodes: "heap ?s p = heap s p" if "p \<noteq> header s" for p
    using that by (intro slots_untouched) simp
  have hs: "heap ?s (header s) = Some (hn\<lparr>levels := map (\<lambda>i. if level s \<le> i \<and> i < lv then ?G i (header s) (levels hn ! i) else levels hn ! i) [0..<32]\<rparr>)"
    using hn by (simp add: slots_def header_ok_def)
  have "rep_core ?s1 xs"
    using rep hdr hs nodes True lv unfolding rep_core_def by (fastforce simp: image_iff)
  moreover have "upd_list ?s1 xs K lv = upd_list s xs K (level s) @ replicate (lv - level s) (header s, 0 :: u32)"
    using True by (intro upd_list_raised [OF rep]) simp_all
  ultimately show ?thesis using True by (simp add: raise_level_def max_def)
qed


subsection \<open>Linking the new node\<close>

lemma upd_ptr_neq_brk:
  assumes "rep_core s (as @ bs)"
  shows "pos_ptr s (as @ bs) (upos i as) \<noteq> brk s"
  using pos_ptr_less [OF assms, of "upos i as"] upos_le [of i as] by simp

lemma lvl_upd:
  assumes rep: "rep_core s (as @ bs)" and i: "i < level s"
  shows "lvl s (pos_ptr s (as @ bs) (upos i as)) i = Some (link_of i (drop (upos i as) as @ bs))"
  using lvl_pos [OF rep, of "upos i as" i] pos_h_upos [OF rep, of "length as" i] upos_le [of i as] i by simp

definition linkG :: "skiplist \<Rightarrow> entry list \<Rightarrow> entry list \<Rightarrow> ptr \<Rightarrow> nat \<Rightarrow> ptr \<Rightarrow> sl_level \<Rightarrow> sl_level" where
  "linkG s as bs x i p l =
     (if p = x then link_of i bs
      else if p = pos_ptr s (as @ bs) (upos i as)
      then \<lparr>forward = Some x, span = (of_nat (length as) - of_nat (upos i as)) + 1\<rparr> else l)"

lemma link_loop:
  assumes rep: "rep_core s (as @ bs)" and lv: "lv \<le> level s"
    and c: "slCreateNode s lv sc (Some ob) = (x, s2)"
  shows "fold_opt (link_node x (upd_list s (as @ bs) (length as) (level s))) s2 [0..<lv] =
    Some (slots s2 0 lv (linkG s as bs x))"
proof (rule fold_slots)
  fix i assume "0 \<le> i" and i: "i < lv"
  let ?ups = "upd_list s (as @ bs) (length as) (level s) :: (ptr \<times> u32) list"
  let ?u = "pos_ptr s (as @ bs) (upos i as)" and ?r = "of_nat (upos i as) :: u32"
  let ?L = "link_of i (drop (upos i as) as @ bs)"
  from c have x: "x = brk s" by (simp add: slCreateNode_def)
  have ux: "?u \<noteq> x" using upd_ptr_neq_brk [OF rep] x by simp
  have g0: "arr_get ?ups 0 = Some (pos_ptr s (as @ bs) (length as), of_nat (length as))"
    using upd_list_0 [OF rep, of "length as"] by simp
  have gi: "arr_get ?ups i = Some (?u, ?r)" using arr_get_upd_list [of i "level s" s "as @ bs" "length as"] i lv by simp
  have lx: "lvl s2 x i = Some \<lparr>forward = None, span = 0\<rparr>"
    using c i by (auto simp: slCreateNode_def lvl_def arr_get_def)
  have lu: "lvl s2 ?u i = Some ?L"
    using c lvl_upd [OF rep, of i] i lv ux x by (auto simp: slCreateNode_def lvl_def)
  have split: "l\<lparr>forward := forward ?L, span := span ?L - (of_nat (length as) - ?r)\<rparr> = link_of i bs" for l
    using link_split [OF refl, of i as bs] by (cases l) (simp add: upos_le)
  note ups = upd_slots [OF lx _ lessI, of 0] upd_slots [OF lu _ lessI, of 0]
  show "link_node x ?ups (slots s2 0 i (linkG s as bs x)) i = Some (slots s2 0 (Suc i) (linkG s as bs x))"
    unfolding link_node_def set_forward_def set_span_def
    using ux lu split
    by (subst (1 2) slots_Suc) (auto simp: g0 gi lvl_slots ups linkG_def fun_upd_def intro!: slots_cong)
qed simp

definition bumpG :: "skiplist \<Rightarrow> entry list \<Rightarrow> entry list \<Rightarrow> nat \<Rightarrow> ptr \<Rightarrow> sl_level \<Rightarrow> sl_level" where
  "bumpG s as bs i p l = (if p = pos_ptr s (as @ bs) (upos i as) then l\<lparr>span := span l + 1\<rparr> else l)"

lemma bump_loop:
  assumes rep: "rep_core s (as @ bs)"
    and slot: "\<And>i. lv \<le> i \<Longrightarrow> i < level s \<Longrightarrow> lvl t (pos_ptr s (as @ bs) (upos i as)) i \<noteq> None"
    and lv: "lv \<le> level s"
  shows "fold_opt (bump_span (upd_list s (as @ bs) (length as) (level s))) t [lv..<level s] =
    Some (slots t lv (level s) (bumpG s as bs))"
proof (rule fold_slots)
  fix i assume i: "lv \<le> i" "i < level s"
  let ?u = "pos_ptr s (as @ bs) (upos i as)"
  from slot [OF i] obtain l where l: "lvl t ?u i = Some l" by blast
  have gi: "arr_get (upd_list s (as @ bs) (length as) (level s)) i = Some (?u, of_nat (upos i as) :: u32)"
    using arr_get_upd_list [of i "level s" s "as @ bs" "length as"] i by simp
  show "bump_span (upd_list s (as @ bs) (length as) (level s)) (slots t lv i (bumpG s as bs)) i =
      Some (slots t lv (Suc i) (bumpG s as bs))"
    unfolding bump_span_def set_span_def
    using l i by (subst (1 2) slots_Suc)
      (auto simp: gi lvl_slots upd_slots [OF l i(1) lessI] bumpG_def fun_upd_def intro!: slots_cong)
qed (rule lv)


subsection \<open>The list after the insertion\<close>

lemma slots_slots:
  assumes "a \<le> b"
  shows "slots (slots s 0 a G) a b H = slots s 0 b (\<lambda>i. if i < a then G i else H i)"
proof -
  have "heap (slots (slots s 0 a G) a b H) p = heap (slots s 0 b (\<lambda>i. if i < a then G i else H i)) p" for p
    using assms by (cases "heap s p") (auto simp: slots_def)
  then show ?thesis by (simp add: slots_def fun_eq_iff)
qed

definition insG :: "skiplist \<Rightarrow> entry list \<Rightarrow> entry list \<Rightarrow> entry \<Rightarrow> nat \<Rightarrow> ptr \<Rightarrow> sl_level \<Rightarrow> sl_level" where
  "insG s as bs e i = (if i < eh e then linkG s as bs (eptr e) i else bumpG s as bs i)"

lemma insG_before:
  assumes rep: "rep_core s (as @ bs)" and k: "k \<le> length as" and i: "i < pos_h s (as @ bs) k" and x: "eptr e = brk s"
  shows "insG s as bs e i (pos_ptr s (as @ bs) k) (link_of i (drop k as @ bs)) = link_of i (drop k as @ e # bs)"
proof -
  have "pos_ptr s (as @ bs) k = pos_ptr s (as @ bs) (upos i as) \<longleftrightarrow> k = upos i as"
    using pos_ptr_inj [OF rep, of k "upos i as"] k upos_le [of i as] by auto
  moreover have "pos_ptr s (as @ bs) k \<noteq> eptr e" using pos_ptr_less [OF rep, of k] k x by simp
  moreover have "0 < k \<longrightarrow> i < eh (as ! (k - 1))" using i k by (auto simp: pos_h_def nth_append split: if_splits)
  ultimately show ?thesis
    using link_after_insert [of k as i e bs] k by (cases "k = upos i as") (auto simp: insG_def linkG_def bumpG_def)
qed

lemma insG_after:
  assumes rep: "rep_core s (as @ bs)" and k: "length as < k" "k \<le> length (as @ bs)" and x: "eptr e = brk s"
  shows "insG s as bs e i (pos_ptr s (as @ bs) k) l = l"
proof -
  have "pos_ptr s (as @ bs) k \<noteq> pos_ptr s (as @ bs) (upos i as)"
    using pos_ptr_inj [OF rep, of k "upos i as"] k upos_le [of i as] by auto
  moreover have "pos_ptr s (as @ bs) k \<noteq> eptr e" using pos_ptr_less [OF rep, of k] k x by simp
  ultimately show ?thesis by (simp add: insG_def linkG_def bumpG_def)
qed

lemma rep_coreI:
  assumes "distinct (header s # map eptr xs)" "\<forall>p \<in> set (header s # map eptr xs). p < brk s"
    "heap s (header s) = Some hn" "header_ok hn (level s) xs"
    "\<forall>e \<in> set xs. 1 \<le> eh e \<and> eh e \<le> level s" "1 \<le> level s" "level s \<le> 32"
    "\<And>k. k < length xs \<Longrightarrow> heap s (eptr (xs ! k)) = Some (node_of (take k xs) (xs ! k) (drop (Suc k) xs))"
    "tail_p s = prev_of xs" "sl_length s = of_nat (length xs)"
  shows "rep_core s xs"
proof -
  have "heap s (eptr e) = Some (node_of as e bs)" if "xs = as @ e # bs" for as e bs
    using assms(8) [of "length as"] that by simp
  with assms show ?thesis by (auto simp: rep_core_def)
qed

text \<open>The store after both loops: the nodes before the new one have the links of the longer list.\<close>

definition ins_state :: "skiplist \<Rightarrow> entry list \<Rightarrow> entry list \<Rightarrow> entry \<Rightarrow> skiplist" where
  "ins_state s as bs e =
     slots (snd (slCreateNode s (eh e) (escore e) (Some (eobj e)))) 0 (level s) (insG s as bs e)"

lemma ins_state_new:
  assumes "eh e \<le> level s" "eptr e = brk s"
  shows "heap (ins_state s as bs e) (eptr e) = Some (node_of as e bs\<lparr>backward := None\<rparr>)"
  using assms by (auto simp: ins_state_def slCreateNode_def slots_def node_of_def insG_def linkG_def)

lemma ins_state_before:
  assumes rep: "rep_core s (as @ bs)" and k: "k < length as" and x: "eptr e = brk s"
  shows "heap (ins_state s as bs e) (eptr (as ! k)) = Some (node_of (take k as) (as ! k) (drop (Suc k) as @ e # bs))"
proof -
  let ?a = "as ! k"
  have p: "eptr ?a = pos_ptr s (as @ bs) (Suc k)" using k by (simp add: pos_ptr_def nth_append)
  have "eptr ?a \<noteq> brk s" using pos_ptr_less [OF rep, of "Suc k"] p k by simp
  then have h: "heap (snd (slCreateNode s (eh e) (escore e) (Some (eobj e)))) (eptr ?a) =
      Some (node_of (take k as) ?a (drop (Suc k) as @ bs))"
    using rep_node [OF rep, of k] k by (simp add: slCreateNode_def nth_append)
  have lev: "eh ?a \<le> level s" using rep k by (simp add: rep_core_def)
  have "insG s as bs e i (eptr ?a) (link_of i (drop (Suc k) as @ bs)) = link_of i (drop (Suc k) as @ e # bs)"
    if "i < eh ?a" for i
    using insG_before [OF rep, of "Suc k" i e] that k x by (simp add: p [symmetric] pos_h_def nth_append)
  then show ?thesis
    using heap_slots [OF h] lev unfolding ins_state_def by (simp add: node_of_def)
qed

lemma ins_state_after:
  assumes rep: "rep_core s (as @ bs)" and k: "k < length bs" and x: "eptr e = brk s"
  shows "heap (ins_state s as bs e) (eptr (bs ! k)) = Some (node_of (as @ take k bs) (bs ! k) (drop (Suc k) bs))"
proof -
  have p: "eptr (bs ! k) = pos_ptr s (as @ bs) (Suc (length as + k))" by (simp add: pos_ptr_def nth_append)
  have "eptr (bs ! k) \<noteq> brk s" using pos_ptr_less [OF rep, of "Suc (length as + k)"] p k by simp
  then show ?thesis
    using rep_node [OF rep, of "length as + k"] insG_after [OF rep, of "Suc (length as + k)" e] k x
    unfolding ins_state_def by (subst slots_untouched) (simp_all add: p [symmetric] slCreateNode_def nth_append)
qed

lemma ins_state_header:
  assumes rep: "rep_core s (as @ bs)" and x: "eptr e = brk s" and e: "eh e \<le> level s"
  shows "\<exists>hn. heap (ins_state s as bs e) (header s) = Some hn \<and> header_ok hn (level s) (as @ e # bs)"
proof -
  obtain hn where hn: "heap s (header s) = Some hn" "header_ok hn (level s) (as @ bs)" using rep by (rule rep_header)
  have "header s < brk s" "level s \<le> 32" using rep by (auto simp: rep_core_def)
  then have h: "heap (snd (slCreateNode s (eh e) (escore e) (Some (eobj e)))) (header s) = Some hn"
    using hn by (simp add: slCreateNode_def)
  have "insG s as bs e i (header s) (link_of i (as @ bs)) = link_of i (as @ e # bs)" if "i < level s" for i
    using insG_before [OF rep, of 0 i e] that x by (simp add: pos_h_def pos_ptr_def)
  then show ?thesis
    using heap_slots [OF h] hn(2) \<open>level s \<le> 32\<close> unfolding ins_state_def header_ok_def by simp
qed


lemma forward_link_0: "\<forall>e \<in> set bs. 1 \<le> eh e \<Longrightarrow> forward (link_of 0 bs) = (case bs of [] \<Rightarrow> None | b # _ \<Rightarrow> Some (eptr b))"
  by (cases bs) (auto simp: link_of_Cons_tall link_of_none)

lemma ins_state_fields [simp]:
  "header (ins_state s as bs e) = header s" "brk (ins_state s as bs e) = Suc (brk s)"
  "tail_p (ins_state s as bs e) = tail_p s" "sl_length (ins_state s as bs e) = sl_length s"
  "level (ins_state s as bs e) = level s"
  by (simp_all add: ins_state_def slCreateNode_def)

text \<open>The back pointers, the tail and the length, which the end of \<^verbatim>\<open>slInsert\<close> sets.\<close>

definition ins_final :: "skiplist \<Rightarrow> entry list \<Rightarrow> entry list \<Rightarrow> entry \<Rightarrow> skiplist" where
  "ins_final s as bs e =
     (let t = ins_state s as bs e in
      t\<lparr>heap := (case bs of [] \<Rightarrow> (heap t)(eptr e \<mapsto> node_of as e bs)
                 | b # bs' \<Rightarrow> (heap t)(eptr e \<mapsto> node_of as e bs, eptr b \<mapsto> node_of (as @ [e]) b bs')),
        tail_p := prev_of (as @ e # bs), sl_length := sl_length t + 1\<rparr>)"

lemma ins_final_node:
  assumes rep: "rep_core s (as @ bs)" and x: "eptr e = brk s" and k: "k < length (as @ e # bs)"
  shows "heap (ins_final s as bs e) (eptr ((as @ e # bs) ! k)) =
    Some (node_of (take k (as @ e # bs)) ((as @ e # bs) ! k) (drop (Suc k) (as @ e # bs)))"
proof -
  have dist: "distinct (header s # map eptr (as @ bs))" "\<forall>p \<in> set (header s # map eptr (as @ bs)). p < brk s"
    using rep by (auto simp: rep_core_def)
  consider "k < length as" | "k = length as" | j where "k = Suc (length as + j)" "j < length bs"
    using k that(3) [of "k - Suc (length as)"] by fastforce
  then show ?thesis
  proof cases
    case 1
    then have "as ! k \<in> set as" by simp
    then have "eptr (as ! k) < brk s" "\<forall>b \<in> set bs. eptr (as ! k) \<noteq> eptr b" using dist by auto
    then show ?thesis
      using 1 ins_state_before [OF rep 1 x] x
      by (cases bs) (simp_all add: ins_final_def Let_def nth_append)
  next
    case 2
    have "\<forall>b \<in> set bs. eptr b \<noteq> eptr e" using dist(2) x by force
    with 2 show ?thesis by (cases bs) (auto simp: ins_final_def Let_def)
  next
    case 3
    show ?thesis
    proof (cases bs)
      case (Cons b bs')
      have "eptr (bs ! j) \<noteq> brk s" using dist(2) nth_mem [OF 3(2)] by force
      moreover have "j = 0 \<or> eptr (bs ! j) \<noteq> eptr b"
        using 3 dist(1) Cons by (cases j) (auto, metis image_eqI nth_mem)
      ultimately show ?thesis
        using 3 ins_state_after [OF rep 3(2) x] x Cons
        by (cases j) (auto simp: ins_final_def Let_def nth_append node_of_def prev_of_def numeral_3_eq_3)
    qed (use 3 in simp)
  qed
qed

lemma ins_final_rep:
  assumes rep: "rep_core s (as @ bs)" and x: "eptr e = brk s" and e: "1 \<le> eh e" "eh e \<le> level s"
  shows "rep_core (ins_final s as bs e) (as @ e # bs)"
proof -
  obtain hn where hn: "heap (ins_state s as bs e) (header s) = Some hn" "header_ok hn (level s) (as @ e # bs)"
    using ins_state_header [OF rep x e(2)] by blast
  have dist: "distinct (header s # map eptr (as @ bs))" "\<forall>p \<in> set (header s # map eptr (as @ bs)). p < brk s"
    using rep by (auto simp: rep_core_def)
  show ?thesis
  proof (rule rep_coreI [where hn = hn])
    show "distinct (header (ins_final s as bs e) # map eptr (as @ e # bs))"
      using dist x by (auto simp: ins_final_def Let_def)
    show "\<forall>p \<in> set (header (ins_final s as bs e) # map eptr (as @ e # bs)). p < brk (ins_final s as bs e)"
      using dist x by (auto simp: ins_final_def Let_def less_SucI)
    show "heap (ins_final s as bs e) (header (ins_final s as bs e)) = Some hn"
      using hn dist x by (cases bs) (auto simp: ins_final_def Let_def)
  qed (use hn rep e ins_final_node [OF rep x] in \<open>auto simp: ins_final_def Let_def rep_core_def\<close>)
qed


lemma ins_final_dom:
  assumes "rep_core s (as @ bs)" "eptr e = brk s"
  shows "dom (heap (ins_final s as bs e)) = insert (eptr e) (dom (heap s))"
proof -
  have "dom (heap (ins_state s as bs e)) = insert (eptr e) (dom (heap s))"
    using assms(2) by (simp add: ins_state_def slCreateNode_def)
  moreover have "eptr b \<in> dom (heap s)" if "bs = b # bs'" for b bs'
    using rep_node [OF assms(1), of "length as"] that by auto
  ultimately show ?thesis by (cases bs) (auto simp: ins_final_def Let_def)
qed

subsection \<open>The whole insertion\<close>

lemma random_loop_ge: "random_loop lv rs = Some (lv', rs') \<Longrightarrow> lv \<le> lv'"
  by (induction lv rs rule: random_loop.induct) (auto split: if_splits)

lemma slRandomLevel_bounds:
  assumes "slRandomLevel rs = Some (lv, rs')"
  shows "1 \<le> lv" "lv \<le> 32"
  using assms random_loop_ge [of 1 rs] by (auto simp: slRandomLevel_def SKIPLIST_MAXLEVEL_def split: if_splits)

lemma ins_loops:
  assumes rep: "rep_core s (as @ bs)" and x: "eptr e = brk s" and e: "eh e \<le> level s"
    and s2: "slCreateNode s (eh e) (escore e) (Some (eobj e)) = (eptr e, s2)"
  shows "(do { s3 \<leftarrow> fold_opt (link_node (eptr e) (upd_list s (as @ bs) (length as) (level s))) s2 [0..<eh e];
               fold_opt (bump_span (upd_list s (as @ bs) (length as) (level s))) s3 [eh e..<level s3] }) =
         Some (ins_state s as bs e)"
proof -
  let ?s3 = "slots s2 0 (eh e) (linkG s as bs (eptr e))"
  have lv: "level ?s3 = level s" using s2 by (auto simp: slCreateNode_def)
  have "lvl ?s3 (pos_ptr s (as @ bs) (upos i as)) i \<noteq> None" if "i < level s" for i
    using lvl_upd [OF rep that] upd_ptr_neq_brk [OF rep] s2
    by (simp only: lvl_slots) (auto simp: lvl_def slCreateNode_def)
  then have "fold_opt (bump_span (upd_list s (as @ bs) (length as) (level s))) ?s3 [eh e..<level s] =
      Some (slots ?s3 (eh e) (level s) (bumpG s as bs))"
    using e by (intro bump_loop [OF rep]) auto
  moreover have "slots ?s3 (eh e) (level s) (bumpG s as bs) = ins_state s as bs e"
    using s2 e by (simp add: slots_slots ins_state_def) (rule slots_cong, simp add: insG_def)
  ultimately show ?thesis by (simp add: link_loop [OF rep e s2] lv [simplified])
qed

lemma ins_tail:
  assumes rep: "rep_core s (as @ bs)" and x: "eptr e = brk s" and e: "1 \<le> eh e" "eh e \<le> level s"
  shows "(do { s5 \<leftarrow> set_backward (ins_state s as bs e) (eptr e)
                 (if pos_ptr s (as @ bs) (length as) = header s then None else Some (pos_ptr s (as @ bs) (length as)));
               l0 \<leftarrow> lvl s5 (eptr e) 0;
               s6 \<leftarrow> (case forward l0 of Some f \<Rightarrow> set_backward s5 f (Some (eptr e))
                     | None \<Rightarrow> Some (s5\<lparr>tail_p := Some (eptr e)\<rparr>));
               Some (s6\<lparr>sl_length := sl_length s6 + 1\<rparr>) }) = Some (ins_final s as bs e)"
proof -
  let ?t = "ins_state s as bs e"
  have "distinct (header s # map eptr (as @ bs))" using rep by (simp add: rep_core_def)
  then have "(if pos_ptr s (as @ bs) (length as) = header s then None else Some (pos_ptr s (as @ bs) (length as))) =
      prev_of as"
    by (cases as rule: rev_cases) (auto simp: pos_ptr_def prev_of_def nth_append)
  moreover have "set_backward ?t (eptr e) (prev_of as) =
      Some (?t\<lparr>heap := (heap ?t)(eptr e \<mapsto> node_of as e bs)\<rparr>)"
    using ins_state_new [OF e(2) x] by (simp add: set_backward_def node_of_def)
  moreover have "lvl (?t\<lparr>heap := (heap ?t)(eptr e \<mapsto> node_of as e bs)\<rparr>) (eptr e) 0 = Some (link_of 0 bs)"
    using e(1) by (simp add: lvl_def node_of_def)
  moreover have ones: "\<forall>b \<in> set bs. 1 \<le> eh b" using rep by (simp add: rep_core_def)
  moreover have "tail_p s = prev_of (as @ bs)" using rep by (simp add: rep_core_def)
  moreover have "eptr b \<noteq> eptr e" if "bs = b # bs'" for b bs'
    using rep that x by (auto simp: rep_core_def)
  ultimately show ?thesis
    using ins_state_after [OF rep _ x, of 0] forward_link_0 [OF ones]
    by (cases bs) (auto simp: ins_final_def Let_def set_backward_def node_of_def prev_of_def)
qed

theorem slInsert_core:
  assumes rep: "rep_core s (as @ bs)" and c: "decides (before_cond (\<lambda>c. c < 0) sc ob :: 32 walk_cond) (as @ bs) (length as)"
    and r: "slRandomLevel rs = Some (lv, rs')"
  shows "\<exists>s'. slInsert s rs sc ob = Some (s', rs') \<and> level s' = max lv (level s) \<and>
    dom (heap s') = insert (brk s) (dom (heap s)) \<and> header s' = header s \<and>
    rep_core s' (as @ \<lparr>eptr = brk s, eh = lv, escore = sc, eobj = ob\<rparr> # bs)"
proof -
  let ?e = "\<lparr>eptr = brk s, eh = lv, escore = sc, eobj = ob\<rparr>"
  note lv = slRandomLevel_bounds [OF r]
  have srch: "sl_descend s (before_cond (\<lambda>c. c < 0) sc ob) (level s) (header s) (0 :: u32) =
      Some (upd_list s (as @ bs) (length as) (level s))"
    by (rule search_spec [OF rep c]) (simp_all add: span_fits_def)
  from raise_level_spec [OF rep lv, of "length as"]
  obtain s1 where s1: "raise_level s lv (upd_list s (as @ bs) (length as) (level s)) =
      Some (s1, upd_list s1 (as @ bs) (length as) (level s1))"
    "rep_core s1 (as @ bs)" "level s1 = max lv (level s)" "header s1 = header s" "brk s1 = brk s"
    "dom (heap s1) = dom (heap s)" by auto
  obtain s2 where s2: "slCreateNode s1 lv sc (Some ob) = (brk s, s2)" using s1(5) by (simp add: slCreateNode_def)
  have e: "eptr ?e = brk s1" "1 \<le> eh ?e" "eh ?e \<le> level s1" using s1 lv by auto
  note loops = ins_loops [OF s1(2) e(1,3), unfolded entry.simps, OF s2]
  note tail = ins_tail [OF s1(2) e]
  have u0: "arr_get (upd_list s1 (as @ bs) (length as) (level s1)) 0 =
      Some (pos_ptr s1 (as @ bs) (length as), of_nat (length as) :: u32)"
    using upd_list_0 [OF s1(2), of "length as"] by simp
  obtain s3 where "fold_opt (link_node (brk s) (upd_list s1 (as @ bs) (length as) (level s1))) s2 [0..<lv] = Some s3"
    and "fold_opt (bump_span (upd_list s1 (as @ bs) (length as) (level s1))) s3 [lv..<level s3] =
      Some (ins_state s1 as bs ?e)"
    using loops by (auto simp: bind_eq_Some_conv)
  moreover obtain s5 l0 s6 where
    "set_backward (ins_state s1 as bs ?e) (brk s) (if pos_ptr s1 (as @ bs) (length as) = header s1 then None
       else Some (pos_ptr s1 (as @ bs) (length as))) = Some s5"
    "lvl s5 (brk s) 0 = Some l0"
    "(case forward l0 of Some f \<Rightarrow> set_backward s5 f (Some (brk s)) | None \<Rightarrow> Some (s5\<lparr>tail_p := Some (brk s)\<rparr>)) = Some s6"
    "s6\<lparr>sl_length := sl_length s6 + 1\<rparr> = ins_final s1 as bs ?e"
    using tail by (auto simp only: bind_eq_Some_conv entry.simps option.inject)
  ultimately have "slInsert s rs sc ob = Some (ins_final s1 as bs ?e, rs')"
    by (simp add: slInsert_def srch r s1(1) s2 u0)
  moreover have "level (ins_final s1 as bs ?e) = max lv (level s)" "header (ins_final s1 as bs ?e) = header s"
    using s1 by (simp_all add: ins_final_def Let_def)
  moreover have "dom (heap (ins_final s1 as bs ?e)) = insert (brk s) (dom (heap s))"
    using ins_final_dom [OF s1(2) e(1)] s1 by simp
  ultimately show ?thesis using ins_final_rep [OF s1(2) e] by simp
qed

end
