(* ===== verification/Skiplist_Delete.thy ===== *)
theory Skiplist_Delete
  imports Skiplist_Insert
begin

text \<open>
  Deletion keeps the representation: \<^verbatim>\<open>slDeleteNode\<close> on the node at position \<open>length as + 1\<close>, given the
  update array of a search that ended before it, and the freeing of the node.
\<close>

subsection \<open>Links without the entry\<close>

lemma link_after_delete:
  assumes k: "k = upos i as" and d: "eptr e \<notin> eptr ` set bs"
  shows "forward (link_of i (drop k as @ e # bs)) = Some (eptr e) \<longleftrightarrow> i < eh e"
    "i < eh e \<Longrightarrow> \<lparr>forward = forward (link_of i bs), span = span (link_of i (drop k as @ e # bs)) + (span (link_of i bs) - 1)\<rparr> =
       link_of i (drop k as @ bs)"
    "eh e \<le> i \<Longrightarrow> (link_of i (drop k as @ e # bs))\<lparr>span := span (link_of i (drop k as @ e # bs)) - 1\<rparr> = link_of i (drop k as @ bs)"
proof -
  note sh = link_of_shift [OF upos_low [OF k]]
  show "forward (link_of i (drop k as @ e # bs)) = Some (eptr e) \<longleftrightarrow> i < eh e"
    using d forward_link_of_mem [of i bs "eptr e"]
    by (cases "i < eh e") (auto simp: sh link_of_Cons_tall link_of_Cons_low not_less)
  show "i < eh e \<Longrightarrow> \<lparr>forward = forward (link_of i bs), span = span (link_of i (drop k as @ e # bs)) + (span (link_of i bs) - 1)\<rparr> =
      link_of i (drop k as @ bs)"
    by (simp add: sh link_of_Cons_tall)
  show "eh e \<le> i \<Longrightarrow> (link_of i (drop k as @ e # bs))\<lparr>span := span (link_of i (drop k as @ e # bs)) - 1\<rparr> = link_of i (drop k as @ bs)"
    by (simp add: sh link_of_Cons_low)
qed

lemma link_hidden_delete:
  assumes "k \<le> length as" "k \<noteq> upos i as" "0 < k \<longrightarrow> i < eh (as ! (k - 1))"
  shows "link_of i (drop k as @ e # bs) = link_of i (drop k as @ bs)"
  using link_of_hidden [OF upos_hidden [OF assms]] by simp

subsection \<open>Unlinking\<close>

definition delG :: "skiplist \<Rightarrow> entry list \<Rightarrow> entry \<Rightarrow> entry list \<Rightarrow> nat \<Rightarrow> ptr \<Rightarrow> sl_level \<Rightarrow> sl_level" where
  "delG s as e bs i p l =
     (if p = pos_ptr s (as @ e # bs) (upos i as) then link_of i (drop (upos i as) as @ bs) else l)"

text \<open>The update array: at each level in use, the last node before the entry that has the level.\<close>

definition upd_ok :: "skiplist \<Rightarrow> entry list \<Rightarrow> entry list \<Rightarrow> ptr list \<Rightarrow> bool" where
  "upd_ok s as xs upd \<longleftrightarrow> (\<forall>i < level s. arr_get upd i = Some (pos_ptr s xs (upos i as)))"

lemma entry_ptr_pos: "eptr e = pos_ptr s (as @ e # bs) (Suc (length as))"
  by (simp add: pos_ptr_def)

lemma entry_neq_upd:
  assumes "rep_core s (as @ e # bs)"
  shows "eptr e \<noteq> pos_ptr s (as @ e # bs) (upos i as)"
  using pos_ptr_inj [OF assms, of "Suc (length as)" "upos i as"] upos_le [of i as]
  by (auto simp: entry_ptr_pos [of e s as bs])

lemma unlink_loop:
  assumes rep: "rep_core s (as @ e # bs)" and upd: "upd_ok s as (as @ e # bs) upd"
  shows "fold_opt (unlink_node (eptr e) upd) s [0..<level s] = Some (slots s 0 (level s) (delG s as e bs))"
proof (rule fold_slots)
  fix i assume "0 \<le> i" and i: "i < level s"
  let ?u = "pos_ptr s (as @ e # bs) (upos i as)" and ?L = "link_of i (drop (upos i as) as @ e # bs)"
  have gi: "arr_get upd i = Some ?u" using upd i by (simp add: upd_ok_def)
  have lu: "lvl s ?u i = Some ?L" using lvl_upd [OF rep i] by simp
  have lx: "lvl s (eptr e) i = Some (link_of i bs)" if "i < eh e"
    using lvl_pos [OF rep, of "Suc (length as)" i] that by (simp add: entry_ptr_pos [symmetric] pos_h_def)
  have d: "eptr e \<notin> eptr ` set bs" using rep by (simp add: rep_core_def)
  note del = link_after_delete [OF refl d, of i as]
  have both: "(?L\<lparr>span := span ?L + (span (link_of i bs) - 1), forward := forward (link_of i bs)\<rparr>) = link_of i (drop (upos i as) as @ bs)"
    if "i < eh e" using del(2) [OF that] by (cases ?L) simp
  have g: "slots s 0 (Suc i) ((delG s as e bs)(i := (\<lambda>p l. l)(?u := f))) = slots s 0 (Suc i) (delG s as e bs)"
    if "f ?L = link_of i (drop (upos i as) as @ bs)" for f
    using that lu by (intro slots_cong) (auto simp: delG_def)
  note ups = upd_slots [OF lu _ lessI, of 0]
  show "unlink_node (eptr e) upd (slots s 0 i (delG s as e bs)) i = Some (slots s 0 (Suc i) (delG s as e bs))"
  proof (cases "i < eh e")
    case True
    have "lvl (slots s 0 i (delG s as e bs)) (eptr e) i = Some (link_of i bs)" by (simp add: lvl_slots lx [OF True])
    moreover have "lvl (slots s 0 i (delG s as e bs)) ?u i = Some ?L" by (simp add: lvl_slots lu)
    ultimately show ?thesis
      unfolding unlink_node_def set_span_def set_forward_def
      using True del(1) by (simp add: gi, subst slots_Suc, simp add: ups, intro g) (simp add: both)
  next
    case False
    have "lvl (slots s 0 i (delG s as e bs)) ?u i = Some ?L" by (simp add: lvl_slots lu)
    then show ?thesis
      unfolding unlink_node_def set_span_def set_forward_def
      using False del(1,3) by (simp add: gi, subst slots_Suc, simp add: ups, intro g) simp
  qed
qed simp


subsection \<open>The store after the loop\<close>

lemma delG_before:
  assumes rep: "rep_core s (as @ e # bs)" and k: "k \<le> length as" and i: "i < pos_h s (as @ e # bs) k"
  shows "delG s as e bs i (pos_ptr s (as @ e # bs) k) (link_of i (drop k as @ e # bs)) = link_of i (drop k as @ bs)"
proof -
  have "pos_ptr s (as @ e # bs) k = pos_ptr s (as @ e # bs) (upos i as) \<longleftrightarrow> k = upos i as"
    using pos_ptr_inj [OF rep, of k "upos i as"] k upos_le [of i as] by auto
  moreover have "0 < k \<longrightarrow> i < eh (as ! (k - 1))" using i k by (auto simp: pos_h_def nth_append split: if_splits)
  ultimately show ?thesis
    using link_hidden_delete [OF k, of i e bs] by (auto simp: delG_def)
qed

lemma delG_after:
  assumes rep: "rep_core s (as @ e # bs)" and k: "length as < k" "k \<le> length (as @ e # bs)"
  shows "delG s as e bs i (pos_ptr s (as @ e # bs) k) l = l"
  using pos_ptr_inj [OF rep, of k "upos i as"] k upos_le [of i as] by (auto simp: delG_def)

definition del_state :: "skiplist \<Rightarrow> entry list \<Rightarrow> entry \<Rightarrow> entry list \<Rightarrow> skiplist" where
  "del_state s as e bs = slots s 0 (level s) (delG s as e bs)"

lemma del_state_before:
  assumes rep: "rep_core s (as @ e # bs)" and k: "k < length as"
  shows "heap (del_state s as e bs) (eptr (as ! k)) = Some (node_of (take k as) (as ! k) (drop (Suc k) as @ bs))"
proof -
  let ?a = "as ! k"
  have p: "eptr ?a = pos_ptr s (as @ e # bs) (Suc k)" using k by (simp add: pos_ptr_def nth_append)
  have h: "heap s (eptr ?a) = Some (node_of (take k as) ?a (drop (Suc k) as @ e # bs))"
    using rep_node [OF rep, of k] k by (simp add: nth_append Suc_diff_le)
  have lev: "eh ?a \<le> level s" using rep k by (simp add: rep_core_def)
  have "delG s as e bs i (eptr ?a) (link_of i (drop (Suc k) as @ e # bs)) = link_of i (drop (Suc k) as @ bs)"
    if "i < eh ?a" for i
    using delG_before [OF rep, of "Suc k" i] that k by (simp add: p [symmetric] pos_h_def nth_append)
  then show ?thesis
    using heap_slots [OF h] lev unfolding del_state_def by (simp add: node_of_def)
qed

lemma del_state_entry:
  assumes rep: "rep_core s (as @ e # bs)"
  shows "heap (del_state s as e bs) (eptr e) = Some (node_of as e bs)"
  using rep_node [OF rep, of "length as"] delG_after [OF rep, of "Suc (length as)"]
  unfolding del_state_def by (subst slots_untouched) (simp_all add: entry_ptr_pos [symmetric])

lemma del_state_after:
  assumes rep: "rep_core s (as @ e # bs)" and k: "k < length bs"
  shows "heap (del_state s as e bs) (eptr (bs ! k)) = Some (node_of (as @ e # take k bs) (bs ! k) (drop (Suc k) bs))"
proof -
  have p: "eptr (bs ! k) = pos_ptr s (as @ e # bs) (Suc (Suc (length as + k)))" by (simp add: pos_ptr_def nth_append)
  then show ?thesis
    using rep_node [OF rep, of "Suc (length as + k)"] delG_after [OF rep, of "Suc (Suc (length as + k))"] k
    unfolding del_state_def by (subst slots_untouched) (simp_all add: p [symmetric] nth_append Suc_diff_le)
qed

lemma del_state_header:
  assumes rep: "rep_core s (as @ e # bs)"
  shows "\<exists>hn. heap (del_state s as e bs) (header s) = Some hn \<and> header_ok hn (level s) (as @ bs)"
proof -
  obtain hn where hn: "heap s (header s) = Some hn" "header_ok hn (level s) (as @ e # bs)" using rep by (rule rep_header)
  have "level s \<le> 32" using rep by (simp add: rep_core_def)
  moreover have "delG s as e bs i (header s) (link_of i (as @ e # bs)) = link_of i (as @ bs)" if "i < level s" for i
    using delG_before [OF rep, of 0 i] that by (simp add: pos_h_def pos_ptr_def)
  ultimately show ?thesis
    using heap_slots [OF hn(1)] hn(2) unfolding del_state_def header_ok_def by simp
qed

text \<open>With the back pointer of the next node, or the tail, and the length as \<^verbatim>\<open>slDeleteNode\<close> leaves them.\<close>

definition del_final :: "skiplist \<Rightarrow> entry list \<Rightarrow> entry \<Rightarrow> entry list \<Rightarrow> skiplist" where
  "del_final s as e bs =
     (let t = del_state s as e bs in
      t\<lparr>heap := (case bs of [] \<Rightarrow> heap t | b # bs' \<Rightarrow> (heap t)(eptr b \<mapsto> node_of as b bs')),
        tail_p := prev_of (as @ bs)\<rparr>)"

lemma del_final_fields [simp]:
  "header (del_final s as e bs) = header s" "brk (del_final s as e bs) = brk s"
  "tail_p (del_final s as e bs) = prev_of (as @ bs)" "sl_length (del_final s as e bs) = sl_length s"
  "level (del_final s as e bs) = level s"
  by (simp_all add: del_final_def del_state_def Let_def)

lemma del_final_heap:
  "heap (del_final s as e bs) =
     (case bs of [] \<Rightarrow> heap (del_state s as e bs) | b # bs' \<Rightarrow> (heap (del_state s as e bs))(eptr b \<mapsto> node_of as b bs'))"
  by (simp add: del_final_def Let_def)

lemma del_final_rep:
  assumes rep: "rep_core s (as @ e # bs)"
  shows "rep_core (del_final s as e bs\<lparr>sl_length := sl_length s - 1\<rparr>) (as @ bs)"
proof -
  obtain hn where hn: "heap (del_state s as e bs) (header s) = Some hn" "header_ok hn (level s) (as @ bs)"
    using del_state_header [OF rep] by blast
  have dist: "distinct (header s # map eptr (as @ e # bs))" "\<forall>p \<in> set (header s # map eptr (as @ e # bs)). p < brk s"
    using rep by (auto simp: rep_core_def)
  show ?thesis
  proof (rule rep_coreI [where hn = hn])
    show "heap (del_final s as e bs\<lparr>sl_length := sl_length s - 1\<rparr>) (header (del_final s as e bs\<lparr>sl_length := sl_length s - 1\<rparr>)) = Some hn"
      using hn dist by (cases bs) (auto simp: del_final_heap)
    show "heap (del_final s as e bs\<lparr>sl_length := sl_length s - 1\<rparr>) (eptr ((as @ bs) ! k)) =
        Some (node_of (take k (as @ bs)) ((as @ bs) ! k) (drop (Suc k) (as @ bs)))" if k: "k < length (as @ bs)" for k
    proof (cases "k < length as")
      case True
      then have "as ! k \<in> set as" by simp
      then have "\<forall>b \<in> set bs. eptr (as ! k) \<noteq> eptr b" using dist by auto
      then show ?thesis
        using True del_state_before [OF rep True]
        by (cases bs) (simp_all add: del_final_heap nth_append Suc_diff_le)
    next
      case False
      then obtain j where j: "k = length as + j" "j < length bs" using k by (metis le_Suc_ex length_append nat_add_left_cancel_less not_less)
      show ?thesis
      proof (cases bs)
        case (Cons b bs')
        have "j = 0 \<or> eptr (bs ! j) \<noteq> eptr b"
          using j dist(1) Cons by (cases j) (auto, metis image_eqI nth_mem)
        then show ?thesis
          using j del_state_after [OF rep j(2)] Cons
          by (cases j) (auto simp: del_final_heap nth_append node_of_def prev_of_def)
      qed (use j in simp)
    qed
  qed (use hn rep in \<open>auto simp: rep_core_def\<close>)
qed


subsection \<open>Lowering the level\<close>

lemma shrink_level_spec:
  assumes hn: "heap s (header s) = Some hn" "header_ok hn lv xs" and n: "1 \<le> n" "n \<le> lv" "lv \<le> 32"
    and above: "\<forall>e \<in> set xs. eh e \<le> n"
  shows "\<exists>m. shrink_level s n = Some m \<and> 1 \<le> m \<and> m \<le> n \<and> (\<forall>e \<in> set xs. eh e \<le> m) \<and>
    (m = 1 \<or> (\<exists>e \<in> set xs. eh e = m))"
  using n above
proof (induction n)
  case 0
  then show ?case by simp
next
  case (Suc n)
  show ?case
  proof (cases "n = 0")
    case True
    with Suc.prems show ?thesis by auto
  next
    case False
    have l: "lvl s (header s) n = Some (link_of n xs)" using hn Suc.prems by (simp add: lvl_def header_ok_def)
    show ?thesis
    proof (cases "\<forall>e \<in> set xs. eh e \<le> n")
      case True
      with Suc.IH Suc.prems False l forward_link_of_None [of n xs] show ?thesis by auto
    next
      case 2: False
      then have "\<exists>e \<in> set xs. eh e = Suc n" using Suc.prems(4) by (metis le_SucE)
      with 2 False l forward_link_of_None [of n xs] Suc.prems(4) show ?thesis by auto
    qed
  qed
qed

lemma rep_core_lower:
  assumes rep: "rep_core s xs" and m: "1 \<le> m" "m \<le> level s" "\<forall>e \<in> set xs. eh e \<le> m"
  shows "rep_core (s\<lparr>level := m\<rparr>) xs"
proof -
  obtain hn where hn: "heap s (header s) = Some hn" "header_ok hn (level s) xs" using rep by (rule rep_header)
  have "forward (link_of i xs) = None" if "m \<le> i" for i
    using m(3) that by (auto simp: forward_link_of_None)
  then have "header_ok hn m xs" using hn(2) m(2) unfolding header_ok_def by (metis not_le order_less_le_trans)
  with hn(1) rep m show ?thesis by (auto simp: rep_core_def)
qed

subsection \<open>\<^verbatim>\<open>slDeleteNode\<close> and the freeing of the node\<close>

theorem slDeleteNode_spec:
  assumes rep: "rep_core s (as @ e # bs)" and upd: "upd_ok s as (as @ e # bs) upd"
  shows "\<exists>s'. slDeleteNode s (eptr e) upd = Some s' \<and> sl_rep s' (as @ bs) \<and>
    heap s' (eptr e) = Some (node_of as e bs) \<and> level s' \<le> level s \<and> header s' = header s \<and>
    dom (heap s') = dom (heap s)"
proof -
  let ?t = "del_state s as e bs" and ?f = "del_final s as e bs" let ?g = "?f\<lparr>sl_length := sl_length s - 1\<rparr>"
  have e1: "1 \<le> eh e" "\<forall>b \<in> set bs. 1 \<le> eh b" using rep by (auto simp: rep_core_def)
  have n: "heap ?t (eptr e) = Some (node_of as e bs)" by (rule del_state_entry [OF rep])
  have l0: "lvl ?t (eptr e) 0 = Some (link_of 0 bs)" using n e1 by (simp add: lvl_def node_of_def)
  have step: "(case forward (link_of 0 bs) of Some f \<Rightarrow> set_backward ?t f (prev_of as)
      | None \<Rightarrow> Some (?t\<lparr>tail_p := prev_of as\<rparr>)) = Some ?f"
  proof (cases bs)
    case Nil
    then show ?thesis by (simp add: forward_link_0 del_final_def Let_def)
  next
    case (Cons b bs')
    have "heap ?t (eptr b) = Some (node_of (as @ [e]) b bs')" using del_state_after [OF rep, of 0] Cons by simp
    moreover have "tail_p s = prev_of (as @ e # bs)" using rep by (simp add: rep_core_def)
    ultimately show ?thesis
      using Cons forward_link_0 [OF e1(2)]
      by (simp add: set_backward_def del_final_def Let_def node_of_def prev_of_def del_state_def)
  qed
  have repg: "rep_core ?g (as @ bs)" by (rule del_final_rep [OF rep])
  then obtain hn where hn: "heap ?f (header ?f) = Some hn" "header_ok hn (level s) (as @ bs)"
    by (rule rep_header) simp
  have lev: "1 \<le> level s" "level s \<le> 32" "\<forall>e \<in> set (as @ bs). eh e \<le> level s" using rep by (auto simp: rep_core_def)
  obtain m where m: "shrink_level ?f (level s) = Some m" "1 \<le> m" "m \<le> level s" "\<forall>e \<in> set (as @ bs). eh e \<le> m"
    "m = 1 \<or> (\<exists>e \<in> set (as @ bs). eh e = m)"
    using shrink_level_spec [OF hn lev(1) order_refl lev(2,3)] by blast
  have "slDeleteNode s (eptr e) upd = Some (?f\<lparr>level := m, sl_length := sl_length s - 1\<rparr>)"
    using unlink_loop [OF rep upd] n l0 step m(1)
    by (simp add: slDeleteNode_def del_state_def [symmetric] node_of_def cong: option.case_cong)
  moreover have "rep_core (?g\<lparr>level := m\<rparr>) (as @ bs)"
    using rep_core_lower [OF repg m(2)] m(3,4) by simp
  then have "rep_core (?f\<lparr>level := m, sl_length := sl_length s - 1\<rparr>) (as @ bs)" by (cases ?f) simp
  moreover have "heap ?f (eptr e) = Some (node_of as e bs)"
    using n rep by (cases bs) (auto simp: del_final_heap rep_core_def)
  moreover have "dom (heap ?f) = dom (heap s)"
    using rep_node [OF rep, of "Suc (length as)"]
    by (cases bs) (auto simp: del_final_heap del_state_def domIff nth_append)
  ultimately show ?thesis using m by (auto simp: sl_rep_def level_tight_def)
qed

lemma rep_core_free:
  assumes rep: "rep_core s xs" and x: "x \<notin> set (header s # map eptr xs)"
  shows "rep_core (s\<lparr>heap := (heap s)(x := None)\<rparr>) xs"
proof -
  have "eptr e \<noteq> x" if "xs = as @ e # bs" for as e bs using x that by auto
  then show ?thesis using rep x by (auto simp: rep_core_def)
qed

text \<open>Deleting and freeing together, as the callers do.\<close>

lemma slDeleteNode_free:
  assumes rep: "rep_core s (as @ e # bs)" and upd: "upd_ok s as (as @ e # bs) upd"
  shows "\<exists>s1 s2. slDeleteNode s (eptr e) upd = Some s1 \<and> heap s1 (eptr e) = Some (node_of as e bs) \<and>
    slFreeNode s1 (eptr e) = Some s2 \<and> sl_rep s2 (as @ bs) \<and> level s2 \<le> level s \<and> header s2 = header s \<and>
    dom (heap s2) = dom (heap s) - {eptr e}"
proof -
  obtain s1 where s1: "slDeleteNode s (eptr e) upd = Some s1" "sl_rep s1 (as @ bs)"
    "heap s1 (eptr e) = Some (node_of as e bs)" "level s1 \<le> level s" "header s1 = header s" "dom (heap s1) = dom (heap s)"
    using slDeleteNode_spec [OF assms] by blast
  have "eptr e \<notin> set (header s1 # map eptr (as @ bs))" using rep s1(5) by (auto simp: rep_core_def)
  then have "rep_core (s1\<lparr>heap := (heap s1)(eptr e := None)\<rparr>) (as @ bs)"
    using s1(2) by (intro rep_core_free) (auto simp: sl_rep_def)
  with s1 show ?thesis by (auto simp: slFreeNode_def sl_rep_def level_tight_def)
qed


text \<open>The update array stays right for the nodes behind the same position.\<close>

lemma upd_ok_search:
  "K \<le> length xs \<Longrightarrow> upd_ok s (take K xs) xs (map fst (upd_list s xs K (level s) :: (ptr \<times> 'w::len word) list))"
  by (auto simp: upd_ok_def upd_list_def arr_get_def)

lemma upd_ok_next:
  assumes "upd_ok s as (as @ e # bs) upd" "level s' \<le> level s" "header s' = header s"
  shows "upd_ok s' as (as @ bs) upd"
proof -
  have "pos_ptr s' (as @ bs) (upos i as) = pos_ptr s (as @ e # bs) (upos i as)" for i
    using assms(3) upos_le [of i as] by (auto simp: pos_ptr_def nth_append)
  with assms show ?thesis by (auto simp: upd_ok_def)
qed

end
