(* ===== verification/Skiplist_Spec.thy ===== *)
theory Skiplist_Spec
  imports Skiplist_Delete "HOL-Library.List_Lexorder" "HOL-Library.Product_Lexorder"
begin

text \<open>
  The abstract score board: a list of scores and members ordered by score and then by member, and what every
  operation of skiplist.c does to it. \<open>board_ok\<close> ties a store to a list of entries; the operations are then
  functions on \<open>board xs\<close>.
\<close>

subsection \<open>Order\<close>

definition okey :: "slobj \<Rightarrow> bytes" where
  "okey ob = take (obj_length ob) (obj_ptr ob)"

text \<open>Objects as \<^verbatim>\<open>slCreateObj\<close> makes them, short enough for the \<^verbatim>\<open>int\<close> that \<^verbatim>\<open>compareslObj\<close> returns.\<close>

definition obj_ok :: "slobj \<Rightarrow> bool" where
  "obj_ok ob \<longleftrightarrow> obj_length ob \<le> length (obj_ptr ob) \<and> obj_length ob < 2 ^ 31"

definition bkey :: "double \<times> slobj \<Rightarrow> int \<times> bytes" where
  "bkey p = (dkey (fst p), okey (snd p))"

definition ekey :: "entry \<Rightarrow> int \<times> bytes" where
  "ekey e = (dkey (escore e), okey (eobj e))"

definition entry_ok :: "entry \<Rightarrow> bool" where
  "entry_ok e \<longleftrightarrow> \<not> d_isnan (escore e) \<and> obj_ok (eobj e)"

lemma memcmp_less:
  "m \<le> length xs \<Longrightarrow> k \<le> length ys \<Longrightarrow>
     memcmp xs ys (min m k) < 0 \<or> (memcmp xs ys (min m k) = 0 \<and> m < k) \<longleftrightarrow> take m xs < take k ys"
proof (induction xs arbitrary: ys m k)
  case Nil
  then show ?case by (cases ys; cases k) auto
next
  case (Cons x xs)
  show ?case
  proof (cases m)
    case 0
    then show ?thesis using Cons.prems by (cases k; cases ys) auto
  next
    case (Suc m')
    then show ?thesis
    proof (cases k)
      case 0
      then show ?thesis using Suc by simp
    next
      case (Suc k')
      then obtain y ys' where "ys = y # ys'" using Cons.prems by (cases ys) auto
      then show ?thesis using Cons.IH [of m' k' ys'] Cons.prems \<open>m = Suc m'\<close> Suc by auto
    qed
  qed
qed

lemma sint_small:
  assumes "\<bar>d\<bar> < 2 ^ 31"
  shows "sint (word_of_int d :: 32 word) = d"
  using assms by (simp add: sint_sbintrunc' signed_take_bit_int_eq_self)

lemma compareslObj_sign:
  assumes "obj_ok a" "obj_ok b"
  shows "compareslObj a b < 0 \<longleftrightarrow> okey a < okey b" "compareslObj a b = 0 \<longleftrightarrow> okey a = okey b"
    "compareslObj a b \<le> 0 \<longleftrightarrow> okey a \<le> okey b"
proof -
  let ?m = "obj_length a" and ?k = "obj_length b"
  let ?c = "memcmp (obj_ptr a) (obj_ptr b) (min ?m ?k)"
  have s: "sint (word_of_int (int ?m - int ?k) :: 32 word) = int ?m - int ?k"
  proof (rule sint_small)
    have "?m < 2147483648" "?k < 2147483648" using assms by (simp_all add: obj_ok_def)
    then show "\<bar>int ?m - int ?k\<bar> < 2 ^ 31" by simp
  qed
  show lt: "compareslObj a b < 0 \<longleftrightarrow> okey a < okey b"
    using memcmp_less [of ?m "obj_ptr a" ?k "obj_ptr b"] assms
    unfolding compareslObj_def Let_def s okey_def by (auto simp: obj_ok_def)
  have "?c = 0 \<longleftrightarrow> take (min ?m ?k) (obj_ptr a) = take (min ?m ?k) (obj_ptr b)"
    using assms by (intro memcmp_take) (auto simp: obj_ok_def)
  moreover have "length (okey a) = ?m" "length (okey b) = ?k" using assms by (auto simp: okey_def obj_ok_def)
  ultimately show eq: "compareslObj a b = 0 \<longleftrightarrow> okey a = okey b"
    unfolding compareslObj_def Let_def s okey_def
    by (smt (verit, best) min.idem of_nat_eq_iff take_take min.commute)
  show "compareslObj a b \<le> 0 \<longleftrightarrow> okey a \<le> okey b" using lt eq by (auto simp: le_less)
qed

lemma before_cond_less:
  assumes "entry_ok e" "\<not> d_isnan sc" "obj_ok ob"
  shows "before_cond (\<lambda>c. c < 0) sc ob acc sp (node_of as e bs) = Some (ekey e < (dkey sc, okey ob))"
    "before_cond (\<lambda>c. c \<le> 0) sc ob acc sp (node_of as e bs) = Some (ekey e \<le> (dkey sc, okey ob))"
  using assms
  by (auto simp: before_cond_def node_of_def entry_ok_def d_order_keys ekey_def compareslObj_sign)

subsection \<open>The cut of a search in an ordered list\<close>

lemma takeWhile_cut:
  assumes "\<And>j j'. j < j' \<Longrightarrow> j' < length xs \<Longrightarrow> P (xs ! j') \<Longrightarrow> P (xs ! j)" and "j < length xs"
  shows "P (xs ! j) \<longleftrightarrow> Suc j \<le> length (takeWhile P xs)"
proof
  assume p: "P (xs ! j)"
  show "Suc j \<le> length (takeWhile P xs)"
  proof (rule ccontr)
    let ?n = "length (takeWhile P xs)"
    assume "\<not> Suc j \<le> ?n"
    then have n: "?n \<le> j" by simp
    then have "\<not> P (xs ! ?n)" using assms(2) nth_length_takeWhile [of P xs] by simp
    then show False using p n assms by (metis le_neq_implies_less)
  qed
next
  assume "Suc j \<le> length (takeWhile P xs)"
  then show "P (xs ! j)" by (metis Suc_le_lessD nth_mem set_takeWhileD takeWhile_nth)
qed

lemma decides_takeWhile:
  assumes c: "\<And>acc sp as e bs. e \<in> set xs \<Longrightarrow> c acc sp (node_of as e bs) = Some (P e)"
    and mono: "\<And>j j'. j < j' \<Longrightarrow> j' < length xs \<Longrightarrow> P (xs ! j') \<Longrightarrow> P (xs ! j)"
  shows "decides c xs (length (takeWhile P xs))"
  unfolding decides_def
proof (intro allI impI)
  fix k j assume kj: "k < j" "j \<le> length xs"
  then have j: "j - 1 < length xs" "Suc (j - 1) = j" by auto
  show "c (of_nat k) (of_nat (j - k)) (node_of (take (j - 1) xs) (xs ! (j - 1)) (drop j xs)) =
      Some (j \<le> length (takeWhile P xs))"
    using c [OF nth_mem [OF j(1)]] takeWhile_cut [of xs P "j - 1", OF mono j(1)] j(2) by simp
qed

lemma sorted_nth_less: "sorted (map f xs) \<Longrightarrow> j < j' \<Longrightarrow> j' < length xs \<Longrightarrow> f (xs ! j) \<le> f (xs ! j')"
  using sorted_nth_mono [of "map f xs" j j'] by simp


subsection \<open>The score board\<close>

definition board_ok :: "skiplist \<Rightarrow> entry list \<Rightarrow> bool" where
  "board_ok s xs \<longleftrightarrow>
     sl_rep s xs \<and> sorted (map ekey xs) \<and> (\<forall>e \<in> set xs. entry_ok e) \<and>
     dom (heap s) = insert (header s) (eptr ` set xs)"

definition board :: "entry list \<Rightarrow> (double \<times> slobj) list" where
  "board xs = map (\<lambda>e. (escore e, eobj e)) xs"

definition board_insert :: "double \<Rightarrow> slobj \<Rightarrow> (double \<times> slobj) list \<Rightarrow> (double \<times> slobj) list" where
  "board_insert sc ob bd =
     takeWhile (\<lambda>p. bkey p < bkey (sc, ob)) bd @ (sc, ob) # dropWhile (\<lambda>p. bkey p < bkey (sc, ob)) bd"

definition board_delete :: "double \<Rightarrow> slobj \<Rightarrow> (double \<times> slobj) list \<Rightarrow> bool \<times> (double \<times> slobj) list" where
  "board_delete sc ob bd =
     (case dropWhile (\<lambda>p. bkey p < bkey (sc, ob)) bd of
        p # r \<Rightarrow> if bkey p = bkey (sc, ob) then (True, takeWhile (\<lambda>p. bkey p < bkey (sc, ob)) bd @ r) else (False, bd)
      | [] \<Rightarrow> (False, bd))"

lemma board_ok_core: "board_ok s xs \<Longrightarrow> rep_core s xs"
  by (simp add: board_ok_def sl_rep_def)

lemma length_board [simp]: "length (board xs) = length xs"
  by (simp add: board_def)

lemma board_append [simp]: "board (as @ bs) = board as @ board bs" "board (e # bs) = (escore e, eobj e) # board bs" "board [] = []"
  by (simp_all add: board_def)

lemma bkey_ekey [simp]: "bkey (escore e, eobj e) = ekey e"
  by (simp add: bkey_def ekey_def)

lemma bkey_comp: "bkey (sc, ob) = (dkey sc, okey ob)"
  by (simp add: bkey_def)

lemma board_takeWhile: "takeWhile (\<lambda>p. bkey p < k) (board xs) = board (takeWhile (\<lambda>e. ekey e < k) xs)"
  by (induction xs) (auto simp: board_def)

lemma board_dropWhile: "dropWhile (\<lambda>p. bkey p < k) (board xs) = board (dropWhile (\<lambda>e. ekey e < k) xs)"
  by (induction xs) (auto simp: board_def)

lemma decides_less:
  assumes b: "board_ok s xs" and "\<not> d_isnan sc" "obj_ok ob"
  shows "decides (before_cond (\<lambda>c. c < 0) sc ob :: 'w::len walk_cond) xs (length (takeWhile (\<lambda>e. ekey e < bkey (sc, ob)) xs))"
proof (rule decides_takeWhile)
  show "before_cond (\<lambda>c. c < 0) sc ob acc sp (node_of as e bs) = Some (ekey e < bkey (sc, ob))" if "e \<in> set xs"
    for acc :: "'w word" and sp as e bs
    using before_cond_less(1) [of e] that assms by (simp add: board_ok_def bkey_comp)
  show "ekey (xs ! j) < bkey (sc, ob)" if "j < j'" "j' < length xs" "ekey (xs ! j') < bkey (sc, ob)" for j j'
    using sorted_nth_less [of ekey xs j j'] that assms by (auto simp: board_ok_def)
qed

lemma decides_le:
  assumes b: "board_ok s xs" and "\<not> d_isnan sc" "obj_ok ob"
  shows "decides (before_cond (\<lambda>c. c \<le> 0) sc ob :: 'w::len walk_cond) xs (length (takeWhile (\<lambda>e. ekey e \<le> bkey (sc, ob)) xs))"
proof (rule decides_takeWhile)
  show "before_cond (\<lambda>c. c \<le> 0) sc ob acc sp (node_of as e bs) = Some (ekey e \<le> bkey (sc, ob))" if "e \<in> set xs"
    for acc :: "'w word" and sp as e bs
    using before_cond_less(2) [of e] that assms by (simp add: board_ok_def bkey_comp)
  show "ekey (xs ! j) \<le> bkey (sc, ob)" if "j < j'" "j' < length xs" "ekey (xs ! j') \<le> bkey (sc, ob)" for j j'
    using sorted_nth_less [of ekey xs j j'] that assms by (auto simp: board_ok_def)
qed

lemma sorted_insert_mid:
  assumes "sorted (map ekey xs)"
  shows "sorted (map ekey (takeWhile (\<lambda>e. ekey e < ekey n) xs @ n # dropWhile (\<lambda>e. ekey e < ekey n) xs))"
  using assms
proof (induction xs)
  case (Cons a xs)
  then show ?case
    using set_takeWhileD [of _ "\<lambda>e. ekey e < ekey n" xs] set_dropWhileD [of _ "\<lambda>e. ekey e < ekey n" xs]
    by (auto simp: not_less)
qed simp

lemma slInsert_board:
  assumes b: "board_ok s xs" and k: "\<not> d_isnan sc" "obj_ok ob" and r: "slRandomLevel rs = Some (lv, rs')"
  shows "\<exists>s' xs'. slInsert s rs sc ob = Some (s', rs') \<and> board_ok s' xs' \<and> board xs' = board_insert sc ob (board xs)"
proof -
  let ?as = "takeWhile (\<lambda>e. ekey e < bkey (sc, ob)) xs" and ?bs = "dropWhile (\<lambda>e. ekey e < bkey (sc, ob)) xs"
  let ?e = "\<lparr>eptr = brk s, eh = lv, escore = sc, eobj = ob\<rparr>"
  have key: "ekey ?e = bkey (sc, ob)" by (simp add: ekey_def bkey_def)
  have rep: "rep_core s (?as @ ?bs)" using board_ok_core [OF b] by simp
  obtain s' where s': "slInsert s rs sc ob = Some (s', rs')" "level s' = max lv (level s)"
    "dom (heap s') = insert (brk s) (dom (heap s))" "rep_core s' (?as @ ?e # ?bs)" "header s' = header s"
    using slInsert_core [OF rep _ r, of sc ob] decides_less [OF b k] by auto
  have "level_tight s' (?as @ ?e # ?bs)"
    using s'(2) b unfolding board_ok_def sl_rep_def level_tight_def
    by (metis (no_types, lifting) Un_iff entry.select_convs(2) insertCI list.simps(15) max_def set_append
        takeWhile_dropWhile_id slRandomLevel_bounds(1) [OF r] le_antisym)
  moreover have "\<forall>e \<in> set (?as @ ?e # ?bs). entry_ok e"
    using b k by (auto simp: board_ok_def entry_ok_def dest: set_takeWhileD set_dropWhileD)
  moreover have "sorted (map ekey (?as @ ?e # ?bs))"
    using b sorted_insert_mid [of xs ?e] by (simp only: key board_ok_def)
  moreover have "set xs = set ?as \<union> set ?bs" by (metis set_append takeWhile_dropWhile_id)
  ultimately have "board_ok s' (?as @ ?e # ?bs)" using s' b by (auto simp: board_ok_def sl_rep_def)
  moreover have "board (?as @ ?e # ?bs) = board_insert sc ob (board xs)"
    by (simp add: board_insert_def board_takeWhile board_dropWhile)
  ultimately show ?thesis using s'(1) by blast
qed

end
