(* ===== verification/Skiplist_Ops.thy ===== *)
theory Skiplist_Ops
  imports Skiplist_Spec
begin

text \<open>
  What the other operations of skiplist.c do to the score board: creation, deletion by key and by rank,
  ranks, nodes by rank, ranges of scores, freeing and dumping.
\<close>

subsection \<open>Creation\<close>

lemma clear_levels:
  assumes h: "heap s p = Some n" "levels n = replicate 32 \<lparr>forward = None, span = 0\<rparr>" and "m \<le> 32"
  shows "fold_opt (\<lambda>s j. do { s' \<leftarrow> set_forward s p j None; set_span s' p j 0 }) s [0..<m] = Some s"
  using assms(3)
proof (induction m)
  case (Suc m)
  have same: "n\<lparr>levels := (replicate 32 \<lparr>forward = None, span = 0\<rparr>)[m := \<lparr>forward = None, span = 0\<rparr>]\<rparr> = n"
    using Suc.prems h list_update_id [of "replicate 32 \<lparr>forward = None, span = 0\<rparr>" m] by simp
  have "set_forward s p m None = Some s" "set_span s p m 0 = Some s"
    using Suc.prems h same by (simp_all add: set_forward_def set_span_def upd_lvl_def map_upd_triv)
  then show ?case using Suc by (simp add: fold_opt_append)
qed simp

lemma board_ok_new: "\<exists>s. slCreate = Some s \<and> board_ok s []"
proof -
  let ?n = "\<lparr>nobj = None, score = 0, backward = None, levels = replicate 32 \<lparr>forward = None, span = 0\<rparr>\<rparr>"
  let ?s = "\<lparr>heap = (\<lambda>_. None)(1 \<mapsto> ?n), brk = Suc (Suc 0), header = 1, tail_p = None, sl_length = 0, level = 1\<rparr>"
  have "slCreate = Some ?s"
    using clear_levels [of ?s 1 ?n 32]
    by (simp add: slCreate_def slCreateNode_def SKIPLIST_MAXLEVEL_def Let_def set_backward_def)
  moreover have "board_ok ?s []"
    by (auto simp: board_ok_def sl_rep_def rep_core_def level_tight_def header_ok_def link_of_def prev_of_def skipn_def)
  ultimately show ?thesis by blast
qed

subsection \<open>Deletion by key\<close>

lemma board_ok_removed:
  assumes b: "board_ok s (as @ e # bs)" and r: "sl_rep s' (as @ bs)" "header s' = header s"
    "dom (heap s') = dom (heap s) - {eptr e}"
  shows "board_ok s' (as @ bs)"
proof -
  have "distinct (header s # map eptr (as @ e # bs))" using board_ok_core [OF b] by (simp add: rep_core_def)
  then have "eptr e \<noteq> header s" "eptr e \<notin> eptr ` set as" "eptr e \<notin> eptr ` set bs" by auto
  then have "insert (header s) (eptr ` set (as @ e # bs)) - {eptr e} = insert (header s) (eptr ` set (as @ bs))"
    unfolding set_append list.set image_Un image_insert by blast
  moreover have "sorted (map ekey (as @ bs))" "\<forall>e \<in> set (as @ bs). entry_ok e"
    using b by (auto simp: board_ok_def sorted_append)
  ultimately show ?thesis using b r by (simp add: board_ok_def)
qed

lemma forward_after:
  assumes rep: "rep_core s xs" and K: "K \<le> length xs"
  shows "lvl s (pos_ptr s xs K) 0 = Some (link_of 0 (drop K xs))"
    "forward (link_of 0 (drop K xs)) = (if K < length xs then Some (eptr (xs ! K)) else None)"
proof -
  have ones: "\<forall>e \<in> set xs. 1 \<le> eh e" "1 \<le> level s" using rep by (auto simp: rep_core_def)
  have "0 < pos_h s xs K" using ones K by (auto simp: pos_h_def Suc_le_eq)
  then show "lvl s (pos_ptr s xs K) 0 = Some (link_of 0 (drop K xs))" by (rule lvl_pos [OF rep K])
  have "forward (link_of 0 (drop K xs)) = (case drop K xs of [] \<Rightarrow> None | b # _ \<Rightarrow> Some (eptr b))"
    using ones(1) by (intro forward_link_0) (auto dest: in_set_dropD)
  then show "forward (link_of 0 (drop K xs)) = (if K < length xs then Some (eptr (xs ! K)) else None)"
    by (auto simp: Cons_nth_drop_Suc [symmetric])
qed

text \<open>What the search decides: nothing is left behind the smaller pairs, or the next one is the pair that is looked for, or not.\<close>

definition del_updates :: "skiplist \<Rightarrow> entry list \<Rightarrow> nat \<Rightarrow> ptr list" where
  "del_updates s xs K = map fst (upd_list s xs K (level s) :: (ptr \<times> u64) list)"

lemma slDelete_at:
  assumes b: "board_ok s xs" and k: "\<not> d_isnan sc" "obj_ok ob" and n: "length xs < 2 ^ 32"
    and as: "as = takeWhile (\<lambda>e. ekey e < bkey (sc, ob)) xs"
  shows "slDelete s sc ob =
    (case dropWhile (\<lambda>e. ekey e < bkey (sc, ob)) xs of [] \<Rightarrow> Some (False, s)
     | e # bs \<Rightarrow> if ekey e = bkey (sc, ob)
         then do { s1 \<leftarrow> slDeleteNode s (eptr e) (del_updates s xs (length as)); s2 \<leftarrow> slFreeNode s1 (eptr e); Some (True, s2) }
         else Some (False, s))"
proof -
  let ?P = "\<lambda>e. ekey e < bkey (sc, ob)" and ?K = "length as"
  note rep = board_ok_core [OF b]
  have K: "?K \<le> length xs" unfolding as by (rule length_takeWhile_le)
  have srch: "sl_descend s (before_cond (\<lambda>c. c < 0) sc ob) (level s) (header s) (0 :: u64) =
      Some (upd_list s xs ?K (level s))"
    by (rule search_spec [OF rep decides_less [OF b k, folded as] _ K]) (use n in \<open>simp add: span_fits_def\<close>)
  note u0 = upd_list_0 [OF rep K, where 'a = 64]
  note fwd = forward_after [OF rep K]
  show ?thesis
  proof (cases "dropWhile ?P xs")
    case Nil
    then have "\<not> ?K < length xs" unfolding as by (metis append_Nil2 takeWhile_dropWhile_id less_irrefl)
    then show ?thesis unfolding Nil by (simp add: slDelete_def srch u0 fwd(1) link_of_none)
  next
    case (Cons e bs)
    have xs: "xs = as @ e # bs" using Cons unfolding as by (metis takeWhile_dropWhile_id)
    have Ke: "?K < length xs" "xs ! ?K = e" using xs by simp_all
    have h: "heap s (eptr e) = Some (node_of as e bs)" using rep xs by (auto simp: rep_core_def)
    have "entry_ok e" using b xs by (simp add: board_ok_def)
    then have "d_eq sc (escore e) \<and> equalslObj (eobj e) ob \<longleftrightarrow> ekey e = bkey (sc, ob)"
      using k by (auto simp: entry_ok_def d_order_keys equalslObj_def compareslObj_sign ekey_def bkey_def)
    then show ?thesis unfolding Cons by (auto simp: slDelete_def srch u0 fwd Ke h node_of_def del_updates_def)
  qed
qed

lemma slDelete_board:
  assumes b: "board_ok s xs" and k: "\<not> d_isnan sc" "obj_ok ob" and n: "length xs < 2 ^ 32"
  shows "\<exists>s' xs'. slDelete s sc ob = Some (fst (board_delete sc ob (board xs)), s') \<and> board_ok s' xs' \<and>
    board xs' = snd (board_delete sc ob (board xs))"
proof -
  let ?P = "\<lambda>e. ekey e < bkey (sc, ob)"
  define as where "as = takeWhile ?P xs"
  note del = slDelete_at [OF b k n as_def]
  show ?thesis
  proof (cases "dropWhile ?P xs")
    case Nil
    with b del show ?thesis unfolding board_delete_def board_dropWhile Nil by auto
  next
    case (Cons e bs)
    have xs: "xs = as @ e # bs" using Cons unfolding as_def by (metis takeWhile_dropWhile_id)
    show ?thesis
    proof (cases "ekey e = bkey (sc, ob)")
      case False
      with Cons b del show ?thesis by (auto simp: board_delete_def board_dropWhile)
    next
      case True
      have repx: "rep_core s (as @ e # bs)" using board_ok_core [OF b] xs by simp
      have "length as \<le> length xs" using xs by simp
      then have upd: "upd_ok s as (as @ e # bs) (del_updates s xs (length as))"
        using upd_ok_search [of "length as" xs s, where 'w = 64] xs by (simp add: del_updates_def)
      obtain s1 s2 where d: "slDeleteNode s (eptr e) (del_updates s xs (length as)) = Some s1"
        "slFreeNode s1 (eptr e) = Some s2" "sl_rep s2 (as @ bs)" "header s2 = header s" "dom (heap s2) = dom (heap s) - {eptr e}"
        using slDeleteNode_free [OF repx upd] by blast
      have "slDelete s sc ob = Some (True, s2)" using del Cons True d(1,2) by simp
      moreover have "board_ok s2 (as @ bs)" using board_ok_removed [of s as e bs s2] b xs d(3-5) by simp
      ultimately show ?thesis
        using True Cons by (auto simp: board_delete_def board_dropWhile board_takeWhile as_def)
    qed
  qed
qed


subsection \<open>Deletion by rank\<close>

definition board_delete_rank :: "nat \<Rightarrow> nat \<Rightarrow> (double \<times> slobj) list \<Rightarrow> (double \<times> slobj) list \<times> (double \<times> slobj) list" where
  "board_delete_rank start en bd = (take (en - (start - 1)) (drop (start - 1) bd), take (start - 1) bd @ drop (max en (start - 1)) bd)"

lemma decides_rank:
  assumes n: "length xs < 2 ^ 32" and P: "\<And>j. 0 < j \<Longrightarrow> j \<le> length xs \<Longrightarrow> P (of_nat j) \<longleftrightarrow> j \<le> K"
  shows "decides (rank_cond P) xs K"
proof -
  have "(of_nat k :: u64) + ucast (of_nat (j - k) :: u32) = of_nat j" if "k < j" "j \<le> length xs" for k j
    using add_span [of "length xs" "j - k" k, where 'w = 64] that n by (simp add: span_fits_def)
  then show ?thesis using P by (simp add: decides_def rank_cond_def)
qed

lemma unat_of_nat_64: "n < 2 ^ 64 \<Longrightarrow> unat (of_nat n :: u64) = n"
  by (simp add: unat_of_nat)

lemma unat_ucast_32_64: "unat (ucast (w :: u32) :: u64) = unat w"
  using unsigned_less [of w, where 'a = nat] by (simp add: unsigned_ucast_eq take_bit_nat_eq_self)

lemma of_nat_less_ucast:
  assumes "j < 2 ^ 64"
  shows "(of_nat j :: u64) < ucast (w :: u32) \<longleftrightarrow> j < unat w" "(of_nat j :: u64) \<le> ucast (w :: u32) \<longleftrightarrow> j \<le> unat w"
  using unat_of_nat_64 [OF assms] by (simp_all add: word_less_nat_alt word_le_nat_alt unat_ucast_32_64)

text \<open>The deletion loop from position \<open>length as + 1\<close>.\<close>

lemma del_rank_loop_spec:
  assumes "board_ok s (as @ ys)" "upd_ok s as (as @ ys) upd" "length (as @ ys) < 2 ^ 32"
    "t = length as + 1 + m" "removed = of_nat m" "t + length ys \<le> 2 ^ 33"
  shows "\<exists>s' d. d = take (Suc (unat en) - t) ys \<and>
    del_rank_loop s (forward (link_of 0 ys)) upd en (of_nat t) removed cbs =
      Some (of_nat (m + length d), cbs @ map eobj d, s') \<and> board_ok s' (as @ drop (Suc (unat en) - t) ys)"
  using assms
proof (induction ys arbitrary: s t m removed cbs)
  case Nil
  then show ?case by (subst del_rank_loop.simps) (simp add: link_of_def skipn_def)
next
  case (Cons e ys)
  have rep: "rep_core s (as @ e # ys)" using Cons.prems(1) by (rule board_ok_core)
  have fwd: "forward (link_of 0 (e # ys)) = Some (eptr e)" using rep by (simp add: link_of_Cons_tall rep_core_def)
  have le: "(of_nat t :: u64) \<le> ucast en \<longleftrightarrow> t \<le> unat en" using Cons.prems(6) by (intro of_nat_less_ucast) simp
  show ?case
  proof (cases "t \<le> unat en")
    case False
    then show ?thesis using Cons.prems(1,5) by (subst del_rank_loop.simps) (simp add: fwd le)
  next
    case True
    obtain s1 s2 where d: "slDeleteNode s (eptr e) upd = Some s1" "heap s1 (eptr e) = Some (node_of as e ys)"
      "slFreeNode s1 (eptr e) = Some s2" "sl_rep s2 (as @ ys)" "level s2 \<le> level s" "header s2 = header s"
      "dom (heap s2) = dom (heap s) - {eptr e}"
      using slDeleteNode_free [OF rep Cons.prems(2)] by blast
    have b2: "board_ok s2 (as @ ys)" using board_ok_removed [OF Cons.prems(1) d(4,6,7)] .
    have u2: "upd_ok s2 as (as @ ys) upd" using upd_ok_next [OF Cons.prems(2) d(5,6)] .
    have l: "lvl s (eptr e) 0 = Some (link_of 0 ys)"
      using forward_after(1) [OF rep, of "Suc (length as)"] by (simp add: entry_ptr_pos [symmetric])
    have step: "del_rank_loop s (forward (link_of 0 (e # ys))) upd en (of_nat t) removed cbs =
        del_rank_loop s2 (forward (link_of 0 ys)) upd en (of_nat (Suc t)) (removed + 1) (cbs @ [eobj e])"
      using True by (subst del_rank_loop.simps) (simp add: fwd le l d node_of_def add.commute)
    obtain s' where "del_rank_loop s2 (forward (link_of 0 ys)) upd en (of_nat (Suc t)) (removed + 1) (cbs @ [eobj e]) =
        Some (of_nat (Suc m + length (take (Suc (unat en) - Suc t) ys)),
          (cbs @ [eobj e]) @ map eobj (take (Suc (unat en) - Suc t) ys), s')"
      "board_ok s' (as @ drop (Suc (unat en) - Suc t) ys)"
      using Cons.IH [OF b2 u2, of "Suc t" "Suc m" "removed + 1" "cbs @ [eobj e]"] Cons.prems(3-6) by auto
    then show ?thesis using True unfolding step by (simp add: Suc_diff_le)
  qed
qed

lemma slDeleteByRank_board:
  assumes b: "board_ok s xs" and n: "length xs < 2 ^ 32"
  shows "\<exists>s' xs' d. slDeleteByRank s start en = Some (of_nat (length d), map snd d, s') \<and> board_ok s' xs' \<and>
    board_delete_rank (unat start) (unat en) (board xs) = (d, board xs')"
proof -
  define K where "K = min (unat start - 1) (length xs)"
  consider "unat start - 1 \<le> length xs" "K = unat start - 1" | "length xs < unat start - 1" "K = length xs"
    by (fastforce simp: K_def)
  note Kcases = this
  note rep = board_ok_core [OF b]
  have K: "K \<le> length xs" by (simp add: K_def)
  have dec: "decides (rank_cond (\<lambda>t. t < ucast start)) xs K"
  proof (rule decides_rank [OF n])
    show "(of_nat j :: u64) < ucast start \<longleftrightarrow> j \<le> K" if "0 < j" "j \<le> length xs" for j
      using of_nat_less_ucast(1) [of j start] that n by (cases "unat start") (auto simp: K_def)
  qed
  have srch: "sl_descend s (rank_cond (\<lambda>t. t < ucast start)) (level s) (header s) 0 = Some (upd_list s xs K (level s))"
    by (rule search_spec [OF rep dec _ K]) (use n in \<open>simp add: span_fits_def\<close>)
  have upd: "upd_ok s (take K xs) (take K xs @ drop K xs) (map fst (upd_list s xs K (level s) :: (ptr \<times> u64) list))"
    using upd_ok_search [OF K, of s, where 'w = 64] by simp
  have "board_ok s (take K xs @ drop K xs)" using b by simp
  from del_rank_loop_spec [OF this upd, of "K + 1" 0 0 en "[]"] K n
  obtain s' where s': "del_rank_loop s (forward (link_of 0 (drop K xs))) (map fst (upd_list s xs K (level s) :: (ptr \<times> u64) list))
      en (of_nat (K + 1)) 0 [] =
      Some (of_nat (length (take (unat en - K) (drop K xs))), map eobj (take (unat en - K) (drop K xs)), s')"
    "board_ok s' (take K xs @ drop (unat en - K) (drop K xs))"
    by auto
  have "slDeleteByRank s start en =
      Some (of_nat (length (take (unat en - K) (drop K xs))), map eobj (take (unat en - K) (drop K xs)), s')"
    using s'(1) by (simp add: slDeleteByRank_def srch upd_list_0 [OF rep K] forward_after(1) [OF rep K] add.commute)
  moreover have "board_delete_rank (unat start) (unat en) (board xs) =
      (board (take (unat en - K) (drop K xs)), board (take K xs @ drop (unat en - K) (drop K xs)))"
    using Kcases by cases (simp_all add: board_delete_rank_def board_def take_map drop_map max_def)
  ultimately show ?thesis using s'(2) by (auto simp: board_def)
qed

end
