(* ===== verification/Skiplist_Query.thy ===== *)
theory Skiplist_Query
  imports Skiplist_Ops
begin

text \<open>
  The queries of skiplist.c on a score board: ranks, nodes by rank, ranges of scores, and the loops over all
  nodes (dump and free).
\<close>

subsection \<open>The rank of a member\<close>

definition obj_at :: "entry list \<Rightarrow> slobj \<Rightarrow> nat \<Rightarrow> bool" where
  "obj_at xs ob k \<longleftrightarrow> 0 < k \<and> okey (eobj (xs ! (k - 1))) = okey ob"

text \<open>The first level from the top at which the walk stands on the member decides.\<close>

definition rank_seen :: "entry list \<Rightarrow> slobj \<Rightarrow> nat \<Rightarrow> nat \<Rightarrow> nat" where
  "rank_seen xs ob K n =
     (case filter (obj_at xs ob) (map (\<lambda>i. upos i (take K xs)) (rev [0..<n])) of [] \<Rightarrow> 0 | p # _ \<Rightarrow> p)"

lemma rank_seen_Suc:
  "rank_seen xs ob K (Suc n) = (if obj_at xs ob (upos n (take K xs)) then upos n (take K xs) else rank_seen xs ob K n)"
  by (simp add: rank_seen_def)

lemma node_at_pos:
  assumes b: "board_ok s xs" and k: "k \<le> length xs" and ob: "obj_ok ob"
  shows "\<exists>n. heap s (pos_ptr s xs k) = Some n \<and>
    (case nobj n of None \<Rightarrow> False | Some o1 \<Rightarrow> equalslObj o1 ob) = obj_at xs ob k"
proof (cases k)
  case 0
  obtain hn where "heap s (header s) = Some hn" "header_ok hn (level s) xs"
    using board_ok_core [OF b] by (rule rep_header)
  with 0 show ?thesis by (auto simp: pos_ptr_def header_ok_def obj_at_def)
next
  case (Suc j)
  then have "entry_ok (xs ! j)" using b k by (simp add: board_ok_def)
  then show ?thesis
    using Suc rep_node [OF board_ok_core [OF b], of j] k ob
    by (simp add: pos_ptr_def node_of_def obj_at_def equalslObj_def compareslObj_sign entry_ok_def)
qed

lemma get_rank_loop_spec:
  assumes b: "board_ok s xs" and c: "decides (before_cond (\<lambda>c. c \<le> 0) sc ob :: 64 walk_cond) xs K"
    and K: "K \<le> length xs" and fits: "length xs < 2 ^ 32" and ob: "obj_ok ob"
  shows "n \<le> level s \<Longrightarrow> k \<le> K \<Longrightarrow> (\<And>i. i < n \<Longrightarrow> i < pos_h s xs k) \<Longrightarrow>
    get_rank_loop s sc ob n (pos_ptr s xs k) (of_nat k) = Some (of_nat (rank_seen xs ob K n))"
proof (induction n arbitrary: k)
  case 0
  then show ?case by (simp add: rank_seen_def)
next
  case (Suc n)
  let ?k = "upos n (take K xs)"
  note rep = board_ok_core [OF b]
  have fits': "span_fits TYPE(64) (length xs)" using fits by (simp add: span_fits_def)
  have up: "n < pos_h s xs ?k" "?k \<le> K"
    using pos_h_upos [OF rep K] Suc.prems(1) upos_le [of n "take K xs"] K by auto
  have walk: "sl_walk s (before_cond (\<lambda>c. c \<le> 0) sc ob) n (pos_ptr s xs k) (of_nat k) = Some (pos_ptr s xs ?k, of_nat ?k :: u64)"
    using walk_spec [OF rep c fits' K Suc.prems(2), of n] Suc.prems(3) by simp
  obtain m where m: "heap s (pos_ptr s xs ?k) = Some m"
    "(case nobj m of None \<Rightarrow> False | Some o1 \<Rightarrow> equalslObj o1 ob) = obj_at xs ob ?k"
    using node_at_pos [OF b _ ob, of ?k] up(2) K by auto
  have "get_rank_loop s sc ob n (pos_ptr s xs ?k) (of_nat ?k) = Some (of_nat (rank_seen xs ob K n))"
    using Suc.IH [of ?k] up Suc.prems(1) by simp
  then show ?case by (simp only: get_rank_loop.simps walk bind.bind_lunit prod.case m rank_seen_Suc) simp
qed

lemma slGetRank_seen:
  assumes b: "board_ok s xs" and k: "\<not> d_isnan sc" "obj_ok ob" and n: "length xs < 2 ^ 32"
  shows "slGetRank s sc ob = Some (of_nat (rank_seen xs ob (length (takeWhile (\<lambda>e. ekey e \<le> bkey (sc, ob)) xs)) (level s)))"
  using get_rank_loop_spec [OF b decides_le [OF b k] length_takeWhile_le n k(2), of "level s" 0]
  by (simp add: slGetRank_def pos_ptr_def pos_h_def)

text \<open>A member that is on the board once is found; one that is not on it is not.\<close>

lemma rank_seen_absent:
  assumes "\<And>e. e \<in> set (take K xs) \<Longrightarrow> okey (eobj e) \<noteq> okey ob" "K \<le> length xs"
  shows "rank_seen xs ob K n = 0"
proof (induction n)
  case (Suc n)
  have "\<not> obj_at xs ob (upos n (take K xs))"
  proof
    assume "obj_at xs ob (upos n (take K xs))"
    then have p: "0 < upos n (take K xs)" "okey (eobj (xs ! (upos n (take K xs) - 1))) = okey ob" by (auto simp: obj_at_def)
    moreover have "upos n (take K xs) - 1 < K" using upos_le [of n "take K xs"] p(1) assms(2) by simp
    ultimately show False using assms by (metis in_set_conv_nth length_take min.absorb2 nth_take)
  qed
  then show ?case using Suc by (simp add: rank_seen_Suc)
qed (simp add: rank_seen_def)

lemma rank_seen_found:
  assumes rep: "rep_core s xs" and K: "0 < K" "K \<le> length xs" "obj_at xs ob K"
    and uniq: "\<And>j. j < K - 1 \<Longrightarrow> okey (eobj (xs ! j)) \<noteq> okey ob" and n: "0 < n"
  shows "rank_seen xs ob K n = K"
  using n
proof (induction n)
  case (Suc n)
  let ?k = "upos n (take K xs)"
  show ?case
  proof (cases "obj_at xs ob ?k")
    case True
    then have "0 < ?k" "\<not> ?k - 1 < K - 1" using uniq [of "?k - 1"] by (auto simp: obj_at_def)
    then have "?k = K" using upos_le [of n "take K xs"] K(2) by simp
    with True show ?thesis by (simp add: rank_seen_Suc)
  next
    case False
    then have "n \<noteq> 0" using upos_0 [OF rep K(2)] K(3) by metis
    with Suc False show ?thesis by (simp add: rank_seen_Suc)
  qed
qed simp

lemma takeWhile_le_strict:
  assumes "sorted (map f xs)" "r < length xs" "\<And>j. j < length xs \<Longrightarrow> f (xs ! j) = f (xs ! r) \<Longrightarrow> j = r"
  shows "length (takeWhile (\<lambda>e. f e \<le> f (xs ! r)) xs) = Suc r"
proof (rule antisym)
  let ?n = "length (takeWhile (\<lambda>e. f e \<le> f (xs ! r)) xs)"
  have mono: "f (xs ! j) \<le> f (xs ! r)" if "j < j'" "j' < length xs" "f (xs ! j') \<le> f (xs ! r)" for j j'
    using sorted_nth_less [OF assms(1) that(1,2)] that(3) by simp
  have cut: "f (xs ! j) \<le> f (xs ! r) \<longleftrightarrow> Suc j \<le> ?n" if "j < length xs" for j
    using takeWhile_cut [of xs "\<lambda>e. f e \<le> f (xs ! r)" j] mono that by blast
  show "Suc r \<le> ?n" using cut [of r] assms(2) by simp
  show "?n \<le> Suc r"
  proof (rule ccontr)
    assume "\<not> ?n \<le> Suc r"
    then have n: "Suc (Suc r) \<le> ?n" by simp
    then have l: "Suc r < length xs" using length_takeWhile_le [of "\<lambda>e. f e \<le> f (xs ! r)" xs] by simp
    then have "f (xs ! Suc r) \<le> f (xs ! r)" using cut [OF l] n by blast
    moreover have "f (xs ! r) \<le> f (xs ! Suc r)" using sorted_nth_less [OF assms(1) _ l] by simp
    ultimately show False using assms(3) [OF l] by simp
  qed
qed


lemma slGetRank_found:
  assumes b: "board_ok s xs" and n: "length xs < 2 ^ 32" and r: "r < length xs"
    and uniq: "distinct (map (okey \<circ> eobj) xs)"
  shows "slGetRank s (escore (xs ! r)) (eobj (xs ! r)) = Some (of_nat (Suc r))"
proof -
  let ?e = "xs ! r"
  have ok: "\<not> d_isnan (escore ?e)" "obj_ok (eobj ?e)" using b r by (auto simp: board_ok_def entry_ok_def)
  have u: "j = r" if "j < length xs" "okey (eobj (xs ! j)) = okey (eobj ?e)" for j
    using nth_eq_iff_index_eq [OF uniq, of j r] that r by simp
  have K: "length (takeWhile (\<lambda>e. ekey e \<le> bkey (escore ?e, eobj ?e)) xs) = Suc r"
    unfolding bkey_ekey
  proof (rule takeWhile_le_strict)
    show "sorted (map ekey xs)" using b by (simp add: board_ok_def)
  qed (use r u in \<open>auto simp: ekey_def\<close>)
  have "0 < level s" using board_ok_core [OF b] by (simp add: rep_core_def)
  moreover have "okey (eobj (xs ! j)) \<noteq> okey (eobj ?e)" if "j < r" for j using u [of j] that r by auto
  ultimately have "rank_seen xs (eobj ?e) (Suc r) (level s) = Suc r"
    using r by (intro rank_seen_found [OF board_ok_core [OF b]]) (auto simp: obj_at_def)
  then show ?thesis using slGetRank_seen [OF b ok n] K by simp
qed

lemma slGetRank_absent:
  assumes b: "board_ok s xs" and n: "length xs < 2 ^ 32" and k: "\<not> d_isnan sc" "obj_ok ob"
    and no: "\<And>e. e \<in> set xs \<Longrightarrow> okey (eobj e) \<noteq> okey ob"
  shows "slGetRank s sc ob = Some 0"
proof -
  let ?K = "length (takeWhile (\<lambda>e. ekey e \<le> bkey (sc, ob)) xs)"
  have "rank_seen xs ob ?K (level s) = 0"
    using no by (intro rank_seen_absent) (auto dest: in_set_takeD simp: length_takeWhile_le)
  then show ?thesis using slGetRank_seen [OF b k n] by simp
qed

subsection \<open>The node with a rank\<close>

lemma of_nat_64_inj: "m < 2 ^ 64 \<Longrightarrow> n < 2 ^ 64 \<Longrightarrow> (of_nat m :: u64) = of_nat n \<longleftrightarrow> m = n"
  by (metis unat_of_nat_64)

lemma node_rank_loop_spec:
  assumes rep: "rep_core s xs" and K: "K \<le> length xs" and n: "length xs < 2 ^ 32"
  shows "0 < n \<Longrightarrow> n \<le> level s \<Longrightarrow> k \<le> K \<Longrightarrow> (\<And>i. i < n \<Longrightarrow> i < pos_h s xs k) \<Longrightarrow>
    node_rank_loop s (of_nat K) n (pos_ptr s xs k) (of_nat k) = Some (Some (pos_ptr s xs K))"
proof (induction n arbitrary: k)
  case (Suc n)
  let ?k = "upos n (take K xs)"
  have dec: "decides (rank_cond (\<lambda>t. t \<le> of_nat K)) xs K"
    using K assms(3) unat_of_nat_64 by (intro decides_rank) (simp_all add: word_le_nat_alt)
  have up: "n < pos_h s xs ?k" "?k \<le> K"
    using pos_h_upos [OF rep K] Suc.prems(2) upos_le [of n "take K xs"] K by auto
  have walk: "sl_walk s (rank_cond (\<lambda>t. t \<le> of_nat K)) n (pos_ptr s xs k) (of_nat k) = Some (pos_ptr s xs ?k, of_nat ?k)"
    using Suc.prems assms(3) by (intro walk_spec [OF rep dec _ K]) (simp_all add: span_fits_def)
  show ?case
  proof (cases "?k = K")
    case True
    with walk show ?thesis by simp
  next
    case False
    then have "(of_nat ?k :: u64) \<noteq> of_nat K" using of_nat_64_inj [of ?k K] up(2) K assms(3) by simp
    moreover have "0 < n" using False upos_0 [OF rep K] by (cases n) auto
    then have "node_rank_loop s (of_nat K) n (pos_ptr s xs ?k) (of_nat ?k) = Some (Some (pos_ptr s xs K))"
      using Suc.IH [of ?k] up Suc.prems(2) by simp
    ultimately show ?thesis using walk by simp
  qed
qed simp

lemma slGetNodeByRank_spec:
  assumes b: "board_ok s xs" and n: "length xs < 2 ^ 32"
  shows "slGetNodeByRank s rank =
    Some (if rank = 0 \<or> length xs < unat rank then None else Some (eptr (xs ! (unat rank - 1))))"
proof -
  note rep = board_ok_core [OF b]
  have len: "sl_length s = of_nat (length xs)" "0 < level s" using rep by (auto simp: rep_core_def)
  have cmp: "sl_length s < rank \<longleftrightarrow> length xs < unat rank"
    unfolding len word_less_nat_alt using unat_of_nat_64 [of "length xs"] n by simp
  show ?thesis
  proof (cases "rank = 0 \<or> length xs < unat rank")
    case True
    then show ?thesis by (simp add: slGetNodeByRank_def cmp)
  next
    case False
    then have "unat rank \<le> length xs" by simp
    then have "node_rank_loop s rank (level s) (header s) 0 = Some (Some (pos_ptr s xs (unat rank)))"
      using node_rank_loop_spec [OF rep _ n len(2), of "unat rank" 0] by (simp add: pos_ptr_def pos_h_def)
    with False show ?thesis by (auto simp: slGetNodeByRank_def cmp pos_ptr_def unat_eq_0)
  qed
qed


subsection \<open>Ranges of scores\<close>

definition in_reach :: "entry list \<Rightarrow> double \<Rightarrow> double \<Rightarrow> bool" where
  "in_reach xs mn mx \<longleftrightarrow>
     dkey mn \<le> dkey mx \<and> xs \<noteq> [] \<and> dkey mn \<le> dkey (escore (last xs)) \<and> dkey (escore (hd xs)) \<le> dkey mx"

lemma slIsInRange_spec:
  assumes b: "board_ok s xs" and k: "\<not> d_isnan mn" "\<not> d_isnan mx"
  shows "slIsInRange s mn mx = Some (in_reach xs mn mx)"
proof (cases xs rule: rev_cases)
  case Nil
  have "tail_p s = None" using board_ok_core [OF b] Nil by (simp add: rep_core_def prev_of_def)
  with Nil show ?thesis by (simp add: slIsInRange_def in_reach_def)
next
  case (snoc ys e)
  note rep = board_ok_core [OF b]
  have ne: "xs \<noteq> []" "last xs = e" using snoc by auto
  have t: "tail_p s = Some (eptr e)" using rep snoc by (simp add: rep_core_def prev_of_def)
  have he: "heap s (eptr e) = Some (node_of ys e [])" using rep snoc by (simp add: rep_core_def)
  have f0: "lvl s (header s) 0 = Some (link_of 0 xs)" "forward (link_of 0 xs) = Some (eptr (hd xs))"
    using forward_after [OF rep, of 0] ne by (auto simp: pos_ptr_def hd_conv_nth)
  have h0: "heap s (eptr (hd xs)) = Some (node_of [] (hd xs) (tl xs))"
    using rep_node [OF rep, of 0] ne by (simp add: hd_conv_nth drop_Suc)
  have "entry_ok (last xs)" "entry_ok (hd xs)" using b ne(1) by (simp_all add: board_ok_def)
  then show ?thesis
    using k unfolding slIsInRange_def t f0 in_reach_def ne
    by (simp add: he f0 h0 node_of_def d_order_keys entry_ok_def ne not_less)
qed

lemma sorted_scores:
  assumes "board_ok s xs"
  shows "sorted (map (dkey \<circ> escore) xs)"
proof -
  have "sorted_wrt (\<lambda>x y. ekey x \<le> ekey y) xs" using assms by (simp add: board_ok_def sorted_map)
  then show ?thesis unfolding sorted_map by (rule sorted_wrt_mono_rel [rotated]) (auto simp: ekey_def)
qed

lemma decides_score:
  assumes b: "board_ok s xs" and P: "\<And>e. e \<in> set xs \<Longrightarrow> ok (escore e) \<longleftrightarrow> dkey (escore e) < v"
  shows "decides (score_cond ok) xs (length (takeWhile (\<lambda>e. dkey (escore e) < v) xs))"
proof (rule decides_takeWhile)
  show "score_cond ok acc sp (node_of as e bs) = Some (dkey (escore e) < v)" if "e \<in> set xs" for acc sp as e bs
    using P [OF that] by (simp add: score_cond_def node_of_def)
  show "dkey (escore (xs ! j)) < v" if "j < j'" "j' < length xs" "dkey (escore (xs ! j')) < v" for j j'
    using sorted_nth_less [OF sorted_scores [OF b] that(1,2)] that(3) by simp
qed

lemma takeWhile_reach: "xs \<noteq> [] \<Longrightarrow> \<not> P (last xs) \<Longrightarrow> length (takeWhile P xs) < length xs"
  by (induction xs) (auto split: if_splits)

lemma slFirstInRange_spec:
  assumes b: "board_ok s xs" and k: "\<not> d_isnan mn" "\<not> d_isnan mx" and n: "length xs < 2 ^ 32"
  shows "slFirstInRange s mn mx =
    Some (if in_reach xs mn mx then Some (eptr (xs ! length (takeWhile (\<lambda>e. dkey (escore e) < dkey mn) xs))) else None)"
proof (cases "in_reach xs mn mx")
  case True
  let ?K = "length (takeWhile (\<lambda>e. dkey (escore e) < dkey mn) xs)"
  note rep = board_ok_core [OF b]
  have K: "?K < length xs" using True by (intro takeWhile_reach) (auto simp: in_reach_def)
  have "decides (score_cond (\<lambda>d. d_lt d mn)) xs ?K"
    using b k by (intro decides_score [OF b]) (auto simp: board_ok_def entry_ok_def d_order_keys)
  then have "sl_descend s (score_cond (\<lambda>d. d_lt d mn)) (level s) (header s) 0 = Some (upd_list s xs ?K (level s))"
    using n K by (intro search_spec [OF rep]) (simp_all add: span_fits_def)
  then show ?thesis
    using True K forward_after [OF rep, of ?K]
    by (simp add: slFirstInRange_def slIsInRange_spec [OF b k] upd_list_0 [OF rep less_imp_le [OF K]])
qed (simp add: slFirstInRange_def slIsInRange_spec [OF b k])

lemma slLastInRange_spec:
  assumes b: "board_ok s xs" and k: "\<not> d_isnan mn" "\<not> d_isnan mx" and n: "length xs < 2 ^ 32"
  shows "slLastInRange s mn mx =
    Some (if in_reach xs mn mx then Some (eptr (xs ! (length (takeWhile (\<lambda>e. dkey (escore e) \<le> dkey mx) xs) - 1))) else None)"
proof (cases "in_reach xs mn mx")
  case True
  let ?K = "length (takeWhile (\<lambda>e. dkey (escore e) \<le> dkey mx) xs)"
  note rep = board_ok_core [OF b]
  have K: "?K \<le> length xs" "0 < ?K" using True by (auto simp: length_takeWhile_le in_reach_def neq_Nil_conv)
  have "decides (score_cond (\<lambda>d. d_le d mx)) xs (length (takeWhile (\<lambda>e. dkey (escore e) < dkey mx + 1) xs))"
    using b k by (intro decides_score [OF b]) (auto simp: board_ok_def entry_ok_def d_order_keys)
  then have "sl_descend s (score_cond (\<lambda>d. d_le d mx)) (level s) (header s) 0 = Some (upd_list s xs ?K (level s))"
    using n K by (intro search_spec [OF rep]) (simp_all add: span_fits_def)
  then show ?thesis
    using True K by (simp add: slLastInRange_def slIsInRange_spec [OF b k] upd_list_0 [OF rep K(1)] pos_ptr_def)
qed (simp add: slLastInRange_def slIsInRange_spec [OF b k])

subsection \<open>Dump and free\<close>

lemma slDump_loop_spec:
  assumes rep: "rep_core s xs" and "k \<le> length xs"
  shows "slDump_loop s (pos_ptr s xs k) k out =
    Some (out @ map (\<lambda>j. (Suc j, escore (xs ! j), eobj (xs ! j))) [k..<length xs])"
  using assms(2)
proof (induction "length xs - k" arbitrary: k out)
  case 0
  then show ?case using forward_after [OF rep, of k] by (subst slDump_loop.simps) simp
next
  case (Suc m)
  then have k: "k < length xs" by simp
  have "slDump_loop s (pos_ptr s xs k) k out =
      slDump_loop s (pos_ptr s xs (Suc k)) (Suc k) (out @ [(Suc k, escore (xs ! k), eobj (xs ! k))])"
    using forward_after [OF rep, of k] rep_node [OF rep k] k
    by (subst slDump_loop.simps) (simp add: node_of_def pos_ptr_def)
  then show ?case using Suc.hyps(1) [of "Suc k"] Suc.hyps(2) k by (simp add: upt_conv_Cons)
qed

lemma slDump_spec:
  assumes "rep_core s xs"
  shows "slDump s = Some (map (\<lambda>j. (Suc j, escore (xs ! j), eobj (xs ! j))) [0..<length xs])"
  using slDump_loop_spec [OF assms, of 0 "[]"] by (simp add: slDump_def pos_ptr_def)

lemma slFree_loop_spec:
  assumes "\<And>k. k < length ys \<Longrightarrow> lvl s (eptr (ys ! k)) 0 = Some (link_of 0 (drop (Suc k) ys))"
    and "distinct (map eptr ys)" and "\<forall>e \<in> set ys. 1 \<le> eh e"
  shows "\<exists>s'. slFree_loop s (forward (link_of 0 ys)) = Some s' \<and> dom (heap s') = dom (heap s) - eptr ` set ys"
  using assms
proof (induction ys arbitrary: s)
  case Nil
  then show ?case by (subst slFree_loop.simps) (simp add: link_of_none)
next
  case (Cons e ys)
  let ?s = "s\<lparr>heap := (heap s)(eptr e := None)\<rparr>"
  have l: "lvl s (eptr e) 0 = Some (link_of 0 ys)" using Cons.prems(1) [of 0] by simp
  have "lvl ?s (eptr (ys ! k)) 0 = Some (link_of 0 (drop (Suc k) ys))" if k: "k < length ys" for k
  proof -
    have "eptr (ys ! k) \<noteq> eptr e" using Cons.prems(2) k by (metis distinct.simps(2) image_eqI list.simps(9) list.set_map nth_mem)
    then show ?thesis using Cons.prems(1) [of "Suc k"] k by (simp add: lvl_def)
  qed
  moreover have "distinct (map eptr ys)" "\<forall>e \<in> set ys. 1 \<le> eh e" using Cons.prems(2,3) by simp_all
  ultimately obtain s' where "slFree_loop ?s (forward (link_of 0 ys)) = Some s'" "dom (heap s') = dom (heap ?s) - eptr ` set ys"
    using Cons.IH [of ?s] by blast
  moreover have "slFreeNode s (eptr e) = Some ?s" using l by (auto simp: slFreeNode_def lvl_def split: option.splits)
  moreover have "forward (link_of 0 (e # ys)) = Some (eptr e)" using Cons.prems(3) by (simp add: link_of_Cons_tall)
  ultimately show ?case using l by (subst slFree_loop.simps) auto
qed

lemma slFree_spec:
  assumes b: "board_ok s xs"
  shows "\<exists>s'. slFree s = Some s' \<and> heap s' = Map.empty"
proof -
  note rep = board_ok_core [OF b]
  let ?s = "s\<lparr>heap := (heap s)(header s := None)\<rparr>"
  have d: "distinct (header s # map eptr xs)" "\<forall>e \<in> set xs. 1 \<le> eh e" using rep by (auto simp: rep_core_def)
  have l: "lvl s (header s) 0 = Some (link_of 0 xs)" using forward_after(1) [OF rep, of 0] by (simp add: pos_ptr_def)
  have "lvl ?s (eptr (xs ! k)) 0 = Some (link_of 0 (drop (Suc k) xs))" if k: "k < length xs" for k
  proof -
    have "eptr (xs ! k) \<noteq> header s" using d(1) k by (metis distinct.simps(2) image_eqI list.set_map nth_mem)
    then show ?thesis using forward_after(1) [OF rep, of "Suc k"] k by (simp add: lvl_def pos_ptr_def)
  qed
  then obtain s' where s': "slFree_loop ?s (forward (link_of 0 xs)) = Some s'" "dom (heap s') = dom (heap ?s) - eptr ` set xs"
    using slFree_loop_spec [of xs ?s] d(2) distinct.simps(2) [THEN iffD1, OF d(1)] by blast
  have "slFreeNode s (header s) = Some ?s" using l by (auto simp: slFreeNode_def lvl_def split: option.splits)
  then have "slFree s = Some s'" using s'(1) l by (simp add: slFree_def)
  moreover have "dom (heap s') = {}" using s'(2) b by (auto simp: board_ok_def)
  ultimately show ?thesis by auto
qed

end
