(* ===== verification/Skiplist_Lua.thy ===== *)
theory Skiplist_Lua
  imports Skiplist_Query
begin

text \<open>
  server/lualib-src/skiplist/lua-skiplist.c: the Lua methods of the skiplist. A Lua string is its bytes, with a
  zero after them; an integer argument is its 64-bit pattern. A method that pushes no result gives \<open>None\<close> inside
  the option for undefined behaviour. The callback of \<^verbatim>\<open>delete_by_rank\<close> is given the members in order; it is
  taken not to call back into the list it is called from.
\<close>

definition lua_obj :: "bytes \<Rightarrow> slobj" where
  "lua_obj mb = \<lparr>obj_ptr = mb @ [0], obj_length = length mb\<rparr>"

definition lua_insert :: "skiplist \<Rightarrow> u64 list \<Rightarrow> double \<Rightarrow> bytes \<Rightarrow> (skiplist \<times> u64 list) option" where
  "lua_insert s rs sc mb = do { ob \<leftarrow> slCreateObj (mb @ [0]) (length mb); slInsert s rs sc ob }"

definition lua_delete :: "skiplist \<Rightarrow> double \<Rightarrow> bytes \<Rightarrow> (bool \<times> skiplist) option" where
  "lua_delete s sc mb = slDelete s sc (lua_obj mb)"

definition delete_rank_cb :: "slobj \<Rightarrow> bytes" where
  "delete_rank_cb ob = take (obj_length ob) (obj_ptr ob)"

definition lua_delete_by_rank :: "skiplist \<Rightarrow> u64 \<Rightarrow> u64 \<Rightarrow> (u64 \<times> bytes list \<times> skiplist) option" where
  "lua_delete_by_rank s a b =
     (let start = ucast a :: u32; en = ucast b :: u32;
          (start, en) = (if start > en then (en, start) else (start, en))
      in do { (n, obs, s') \<leftarrow> slDeleteByRank s start en; Some (n, map delete_rank_cb obs, s') })"

definition lua_get_count :: "skiplist \<Rightarrow> u64" where
  "lua_get_count s = sl_length s"

definition lua_get_rank :: "skiplist \<Rightarrow> double \<Rightarrow> bytes \<Rightarrow> u64 option option" where
  "lua_get_rank s sc mb = do { rank \<leftarrow> slGetRank s sc (lua_obj mb); Some (if rank = 0 then None else Some rank) }"

text \<open>The loops of the two range methods; \<^verbatim>\<open>n\<close> counts the members pushed so far.\<close>

definition next_node :: "skiplist \<Rightarrow> bool \<Rightarrow> ptr \<Rightarrow> sl_node \<Rightarrow> ptr option option" where
  "next_node s reverse p n = (if reverse then Some (backward n) else map_option forward (lvl s p 0))"

partial_function (option) rank_range_loop ::
  "skiplist \<Rightarrow> bool \<Rightarrow> int \<Rightarrow> ptr option \<Rightarrow> int \<Rightarrow> bytes list \<Rightarrow> bytes list option" where
  "rank_range_loop s reverse rangelen node n out =
     (case node of None \<Rightarrow> Some out
      | Some p \<Rightarrow>
          if n < rangelen then
            do { nd \<leftarrow> heap s p;
                 ob \<leftarrow> nobj nd;
                 nx \<leftarrow> next_node s reverse p nd;
                 rank_range_loop s reverse rangelen nx (n + 1) (out @ [delete_rank_cb ob]) }
          else Some out)"

definition lua_get_rank_range :: "skiplist \<Rightarrow> u64 \<Rightarrow> u64 \<Rightarrow> bytes list option" where
  "lua_get_rank_range s r1 r2 =
     (let (reverse, rangelen) =
            (if r1 \<le> r2 then (False, sint (ucast (r2 - r1 + 1) :: 32 word))
             else (True, sint (ucast (r1 - r2 + 1) :: 32 word)))
      in do { node \<leftarrow> slGetNodeByRank s r1; rank_range_loop s reverse rangelen node 0 [] })"

partial_function (option) score_range_loop ::
  "skiplist \<Rightarrow> bool \<Rightarrow> double \<Rightarrow> ptr option \<Rightarrow> bytes list \<Rightarrow> bytes list option" where
  "score_range_loop s reverse s2 node out =
     (case node of None \<Rightarrow> Some out
      | Some p \<Rightarrow>
          do { nd \<leftarrow> heap s p;
               if (if reverse then d_lt (score nd) s2 else d_lt s2 (score nd)) then Some out
               else do { ob \<leftarrow> nobj nd;
                         nx \<leftarrow> next_node s reverse p nd;
                         score_range_loop s reverse s2 nx (out @ [delete_rank_cb ob]) } })"

definition lua_get_score_range :: "skiplist \<Rightarrow> double \<Rightarrow> double \<Rightarrow> bytes list option" where
  "lua_get_score_range s s1 s2 =
     (if d_le s1 s2 then do { node \<leftarrow> slFirstInRange s s1 s2; score_range_loop s False s2 node [] }
      else do { node \<leftarrow> slLastInRange s s2 s1; score_range_loop s True s2 node [] })"

definition lua_dump :: "skiplist \<Rightarrow> (nat \<times> double \<times> slobj) list option" where
  "lua_dump s = slDump s"

definition lua_new :: "skiplist option" where
  "lua_new = slCreate"

definition lua_release :: "skiplist \<Rightarrow> skiplist option" where
  "lua_release s = slFree s"

subsection \<open>Objects\<close>

lemma lua_obj_simps [simp]:
  "okey (lua_obj mb) = mb" "delete_rank_cb ob = okey ob"
  by (simp_all add: okey_def lua_obj_def delete_rank_cb_def)

lemma lua_obj_ok [simp]: "obj_ok (lua_obj mb) \<longleftrightarrow> length mb < 2 ^ 31"
  by (simp add: obj_ok_def lua_obj_def)

lemma slCreateObj_lua: "slCreateObj (mb @ [0]) (length mb) = Some (lua_obj mb)"
  by (simp add: slCreateObj_def lua_obj_def)

subsection \<open>The range loops\<close>

lemma heap_at:
  assumes "rep_core s xs" "k < length xs"
  shows "heap s (eptr (xs ! k)) = Some (node_of (take k xs) (xs ! k) (drop (Suc k) xs))"
    "lvl s (eptr (xs ! k)) 0 = Some (link_of 0 (drop (Suc k) xs))"
    "forward (link_of 0 (drop (Suc k) xs)) = (if Suc k < length xs then Some (eptr (xs ! Suc k)) else None)"
  using rep_node [OF assms] forward_after [OF assms(1), of "Suc k"] assms(2) by (simp_all add: pos_ptr_def)

definition ptr_at :: "entry list \<Rightarrow> nat \<Rightarrow> ptr option" where
  "ptr_at xs k = (if k < length xs then Some (eptr (xs ! k)) else None)"

lemma rank_range_forward:
  assumes rep: "rep_core s xs"
  shows "rank_range_loop s False (int m) (ptr_at xs k) (int n) out = Some (out @ map (okey \<circ> eobj) (take (m - n) (drop k xs)))"
proof (induction "length xs - k" arbitrary: k n out)
  case 0
  then show ?case by (subst rank_range_loop.simps) (simp add: ptr_at_def)
next
  case (Suc d)
  then have k: "k < length xs" by simp
  show ?case
  proof (cases "n < m")
    case True
    have "rank_range_loop s False (int m) (ptr_at xs k) (int n) out =
        rank_range_loop s False (int m) (ptr_at xs (Suc k)) (int (Suc n)) (out @ [okey (eobj (xs ! k))])"
      using True k heap_at [OF rep k]
      by (subst rank_range_loop.simps) (simp add: ptr_at_def next_node_def node_of_def add.commute)
    also have "\<dots> = Some ((out @ [okey (eobj (xs ! k))]) @ map (okey \<circ> eobj) (take (m - Suc n) (drop (Suc k) xs)))"
      using Suc.hyps by (intro Suc.hyps(1)) simp
    finally show ?thesis
      using True k by (simp add: Cons_nth_drop_Suc [symmetric] Suc_diff_Suc [symmetric] del: Suc_diff_Suc)
  qed (use k in \<open>subst rank_range_loop.simps, simp add: ptr_at_def\<close>)
qed

lemma rank_range_backward:
  assumes rep: "rep_core s xs" and "k < length xs"
  shows "rank_range_loop s True (int m) (Some (eptr (xs ! k))) (int n) out =
    Some (out @ map (okey \<circ> eobj) (take (m - n) (rev (take (Suc k) xs))))"
  using assms(2)
proof (induction k arbitrary: n out)
  case 0
  have b: "backward (node_of (take 0 xs) (xs ! 0) (drop (Suc 0) xs)) = None" by (simp add: node_of_def prev_of_def)
  show ?case
  proof (cases "n < m")
    case True
    then have "rank_range_loop s True (int m) (Some (eptr (xs ! 0))) (int n) out = Some (out @ [okey (eobj (xs ! 0))])"
      using heap_at(1) [OF rep 0]
      by (subst rank_range_loop.simps) (simp add: next_node_def node_of_def prev_of_def rank_range_loop.simps)
    with True 0 show ?thesis by (cases xs) (auto simp: take_Cons' )
  qed (subst rank_range_loop.simps, simp)
next
  case (Suc k)
  show ?case
  proof (cases "n < m")
    case True
    have p: "prev_of (take (Suc k) xs) = Some (eptr (xs ! k))"
      using Suc.prems by (simp add: prev_of_def take_Suc_conv_app_nth)
    have "rank_range_loop s True (int m) (Some (eptr (xs ! Suc k))) (int n) out =
        rank_range_loop s True (int m) (Some (eptr (xs ! k))) (int (Suc n)) (out @ [okey (eobj (xs ! Suc k))])"
      using True heap_at(1) [OF rep Suc.prems]
      by (subst rank_range_loop.simps) (simp add: next_node_def node_of_def p add.commute)
    also have "\<dots> = Some ((out @ [okey (eobj (xs ! Suc k))]) @ map (okey \<circ> eobj) (take (m - Suc n) (rev (take (Suc k) xs))))"
      using Suc.prems by (intro Suc.IH) simp
    finally show ?thesis
      using True Suc.prems
      by (simp add: take_Suc_conv_app_nth [of "Suc k"] Suc_diff_Suc [symmetric] del: Suc_diff_Suc)
  qed (subst rank_range_loop.simps, simp)
qed


lemma score_range_forward:
  assumes b: "board_ok s xs" and s2: "\<not> d_isnan s2"
  shows "score_range_loop s False s2 (ptr_at xs k) out =
    Some (out @ map (okey \<circ> eobj) (takeWhile (\<lambda>e. dkey (escore e) \<le> dkey s2) (drop k xs)))"
proof (induction "length xs - k" arbitrary: k out)
  case 0
  then show ?case by (subst score_range_loop.simps) (simp add: ptr_at_def)
next
  case (Suc d)
  then have k: "k < length xs" by simp
  then have "entry_ok (xs ! k)" using b by (simp add: board_ok_def)
  then have lt: "d_lt s2 (escore (xs ! k)) \<longleftrightarrow> \<not> dkey (escore (xs ! k)) \<le> dkey s2"
    using s2 by (simp add: entry_ok_def d_order_keys not_le)
  show ?case
  proof (cases "dkey (escore (xs ! k)) \<le> dkey s2")
    case True
    then have "score_range_loop s False s2 (ptr_at xs k) out =
        score_range_loop s False s2 (ptr_at xs (Suc k)) (out @ [okey (eobj (xs ! k))])"
      using k heap_at [OF board_ok_core [OF b] k] lt
      by (subst score_range_loop.simps) (simp add: ptr_at_def next_node_def node_of_def)
    with True k Suc.hyps(1) [of "Suc k"] Suc.hyps(2) show ?thesis by (simp add: Cons_nth_drop_Suc [symmetric])
  next
    case False
    then show ?thesis
      using k heap_at(1) [OF board_ok_core [OF b] k] lt
      by (subst score_range_loop.simps) (simp add: ptr_at_def node_of_def Cons_nth_drop_Suc [symmetric])
  qed
qed

lemma score_range_backward:
  assumes b: "board_ok s xs" and s2: "\<not> d_isnan s2" and "k \<le> length xs"
  shows "score_range_loop s True s2 (prev_of (take k xs)) out =
    Some (out @ map (okey \<circ> eobj) (takeWhile (\<lambda>e. dkey s2 \<le> dkey (escore e)) (rev (take k xs))))"
  using assms(3)
proof (induction k arbitrary: out)
  case 0
  then show ?case by (subst score_range_loop.simps) (simp add: prev_of_def)
next
  case (Suc k)
  then have k: "k < length xs" by simp
  then have "entry_ok (xs ! k)" using b by (simp add: board_ok_def)
  then have lt: "d_lt (escore (xs ! k)) s2 \<longleftrightarrow> \<not> dkey s2 \<le> dkey (escore (xs ! k))"
    using s2 by (simp add: entry_ok_def d_order_keys not_le)
  have p: "prev_of (take (Suc k) xs) = Some (eptr (xs ! k))" "take (Suc k) xs = take k xs @ [xs ! k]"
    using k by (simp_all add: prev_of_def take_Suc_conv_app_nth)
  show ?case
  proof (cases "dkey s2 \<le> dkey (escore (xs ! k))")
    case True
    then have "score_range_loop s True s2 (prev_of (take (Suc k) xs)) out =
        score_range_loop s True s2 (prev_of (take k xs)) (out @ [okey (eobj (xs ! k))])"
      using heap_at(1) [OF board_ok_core [OF b] k] lt
      by (subst score_range_loop.simps) (simp add: p(1) next_node_def node_of_def)
    with True k Suc.IH show ?thesis by (simp add: p(2))
  next
    case False
    then show ?thesis
      using heap_at(1) [OF board_ok_core [OF b] k] lt
      by (subst score_range_loop.simps) (simp add: p(1) node_of_def, simp add: p(2))
  qed
qed

subsection \<open>Segments of an ordered list\<close>

lemma takeWhile_sorted: "sorted (map f xs) \<Longrightarrow> takeWhile (\<lambda>e. f e \<le> (v :: int)) xs = filter (\<lambda>e. f e \<le> v) xs"
  by (induction xs) (auto simp: filter_empty_conv eq_commute [of "[]"])

lemma takeWhile_rev_sorted:
  "sorted (map f xs) \<Longrightarrow> takeWhile (\<lambda>e. (v :: int) \<le> f e) (rev xs) = rev (filter (\<lambda>e. v \<le> f e) xs)"
  by (induction xs rule: rev_induct) (auto simp: filter_empty_conv sorted_append)

lemma dropWhile_sorted: "sorted (map f xs) \<Longrightarrow> dropWhile (\<lambda>e. f e < (v :: int)) xs = filter (\<lambda>e. v \<le> f e) xs"
proof (induction xs)
  case (Cons x xs)
  then show ?case by (auto intro!: filter_True [symmetric])
qed simp

lemma not_reach_empty:
  assumes b: "board_ok s xs" and "\<not> in_reach xs mn mx"
  shows "filter (\<lambda>e. dkey mn \<le> dkey (escore e) \<and> dkey (escore e) \<le> dkey mx) xs = []"
proof (cases xs)
  case (Cons x ys)
  note sorted = sorted_scores [OF b]
  have mono: "dkey (escore (xs ! i)) \<le> dkey (escore (xs ! j))" if "i \<le> j" "j < length xs" for i j
    using sorted_nth_mono [OF sorted that(1)] that by simp
  have "dkey (escore (hd xs)) \<le> dkey (escore e) \<and> dkey (escore e) \<le> dkey (escore (last xs))" if e: "e \<in> set xs" for e
  proof -
    from e obtain j where j: "j < length xs" "e = xs ! j" by (auto simp: in_set_conv_nth)
    moreover have "xs \<noteq> []" using e by auto
    ultimately show ?thesis
      using mono [of 0 j] mono [of j "length xs - 1"] by (simp add: last_conv_nth hd_conv_nth)
  qed
  then have "in_reach xs mn mx" if "e \<in> set xs" "dkey mn \<le> dkey (escore e)" "dkey (escore e) \<le> dkey mx" for e
    using that Cons by (force simp: in_reach_def)
  with assms(2) show ?thesis by (auto simp: filter_empty_conv)
qed simp

definition in_scores :: "double \<Rightarrow> double \<Rightarrow> (double \<times> slobj) \<Rightarrow> bool" where
  "in_scores mn mx p \<longleftrightarrow> dkey mn \<le> dkey (fst p) \<and> dkey (fst p) \<le> dkey mx"

lemma filter_board: "map (okey \<circ> snd) (filter (in_scores mn mx) (board xs)) =
    map (okey \<circ> eobj) (filter (\<lambda>e. dkey mn \<le> dkey (escore e) \<and> dkey (escore e) \<le> dkey mx) xs)"
  by (induction xs) (auto simp: board_def in_scores_def)

lemma score_range_up:
  assumes b: "board_ok s xs" and n: "length xs < 2 ^ 32" and le: "d_le s1 s2"
  shows "lua_get_score_range s s1 s2 = Some (map (okey \<circ> snd) (filter (in_scores s1 s2) (board xs)))"
proof -
  have k: "\<not> d_isnan s1" "\<not> d_isnan s2" using le by (auto simp: d_le_def)
  note sorted = sorted_scores [OF b, unfolded comp_def]
  let ?K = "length (takeWhile (\<lambda>e. dkey (escore e) < dkey s1) xs)"
  show ?thesis
  proof (cases "in_reach xs s1 s2")
    case True
    then have "?K < length xs" by (intro takeWhile_reach) (auto simp: in_reach_def)
    then have "slFirstInRange s s1 s2 = Some (ptr_at xs ?K)" using True slFirstInRange_spec [OF b k n] by (simp add: ptr_at_def)
    moreover have "takeWhile (\<lambda>e. dkey (escore e) \<le> dkey s2) (drop ?K xs) =
        filter (\<lambda>e. dkey s1 \<le> dkey (escore e) \<and> dkey (escore e) \<le> dkey s2) xs"
      using sorted by (simp add: dropWhile_eq_drop [symmetric] dropWhile_sorted takeWhile_sorted sorted_filter conj_commute)
    ultimately show ?thesis
      using le score_range_forward [OF b k(2), of ?K "[]"] by (simp add: lua_get_score_range_def filter_board)
  next
    case False
    then show ?thesis
      using le not_reach_empty [OF b False] slFirstInRange_spec [OF b k n]
      by (simp add: lua_get_score_range_def filter_board score_range_loop.simps)
  qed
qed

lemma score_range_down:
  assumes b: "board_ok s xs" and n: "length xs < 2 ^ 32" and lt: "d_lt s2 s1"
  shows "lua_get_score_range s s1 s2 = Some (rev (map (okey \<circ> snd) (filter (in_scores s2 s1) (board xs))))"
proof -
  have k: "\<not> d_isnan s2" "\<not> d_isnan s1" and nle: "\<not> d_le s1 s2" using lt by (auto simp: d_lt_def d_le_def)
  note sorted = sorted_scores [OF b, unfolded comp_def]
  let ?K = "length (takeWhile (\<lambda>e. dkey (escore e) \<le> dkey s1) xs)"
  show ?thesis
  proof (cases "in_reach xs s2 s1")
    case True
    then have K: "0 < ?K" "?K \<le> length xs" by (auto simp: length_takeWhile_le in_reach_def neq_Nil_conv)
    then have "prev_of (take ?K xs) = Some (eptr (xs ! (?K - 1)))"
      by (cases ?K) (simp_all add: prev_of_def take_Suc_conv_app_nth Suc_le_eq)
    then have "slLastInRange s s2 s1 = Some (prev_of (take ?K xs))" using True slLastInRange_spec [OF b k n] by simp
    moreover have "takeWhile (\<lambda>e. dkey s2 \<le> dkey (escore e)) (rev (take ?K xs)) =
        rev (filter (\<lambda>e. dkey s2 \<le> dkey (escore e) \<and> dkey (escore e) \<le> dkey s1) xs)"
      unfolding takeWhile_eq_take [symmetric]
      using sorted by (simp add: takeWhile_sorted takeWhile_rev_sorted sorted_filter conj_commute)
    ultimately show ?thesis
      using nle score_range_backward [OF b k(1) K(2), of "[]"]
      by (simp add: lua_get_score_range_def filter_board rev_map)
  next
    case False
    then show ?thesis
      using nle not_reach_empty [OF b False] slLastInRange_spec [OF b k n]
      by (simp add: lua_get_score_range_def filter_board score_range_loop.simps)
  qed
qed

end
