(* ===== verification/Skiplist_Props.thy ===== *)
theory Skiplist_Props
  imports Skiplist_Lua "HOL-Library.Multiset"
begin

text \<open>
  The properties of the score board as Lua sees it. \<open>sl_op\<close> is a call of a method that changes the list,
  \<open>run_op\<close> what the C code does for it and \<open>spec_op\<close> what it means on the ordered list of scores and members.
\<close>

datatype sl_op =
    OpInsert "u64 list" double bytes
  | OpDelete double bytes
  | OpDeleteByRank u64 u64

datatype sl_result = RNone | RBool bool | RRemoved u64 "bytes list"

fun run_op :: "skiplist \<Rightarrow> sl_op \<Rightarrow> (sl_result \<times> skiplist) option" where
  "run_op s (OpInsert rs sc mb) = map_option (\<lambda>(s', _). (RNone, s')) (lua_insert s rs sc mb)"
| "run_op s (OpDelete sc mb) = map_option (\<lambda>(b, s'). (RBool b, s')) (lua_delete s sc mb)"
| "run_op s (OpDeleteByRank a b) = map_option (\<lambda>(n, ms, s'). (RRemoved n ms, s')) (lua_delete_by_rank s a b)"

definition spec_delete_by_rank :: "u64 \<Rightarrow> u64 \<Rightarrow> (double \<times> slobj) list \<Rightarrow> (double \<times> slobj) list \<times> (double \<times> slobj) list" where
  "spec_delete_by_rank a b bd =
     (let i = unat (ucast a :: u32); j = unat (ucast b :: u32) in board_delete_rank (min i j) (max i j) bd)"

fun spec_op :: "(double \<times> slobj) list \<Rightarrow> sl_op \<Rightarrow> sl_result \<times> (double \<times> slobj) list" where
  "spec_op bd (OpInsert rs sc mb) = (RNone, board_insert sc (lua_obj mb) bd)"
| "spec_op bd (OpDelete sc mb) = (case board_delete sc (lua_obj mb) bd of (b, bd') \<Rightarrow> (RBool b, bd'))"
| "spec_op bd (OpDeleteByRank a b) =
     (case spec_delete_by_rank a b bd of (d, bd') \<Rightarrow> (RRemoved (of_nat (length d)) (map (okey \<circ> snd) d), bd'))"

text \<open>Scores are not NaN, members shorter than \<open>2^31\<close>, and \<^verbatim>\<open>random()\<close> ends the loop of \<^verbatim>\<open>slRandomLevel\<close>.\<close>

fun op_ok :: "sl_op \<Rightarrow> bool" where
  "op_ok (OpInsert rs sc mb) \<longleftrightarrow> \<not> d_isnan sc \<and> length mb < 2 ^ 31 \<and> slRandomLevel rs \<noteq> None"
| "op_ok (OpDelete sc mb) \<longleftrightarrow> \<not> d_isnan sc \<and> length mb < 2 ^ 31"
| "op_ok (OpDeleteByRank a b) \<longleftrightarrow> True"

fun run_ops :: "skiplist \<Rightarrow> sl_op list \<Rightarrow> (sl_result list \<times> skiplist) option" where
  "run_ops s [] = Some ([], s)"
| "run_ops s (c # cs) = do { (r, s1) \<leftarrow> run_op s c; (rs, s2) \<leftarrow> run_ops s1 cs; Some (r # rs, s2) }"

fun spec_ops :: "(double \<times> slobj) list \<Rightarrow> sl_op list \<Rightarrow> sl_result list \<times> (double \<times> slobj) list" where
  "spec_ops bd [] = ([], bd)"
| "spec_ops bd (c # cs) = (let (r, b1) = spec_op bd c; (rs, b2) = spec_ops b1 cs in (r # rs, b2))"

subsection \<open>One step\<close>

lemma lua_delete_by_rank_board:
  assumes b: "board_ok s xs" and n: "length xs < 2 ^ 32"
  shows "\<exists>s' xs' d. lua_delete_by_rank s i j = Some (of_nat (length d), map (okey \<circ> snd) d, s') \<and> board_ok s' xs' \<and>
    spec_delete_by_rank i j (board xs) = (d, board xs')"
proof -
  let ?i = "ucast i :: u32" and ?j = "ucast j :: u32"
  have mm: "unat (if ?i > ?j then ?j else ?i) = min (unat ?i) (unat ?j)" "unat (if ?i > ?j then ?i else ?j) = max (unat ?i) (unat ?j)"
    by (auto simp: word_less_nat_alt)
  obtain s' xs' d where "slDeleteByRank s (if ?i > ?j then ?j else ?i) (if ?i > ?j then ?i else ?j) =
      Some (of_nat (length d), map snd d, s')" "board_ok s' xs'"
    "board_delete_rank (min (unat ?i) (unat ?j)) (max (unat ?i) (unat ?j)) (board xs) = (d, board xs')"
    using slDeleteByRank_board [OF b n] unfolding mm [symmetric] by blast
  then show ?thesis
    by (intro exI [of _ s'] exI [of _ xs'] exI [of _ d])
      (auto simp: lua_delete_by_rank_def spec_delete_by_rank_def Let_def)
qed

lemma run_op_step:
  assumes b: "board_ok s xs" and ok: "op_ok c" and n: "length xs < 2 ^ 32"
  shows "\<exists>s' xs'. run_op s c = Some (fst (spec_op (board xs) c), s') \<and> board_ok s' xs' \<and>
    board xs' = snd (spec_op (board xs) c)"
proof (cases c)
  case (OpInsert rs sc mb)
  then obtain lv rs' where "slRandomLevel rs = Some (lv, rs')" using ok by auto
  then show ?thesis
    using slInsert_board [OF b, of sc "lua_obj mb"] OpInsert ok by (fastforce simp: lua_insert_def slCreateObj_lua)
next
  case (OpDelete sc mb)
  then show ?thesis
    using slDelete_board [OF b, of sc "lua_obj mb"] ok n
    by (fastforce simp: lua_delete_def split: prod.splits)
next
  case (OpDeleteByRank i j)
  then show ?thesis
    using lua_delete_by_rank_board [OF b n, of i j] by fastforce
qed

lemma board_length_step:
  "length (snd (spec_op bd c)) \<le> Suc (length bd)"
proof (cases c)
  case (OpInsert rs sc mb)
  then show ?thesis
    by (simp add: board_insert_def) (metis le_refl length_append takeWhile_dropWhile_id)
next
  case (OpDelete sc mb)
  let ?P = "\<lambda>p. bkey p < bkey (sc, lua_obj mb)"
  have "length bd = length (takeWhile ?P bd) + length (dropWhile ?P bd)"
    by (metis length_append takeWhile_dropWhile_id)
  with OpDelete show ?thesis by (auto simp: board_delete_def split: list.splits)
next
  case (OpDeleteByRank i j)
  then show ?thesis by (auto simp: spec_delete_by_rank_def board_delete_rank_def Let_def)
qed

lemma run_ops_refine:
  assumes "board_ok s xs" "\<forall>c \<in> set cs. op_ok c" "length xs + length cs < 2 ^ 32"
  shows "\<exists>s' xs'. run_ops s cs = Some (fst (spec_ops (board xs) cs), s') \<and> board_ok s' xs' \<and>
    board xs' = snd (spec_ops (board xs) cs)"
  using assms
proof (induction cs arbitrary: s xs)
  case (Cons c cs)
  obtain s1 xs1 where 1: "run_op s c = Some (fst (spec_op (board xs) c), s1)" "board_ok s1 xs1"
    "board xs1 = snd (spec_op (board xs) c)"
    using run_op_step [of s xs c] Cons.prems by auto
  have "length xs1 \<le> Suc (length xs)" using board_length_step [of "board xs" c] 1(3) by (metis length_board)
  then obtain s' xs' where "run_ops s1 cs = Some (fst (spec_ops (board xs1) cs), s')" "board_ok s' xs'"
    "board xs' = snd (spec_ops (board xs1) cs)"
    using Cons.IH [OF 1(2)] Cons.prems by auto
  with 1 show ?case by (auto simp: split_beta Let_def)
qed auto


subsection \<open>A small board for the witnesses\<close>

definition demo_ops :: "sl_op list" where
  "demo_ops = [OpInsert [0xffff] 0x4000000000000000 [98], OpInsert [0xffff] 0x3FF0000000000000 [97]]"

definition demo_board :: "(double \<times> slobj) list" where
  "demo_board = [(0x3FF0000000000000, lua_obj [97]), (0x4000000000000000, lua_obj [98])]"

lemma demo_random: "slRandomLevel [0xffff] = Some (1, [])"
  by (simp add: slRandomLevel_def SKIPLIST_MAXLEVEL_def)

lemma demo_scores:
  "\<not> d_isnan 0x4000000000000000" "\<not> d_isnan 0x3FF0000000000000" "\<not> d_isnan 0x3FF8000000000000"
  "\<not> d_isnan 0x4008000000000000"
  by (simp_all add: d_isnan_def dmag_def)

lemma demo_ok: "\<forall>c \<in> set demo_ops. op_ok c" "length demo_ops = 2"
  by (simp_all add: demo_ops_def demo_random demo_scores)

lemma demo_spec: "spec_ops [] demo_ops = ([RNone, RNone], demo_board)"
  by (simp add: demo_ops_def demo_board_def board_insert_def bkey_def dkey_def dneg_def dmag_def lua_obj_simps)

lemma demo_state: "\<exists>s xs. board_ok s xs \<and> board xs = demo_board \<and> length xs = 2"
proof -
  obtain s0 where "slCreate = Some s0" "board_ok s0 []" using board_ok_new by blast
  then obtain s xs where "board_ok s xs" "board xs = demo_board"
    using run_ops_refine [of s0 "[]" demo_ops] demo_ok demo_spec by auto
  moreover from this have "length xs = 2" by (metis length_board demo_board_def length_Cons list.size(3) numeral_2_eq_2)
  ultimately show ?thesis by blast
qed

subsection \<open>Properties\<close>

text \<open>
  C8: every sequence of inserts, deletes and deletes by rank on a new list runs without undefined behaviour and
  gives the results it would give on an ordered list of (score, member) pairs; the store represents that list,
  ordered by score and member, and \<^verbatim>\<open>get_count\<close> is its length.
\<close>

theorem skiplist_refines_board:
  assumes "\<forall>c \<in> set cs. op_ok c" "length cs < 2 ^ 32"
  shows "\<exists>s0 s' xs. lua_new = Some s0 \<and> run_ops s0 cs = Some (fst (spec_ops [] cs), s') \<and> board_ok s' xs \<and>
    board xs = snd (spec_ops [] cs) \<and> sorted (map bkey (snd (spec_ops [] cs))) \<and>
    lua_get_count s' = of_nat (length (snd (spec_ops [] cs)))"
proof -
  obtain s0 where s0: "slCreate = Some s0" "board_ok s0 []" using board_ok_new by blast
  then obtain s' xs where r: "run_ops s0 cs = Some (fst (spec_ops [] cs), s')" "board_ok s' xs" "board xs = snd (spec_ops [] cs)"
    using run_ops_refine [of s0 "[]" cs] assms by auto
  have "map bkey (board xs) = map ekey xs" by (simp add: board_def)
  then have "sorted (map bkey (board xs))" using r(2) by (simp add: board_ok_def)
  moreover have "sl_length s' = of_nat (length xs)" using board_ok_core [OF r(2)] by (simp add: rep_core_def)
  moreover have "length xs = length (snd (spec_ops [] cs))" using r(3) by (metis length_board)
  ultimately show ?thesis
    using s0 r by (intro exI [of _ s0] exI [of _ s'] exI [of _ xs]) (simp add: lua_new_def lua_get_count_def)
qed

theorem skiplist_refines_board_witness:
  "\<exists>s0 s' xs. lua_new = Some s0 \<and> run_ops s0 demo_ops = Some ([RNone, RNone], s') \<and> board_ok s' xs \<and>
    board xs = demo_board \<and> lua_get_count s' = 2"
proof -
  have "length demo_ops < 2 ^ 32" by (simp add: demo_ok)
  from skiplist_refines_board [OF demo_ok(1) this]
  obtain s0 s' xs where "lua_new = Some s0" "run_ops s0 demo_ops = Some (fst (spec_ops [] demo_ops), s')" "board_ok s' xs"
    "board xs = snd (spec_ops [] demo_ops)" "lua_get_count s' = of_nat (length (snd (spec_ops [] demo_ops)))"
    by blast
  then show ?thesis unfolding demo_spec by (auto simp: demo_board_def)
qed

text \<open>
  An insertion adds exactly the new pair to the board, whatever levels \<^verbatim>\<open>random()\<close> gives, and keeps its
  order.
\<close>

theorem skiplist_insert_adds_one:
  assumes "board_ok s xs" "\<not> d_isnan sc" "length mb < 2 ^ 31" "slRandomLevel rs = Some (lv, rs')"
  shows "\<exists>s' xs'. lua_insert s rs sc mb = Some (s', rs') \<and> board_ok s' xs' \<and>
    mset (board xs') = add_mset (sc, lua_obj mb) (mset (board xs)) \<and> sorted (map bkey (board xs'))"
proof -
  obtain s' xs' where r: "slInsert s rs sc (lua_obj mb) = Some (s', rs')" "board_ok s' xs'"
    "board xs' = board_insert sc (lua_obj mb) (board xs)"
    using slInsert_board [OF assms(1,2) _ assms(4), of "lua_obj mb"] assms(3) by auto
  have "mset (board xs') = add_mset (sc, lua_obj mb) (mset (board xs))"
    unfolding r(3) board_insert_def by simp (metis mset_append takeWhile_dropWhile_id)
  moreover have "sorted (map bkey (board xs'))" using r(2) by (simp add: board_ok_def board_def comp_def)
  ultimately show ?thesis using r by (auto simp: lua_insert_def slCreateObj_lua)
qed

theorem skiplist_insert_adds_one_witness:
  "\<exists>s s' xs'. lua_insert s [0xffff] 0x3FF8000000000000 [99] = Some (s', []) \<and> board_ok s' xs' \<and>
    mset (board xs') = add_mset (0x3FF8000000000000, lua_obj [99]) (mset demo_board)"
proof -
  obtain s xs where s: "board_ok s xs" "board xs = demo_board" using demo_state by blast
  from skiplist_insert_adds_one [OF s(1) demo_scores(3) _ demo_random, of "[99]"] s(2) show ?thesis by auto
qed

text \<open>
  C9: inserting a pair and deleting it again gives back the board as it was, and the deletion answers true.
\<close>

theorem skiplist_insert_delete_roundtrip:
  assumes "board_ok s xs" "\<not> d_isnan sc" "length mb < 2 ^ 31" "slRandomLevel rs = Some (lv, rs')" "length xs < 2 ^ 31"
  shows "\<exists>s1 s2 xs'. lua_insert s rs sc mb = Some (s1, rs') \<and> lua_delete s1 sc mb = Some (True, s2) \<and>
    board_ok s2 xs' \<and> board xs' = board xs"
proof -
  let ?P = "\<lambda>p. bkey p < bkey (sc, lua_obj mb)" and ?ob = "lua_obj mb"
  obtain s1 xs1 where r: "slInsert s rs sc ?ob = Some (s1, rs')" "board_ok s1 xs1" "board xs1 = board_insert sc ?ob (board xs)"
    using slInsert_board [OF assms(1,2) _ assms(4), of ?ob] assms(3) by auto
  have "length (board xs1) = Suc (length (board xs))"
    unfolding r(3) board_insert_def by simp (metis length_append length_board takeWhile_dropWhile_id)
  then have n: "length xs1 < 2 ^ 32" using assms(5) by simp
  have "dropWhile ?P (board xs1) = (sc, ?ob) # dropWhile ?P (board xs)" "takeWhile ?P (board xs1) = takeWhile ?P (board xs)"
    unfolding r(3) board_insert_def
    by (subst dropWhile_append2 takeWhile_append2, erule set_takeWhileD [THEN conjunct2], simp)+
  then have "board_delete sc ?ob (board xs1) = (True, board xs)" by (simp add: board_delete_def)
  then obtain s2 xs' where "slDelete s1 sc ?ob = Some (True, s2)" "board_ok s2 xs'" "board xs' = board xs"
    using slDelete_board [OF r(2) assms(2) _ n, of ?ob] assms(3) by auto
  with r show ?thesis by (auto simp: lua_insert_def slCreateObj_lua lua_delete_def)
qed

theorem skiplist_insert_delete_roundtrip_witness:
  "\<exists>s s1 s2 xs'. lua_insert s [0xffff] 0x3FF8000000000000 [99] = Some (s1, []) \<and>
    lua_delete s1 0x3FF8000000000000 [99] = Some (True, s2) \<and> board_ok s2 xs' \<and> board xs' = demo_board"
proof -
  obtain s xs where s: "board_ok s xs" "board xs = demo_board" "length xs = 2" using demo_state by blast
  from skiplist_insert_delete_roundtrip [OF s(1) demo_scores(3) _ demo_random, of "[99]"] s show ?thesis by auto
qed


text \<open>
  C10: ranks are positions: the node with rank \<open>r\<close> holds the \<open>r\<close>-th pair of the board, and asking for the rank of
  that pair gives \<open>r\<close> back, when no member is on the board twice. Ranks outside the board give no node.
\<close>

theorem skiplist_rank_node_inverse:
  assumes b: "board_ok s xs" and "length xs < 2 ^ 32" and d: "distinct (map (okey \<circ> snd) (board xs))"
  shows "(if r = 0 \<or> length xs < unat r then slGetNodeByRank s r = Some None
    else \<exists>p nd ob. slGetNodeByRank s r = Some (Some p) \<and> heap s p = Some nd \<and> nobj nd = Some ob \<and>
           board xs ! (unat r - 1) = (score nd, ob) \<and> slGetRank s (score nd) ob = Some r)"
proof (cases "r = 0 \<or> length xs < unat r")
  case True
  then show ?thesis using slGetNodeByRank_spec [OF assms(1,2)] by simp
next
  case False
  define i where "i = unat r - 1"
  have i: "i < length xs" "Suc i = unat r" using False by (auto simp: i_def unat_eq_0 [symmetric])
  have d': "distinct (map (okey \<circ> eobj) xs)" using d by (simp add: board_def comp_def)
  have "slGetNodeByRank s r = Some (Some (eptr (xs ! i)))" using slGetNodeByRank_spec [OF assms(1,2)] False by (simp add: i_def)
  moreover have "slGetRank s (escore (xs ! i)) (eobj (xs ! i)) = Some r"
    using slGetRank_found [OF assms(1,2) i(1) d'] unfolding i(2) by simp
  moreover have "board xs ! i = (escore (xs ! i), eobj (xs ! i))" using i(1) by (simp add: board_def)
  ultimately show ?thesis
    using False heap_at(1) [OF board_ok_core [OF b] i(1)] i_def by (simp add: node_of_def)
qed

theorem skiplist_rank_node_inverse_witness:
  "\<exists>s p nd ob. slGetNodeByRank s 2 = Some (Some p) \<and> heap s p = Some nd \<and> nobj nd = Some ob \<and>
     demo_board ! 1 = (score nd, ob) \<and> slGetRank s (score nd) ob = Some 2"
proof -
  obtain s xs where s: "board_ok s xs" "board xs = demo_board" "length xs = 2" using demo_state by blast
  from skiplist_rank_node_inverse [OF s(1), of 2] s show ?thesis by (auto simp: demo_board_def)
qed

lemma rangelen_int:
  fixes r1 r2 :: u64
  assumes le: "r1 \<le> r2" and small: "unat r2 - unat r1 + 1 < 2 ^ 31"
  shows "sint (ucast (r2 - r1 + 1) :: 32 word) = int (unat r2 - unat r1 + 1)"
proof -
  have "r2 - r1 + 1 = of_nat (unat r2 - unat r1 + 1)" using le by (simp add: word_le_nat_alt of_nat_diff)
  then have "(ucast (r2 - r1 + 1) :: 32 word) = of_nat (unat r2 - unat r1 + 1)" by (simp only: ucast_of_nat_64_32)
  also have "\<dots> = word_of_int (int (unat r2 - unat r1 + 1))" by simp
  finally have u: "(ucast (r2 - r1 + 1) :: 32 word) = word_of_int (int (unat r2 - unat r1 + 1))" .
  have "int (unat r2 - unat r1 + 1) < int (2 ^ 31)" using small by (simp only: of_nat_less_iff)
  then show ?thesis unfolding u by (intro sint_small) simp
qed

text \<open>
  C11: \<^verbatim>\<open>get_rank_range(r1, r2)\<close> lists the members from rank \<open>r1\<close> to rank \<open>r2\<close>, downwards when \<open>r1 > r2\<close>, as
  far as the board reaches; it gives the empty list when \<open>r1\<close> is not a rank. (Ranges shorter than \<open>2^31\<close>, the
  \<^verbatim>\<open>int\<close> the length is kept in.)
\<close>

theorem skiplist_rank_range:
  assumes b: "board_ok s xs" and n: "length xs < 2 ^ 32"
    and small: "unat r2 - unat r1 + 1 < 2 ^ 31" "unat r1 - unat r2 + 1 < 2 ^ 31"
  shows "lua_get_rank_range s r1 r2 =
    Some (map (okey \<circ> snd)
      (if r1 = 0 \<or> length xs < unat r1 then []
       else if r1 \<le> r2 then take (unat r2 - unat r1 + 1) (drop (unat r1 - 1) (board xs))
       else take (unat r1 - unat r2 + 1) (rev (take (unat r1) (board xs)))))"
proof -
  note node = slGetNodeByRank_spec [OF b n, of r1] and rep = board_ok_core [OF b]
  have up: "map (okey \<circ> snd) (take m (drop k (board xs))) = map (okey \<circ> eobj) (take m (drop k xs))"
    "map (okey \<circ> snd) (take m (rev (take k (board xs)))) = map (okey \<circ> eobj) (take m (rev (take k xs)))" for m k
    by (simp_all add: board_def take_map drop_map rev_map comp_def)
  show ?thesis
  proof (cases "r1 = 0 \<or> length xs < unat r1")
    case True
    then show ?thesis using node by (simp add: lua_get_rank_range_def Let_def rank_range_loop.simps)
  next
    case False
    define k where "k = unat r1 - 1"
    have k: "k < length xs" "Suc k = unat r1" using False by (auto simp: k_def unat_eq_0 [symmetric])
    have nd: "slGetNodeByRank s r1 = Some (ptr_at xs k)" "ptr_at xs k = Some (eptr (xs ! k))"
      using False node k by (auto simp: k_def ptr_at_def)
    show ?thesis
    proof (cases "r1 \<le> r2")
      case True
      then show ?thesis
        using False rank_range_forward [OF rep, of "unat r2 - unat r1 + 1" k 0 "[]"]
        by (simp add: lua_get_rank_range_def nd(1) rangelen_int [OF True small(1)] up) (simp add: k_def)
    next
      case down: False
      then have "r2 \<le> r1" by simp
      then show ?thesis
        using False down rank_range_backward [OF rep k(1), of "unat r1 - unat r2 + 1" 0 "[]"]
        by (simp add: lua_get_rank_range_def nd rangelen_int [OF _ small(2)] up k(2) [symmetric])
    qed
  qed
qed

theorem skiplist_rank_range_witness:
  "\<exists>s. lua_get_rank_range s 2 1 = Some [[98], [97]] \<and> lua_get_rank_range s 1 9 = Some [[97], [98]]"
proof -
  obtain s xs where s: "board_ok s xs" "board xs = demo_board" "length xs = 2" using demo_state by blast
  have "lua_get_rank_range s 2 1 = Some [[98], [97]]"
    using skiplist_rank_range [OF s(1), of 1 2] s by (simp add: demo_board_def word_le_nat_alt)
  moreover have "lua_get_rank_range s 1 9 = Some [[97], [98]]"
    using skiplist_rank_range [OF s(1), of 9 1] s by (simp add: demo_board_def word_le_nat_alt)
  ultimately show ?thesis by blast
qed


text \<open>
  C12: \<^verbatim>\<open>get_score_range(s1, s2)\<close> lists exactly the members whose score lies between the two bounds, in board
  order, and in reverse order when \<open>s1 > s2\<close>.
\<close>

theorem skiplist_score_range:
  assumes "board_ok s xs" "length xs < 2 ^ 32" "\<not> d_isnan s1" "\<not> d_isnan s2"
  shows "lua_get_score_range s s1 s2 =
    Some (if d_le s1 s2 then map (okey \<circ> snd) (filter (in_scores s1 s2) (board xs))
          else rev (map (okey \<circ> snd) (filter (in_scores s2 s1) (board xs))))"
proof (cases "d_le s1 s2")
  case True
  then show ?thesis using score_range_up [OF assms(1,2)] by simp
next
  case False
  then have "d_lt s2 s1" using assms(3,4) by (simp add: d_order_keys)
  then show ?thesis using score_range_down [OF assms(1,2)] False by simp
qed

theorem skiplist_score_range_witness:
  "\<exists>s. lua_get_score_range s 0x4000000000000000 0x3FF0000000000000 = Some [[98], [97]] \<and>
       lua_get_score_range s 0x3FF8000000000000 0x4008000000000000 = Some [[98]]"
proof -
  obtain s xs where s: "board_ok s xs" "board xs = demo_board" "length xs = 2" using demo_state by blast
  have "lua_get_score_range s 0x4000000000000000 0x3FF0000000000000 = Some [[98], [97]]"
    using skiplist_score_range [OF s(1) _ demo_scores(1,2)] s demo_scores
    by (simp add: demo_board_def d_order_keys in_scores_def dkey_def dneg_def dmag_def)
  moreover have "lua_get_score_range s 0x3FF8000000000000 0x4008000000000000 = Some [[98]]"
    using skiplist_score_range [OF s(1) _ demo_scores(3,4)] s demo_scores
    by (simp add: demo_board_def d_order_keys in_scores_def dkey_def dneg_def dmag_def)
  ultimately show ?thesis by blast
qed

text \<open>
  C13: no node is lost or freed twice: after any sequence of operations on a new list, \<^verbatim>\<open>slFree\<close> (the \<^verbatim>\<open>__gc\<close>
  method) frees every node that was ever allocated and is not freed yet.
\<close>

theorem skiplist_release_frees_all:
  assumes "\<forall>c \<in> set cs. op_ok c" "length cs < 2 ^ 32"
  shows "\<exists>s0 rs s' s''. lua_new = Some s0 \<and> run_ops s0 cs = Some (rs, s') \<and> lua_release s' = Some s'' \<and> heap s'' = Map.empty"
proof -
  obtain s0 where s0: "slCreate = Some s0" "board_ok s0 []" using board_ok_new by blast
  then obtain s' xs where r: "run_ops s0 cs = Some (fst (spec_ops [] cs), s')" "board_ok s' xs"
    using run_ops_refine [of s0 "[]" cs] assms by auto
  then show ?thesis using s0 slFree_spec [OF r(2)] by (auto simp: lua_new_def lua_release_def)
qed

theorem skiplist_release_frees_all_witness:
  "\<exists>s0 rs s' s''. lua_new = Some s0 \<and> run_ops s0 demo_ops = Some (rs, s') \<and> lua_release s' = Some s'' \<and> heap s'' = Map.empty"
proof -
  have "length demo_ops < 2 ^ 32" by (simp add: demo_ok)
  from skiplist_release_frees_all [OF demo_ok(1) this] show ?thesis .
qed

text \<open>
  \<^verbatim>\<open>slGetRank\<close> looks at the member only once the walk has stopped: the only entry of a board is found under
  every score that is not below its own, although the comment asks for an element by both score and key.
\<close>

theorem skiplist_rank_ignores_score:
  assumes b: "board_ok s [e]" and sc: "\<not> d_isnan sc" "dkey (escore e) < dkey sc"
  shows "slGetRank s sc (eobj e) = Some 1"
proof -
  have ok: "obj_ok (eobj e)" using b by (simp add: board_ok_def entry_ok_def)
  have K: "length (takeWhile (\<lambda>x. ekey x \<le> bkey (sc, eobj e)) [e]) = 1" using sc by (simp add: ekey_def bkey_def)
  have "0 < level s" using board_ok_core [OF b] by (simp add: rep_core_def)
  then have "rank_seen [e] (eobj e) 1 (level s) = 1"
    by (intro rank_seen_found [OF board_ok_core [OF b]]) (auto simp: obj_at_def)
  then show ?thesis using slGetRank_seen [OF b sc(1) ok] K by simp
qed

theorem skiplist_rank_ignores_score_witness:
  "\<exists>s e. board_ok s [e] \<and> board [e] = [(0x3FF0000000000000, lua_obj [97])] \<and>
     slGetRank s 0x4000000000000000 (lua_obj [97]) = Some 1"
proof -
  let ?cs = "[OpInsert [0xffff] 0x3FF0000000000000 [97]]"
  obtain s0 where "slCreate = Some s0" "board_ok s0 []" using board_ok_new by blast
  then obtain s xs where s: "board_ok s xs" "board xs = [(0x3FF0000000000000, lua_obj [97])]"
    using run_ops_refine [of s0 "[]" ?cs] demo_random demo_scores by (auto simp: board_insert_def)
  then obtain e where e: "xs = [e]" "escore e = 0x3FF0000000000000" "eobj e = lua_obj [97]"
    by (cases xs) (auto simp: board_def)
  have "dkey (escore e) < dkey 0x4000000000000000" using e by (simp add: dkey_def dneg_def dmag_def)
  from skiplist_rank_ignores_score [OF _ demo_scores(1) this, of s] s e show ?thesis by auto
qed

text \<open>
  asked for a range whose upper bound is NaN and whose lower bound is at most 0 and not above the last score,
  \<^verbatim>\<open>get_score_range\<close> reads the members from the header node, which has none: \<^verbatim>\<open>slLastInRange\<close> returns the header and
  its null object is dereferenced.
\<close>

theorem skiplist_score_range_nan_crash:
  assumes b: "board_ok s xs" and n: "length xs < 2 ^ 32" "xs \<noteq> []" and s1: "d_isnan s1"
    and s2: "\<not> d_isnan s2" "dkey s2 \<le> 0" "dkey s2 \<le> dkey (escore (last xs))"
  shows "lua_get_score_range s s1 s2 = None"
proof -
  note rep = board_ok_core [OF b]
  have nan: "\<not> d_le a s1" "\<not> d_lt s1 a" "\<not> d_lt a s1" "\<not> d_le s1 a" for a using s1 by (simp_all add: d_le_def d_lt_def)
  have t: "tail_p s = Some (eptr (last xs))" using rep n(2) by (simp add: rep_core_def prev_of_def)
  have l: "heap s (eptr (last xs)) = Some (node_of (butlast xs) (last xs) [])"
    using rep n(2) unfolding rep_core_def by (metis append_butlast_last_id)
  have "entry_ok (last xs)" using b n(2) by (simp add: board_ok_def)
  then have lt: "\<not> d_lt (escore (last xs)) s2" using s2 by (simp add: d_lt_def)
  have f: "lvl s (header s) 0 = Some (link_of 0 xs)" "forward (link_of 0 xs) = Some (eptr (hd xs))"
    "heap s (eptr (hd xs)) = Some (node_of [] (hd xs) (drop (Suc 0) xs))"
    using forward_after [OF rep, of 0] heap_at(1) [OF rep, of 0] n(2) by (auto simp: pos_ptr_def hd_conv_nth)
  have inr: "slIsInRange s s2 s1 = Some True"
    using t l lt f nan by (simp add: slIsInRange_def node_of_def)
  have "decides (score_cond (\<lambda>d. d_le d s1)) xs 0" using nan by (simp add: decides_def score_cond_def)
  then have "sl_descend s (score_cond (\<lambda>d. d_le d s1)) (level s) (header s) 0 = Some (upd_list s xs 0 (level s))"
    using n by (intro search_spec [OF rep]) (simp_all add: span_fits_def)
  then have "slLastInRange s s2 s1 = Some (Some (header s))"
    using inr by (simp add: slLastInRange_def upd_list_0 [OF rep] pos_ptr_def)
  moreover obtain hn where hn: "heap s (header s) = Some hn" "score hn = 0" "nobj hn = None"
    using rep by (auto simp: rep_core_def header_ok_def)
  moreover have "\<not> d_lt 0 s2" using s2 by (simp add: d_lt_def dkey_def dneg_def dmag_def)
  ultimately show ?thesis
    using nan by (simp add: lua_get_score_range_def) (subst score_range_loop.simps, simp)
qed


theorem skiplist_score_range_nan_crash_witness:
  "\<exists>s xs. board_ok s xs \<and> board xs = demo_board \<and> lua_get_score_range s 0x7FF8000000000000 0 = None"
proof -
  obtain s xs where s: "board_ok s xs" "board xs = demo_board" "length xs = 2" using demo_state by blast
  then have ne: "xs \<noteq> []" by auto
  then have "(escore (last xs), eobj (last xs)) = last demo_board" unfolding s(2) [symmetric] by (simp add: board_def last_map)
  then have "dkey 0 \<le> dkey (escore (last xs))" by (simp add: demo_board_def dkey_def dneg_def dmag_def)
  moreover have "d_isnan 0x7FF8000000000000" "\<not> d_isnan 0" "dkey 0 \<le> 0" "length xs < 2 ^ 32"
    using s(3) by (simp_all add: d_isnan_def dkey_def dneg_def dmag_def)
  ultimately have "lua_get_score_range s 0x7FF8000000000000 0 = None"
    using ne s(1) by (intro skiplist_score_range_nan_crash)
  with s show ?thesis by blast
qed

end
