(* ===== verification/Ws_Queue.thy ===== *)
theory Ws_Queue
  imports Ring_Queue
begin

text \<open>
  \<^verbatim>\<open>struct queue\<close> of server/lualib-src/lua-websocketnetpack.c: the ring of finished packages and the hash table
  of the connections that have a package in progress. The chains of the hash table are lists (the \<^verbatim>\<open>next\<close>
  pointers), so unlinking an entry is removing it from its chain. Slot 1 of the Lua stack holds the queue or
  nil: \<open>ws_queue option\<close>. A package buffer is the list of the bytes written to it so far, \<open>np_size\<close> the number
  of bytes it was allocated for.
\<close>

definition QUEUESIZE :: nat where "QUEUESIZE = 1024"
definition HASHSIZE :: nat where "HASHSIZE = 4096"
definition HEADERSIZE :: nat where "HEADERSIZE = 1024"
definition MAX_PACKSIZE :: int where "MAX_PACKSIZE = 10 * 1024"

record netpack =
  np_id :: int
  np_size :: int
  np_buffer :: bytes

record uncomplete =
  pack :: netpack
  hdr :: bytes
  header_size :: nat
  uread :: int
  mask :: bytes
  ismask :: bool
  hasunmask_size :: int

record ws_queue =
  wcap :: nat
  whead :: nat
  wtail :: nat
  whash :: "nat \<Rightarrow> uncomplete list"
  wslots :: "netpack option list"

text \<open>A zeroed \<^verbatim>\<open>struct uncomplete\<close> for a connection, as \<^verbatim>\<open>memset\<close> leaves it.\<close>

definition uc_zero :: "int \<Rightarrow> uncomplete" where
  "uc_zero fd = \<lparr>pack = \<lparr>np_id = fd, np_size = 0, np_buffer = []\<rparr>, hdr = replicate HEADERSIZE 0, header_size = 0,
                 uread = 0, mask = [0, 0, 0, 0], ismask = False, hasunmask_size = 0\<rparr>"

text \<open>
  The shifts of a signed \<^verbatim>\<open>int\<close> are arithmetic; the sum is taken modulo \<open>2^32\<close> by the cast. The sum itself is one of signed
  \<^verbatim>\<open>int\<close>s, which overflows before the cast for a number above \<^verbatim>\<open>INT_MAX\<close> - 524414: here it wraps, as compiled code does.
\<close>

definition hash_fd :: "int \<Rightarrow> nat" where
  "hash_fd fd = nat ((fd div 2 ^ 24 + fd div 2 ^ 12 + fd) mod 2 ^ 32 mod int HASHSIZE)"

fun unlink :: "int \<Rightarrow> uncomplete list \<Rightarrow> (uncomplete \<times> uncomplete list) option" where
  "unlink fd [] = None"
| "unlink fd (uc # us) =
     (if np_id (pack uc) = fd then Some (uc, us) else map_option (\<lambda>(r, us'). (r, uc # us')) (unlink fd us))"

definition find_uncomplete :: "ws_queue option \<Rightarrow> int \<Rightarrow> uncomplete option \<times> ws_queue option" where
  "find_uncomplete q fd =
     (case q of None \<Rightarrow> (None, None)
      | Some w \<Rightarrow>
          (case unlink fd (whash w (hash_fd fd)) of
             None \<Rightarrow> (None, Some w)
           | Some (uc, us) \<Rightarrow> (Some uc, Some (w\<lparr>whash := (whash w)(hash_fd fd := us)\<rparr>))))"

definition get_queue :: "ws_queue option \<Rightarrow> ws_queue" where
  "get_queue q =
     (case q of Some w \<Rightarrow> w
      | None \<Rightarrow> \<lparr>wcap = QUEUESIZE, whead = 0, wtail = 0, whash = (\<lambda>_. []), wslots = replicate QUEUESIZE None\<rparr>)"

text \<open>The chain entry is put in front of its chain: \<^verbatim>\<open>uc->next = q->hash[h]; q->hash[h] = uc\<close>.\<close>

definition link_uc :: "ws_queue \<Rightarrow> int \<Rightarrow> uncomplete \<Rightarrow> ws_queue" where
  "link_uc w fd uc = w\<lparr>whash := (whash w)(hash_fd fd := uc # whash w (hash_fd fd))\<rparr>"

fun expand_copy :: "nat \<Rightarrow> netpack option list \<Rightarrow> nat \<Rightarrow> nat list \<Rightarrow> netpack option list option" where
  "expand_copy c slots h [] = Some []"
| "expand_copy c slots h (i # is) =
     (case arr_get slots ((h + i) mod c) of None \<Rightarrow> None
      | Some x \<Rightarrow> map_option ((#) x) (expand_copy c slots h is))"

definition expand_queue :: "ws_queue \<Rightarrow> ws_queue option" where
  "expand_queue w =
     map_option (\<lambda>front. \<lparr>wcap = wcap w + QUEUESIZE, whead = 0, wtail = wcap w, whash = whash w,
                          wslots = front @ replicate QUEUESIZE None\<rparr>)
       (expand_copy (wcap w) (wslots w) (whead w) [0..<wcap w])"

text \<open>The ring part of \<^verbatim>\<open>push_data\<close>.\<close>

definition ring_push :: "ws_queue \<Rightarrow> netpack \<Rightarrow> ws_queue option" where
  "ring_push w np =
     (let t = wtail w + 1; t = (if t \<ge> wcap w then t - wcap w else t)
      in case arr_set (wslots w) (wtail w) (Some np) of None \<Rightarrow> None
         | Some slots \<Rightarrow>
             let w1 = w\<lparr>wtail := t, wslots := slots\<rparr>
             in if whead w1 = wtail w1 then expand_queue w1 else Some w1)"

definition push_data :: "ws_queue option \<Rightarrow> int \<Rightarrow> bytes \<Rightarrow> int \<Rightarrow> bool \<Rightarrow> ws_queue option" where
  "push_data q fd buf n clone =
     (if clone \<and> \<not> (0 \<le> n \<and> n \<le> int (length buf)) then None
      else ring_push (get_queue q)
             \<lparr>np_id = fd, np_size = n, np_buffer = if clone then take (nat n) buf else buf\<rparr>)"

text \<open>\<^verbatim>\<open>lpop\<close>: nothing, or the oldest package.\<close>

definition lpop :: "ws_queue option \<Rightarrow> (netpack option \<times> ws_queue option) option" where
  "lpop q =
     (case q of None \<Rightarrow> Some (None, None)
      | Some w \<Rightarrow>
          if whead w = wtail w then Some (None, Some w)
          else
            case arr_get (wslots w) (whead w) of
              Some (Some np) \<Rightarrow>
                let h = whead w + 1 in Some (Some np, Some (w\<lparr>whead := if h \<ge> wcap w then 0 else h\<rparr>))
            | _ \<Rightarrow> None)"

text \<open>
  \<^verbatim>\<open>lclear\<close>: the calls of \<^verbatim>\<open>skynet_free\<close>, and the emptied queue. Of every entry of the chains, in the order of the table,
  the buffer of the package is freed and then the record itself; of the ring the buffers.
\<close>

datatype freed = FreeBuffer bytes | FreeRecord uncomplete

fun clear_list :: "uncomplete list \<Rightarrow> freed list" where
  "clear_list [] = []"
| "clear_list (uc # us) = FreeBuffer (np_buffer (pack uc)) # FreeRecord uc # clear_list us"

fun clear_ring :: "ws_queue \<Rightarrow> nat list \<Rightarrow> freed list option" where
  "clear_ring w [] = Some []"
| "clear_ring w (i # is) =
     (case arr_get (wslots w) (i mod wcap w) of
        Some (Some np) \<Rightarrow> map_option ((#) (FreeBuffer (np_buffer np))) (clear_ring w is)
      | _ \<Rightarrow> None)"

definition lclear :: "ws_queue option \<Rightarrow> (freed list \<times> ws_queue option) option" where
  "lclear q =
     (case q of None \<Rightarrow> Some ([], None)
      | Some w \<Rightarrow>
          let t = (if whead w > wtail w then wtail w + wcap w else wtail w)
          in map_option (\<lambda>bs. (concat (map (\<lambda>i. clear_list (whash w i)) [0..<HASHSIZE]) @ bs,
                               Some (w\<lparr>whash := (\<lambda>_. []), whead := 0, wtail := 0\<rparr>)))
               (clear_ring w [whead w..<t]))"

subsection \<open>The ring as a queue\<close>

definition ring_of :: "ws_queue \<Rightarrow> netpack queue" where
  "ring_of w = \<lparr>cap = wcap w, sz = 1, head = whead w, tail = wtail w, buffer = wslots w\<rparr>"

definition ring_inv :: "ws_queue \<Rightarrow> bool" where
  "ring_inv w \<longleftrightarrow> queue_inv (ring_of w)"

definition packs :: "ws_queue \<Rightarrow> netpack list" where
  "packs w = queue_list (ring_of w)"

lemma ring_of_fields:
  "cap (ring_of w) = wcap w" "head (ring_of w) = whead w" "tail (ring_of w) = wtail w" "buffer (ring_of w) = wslots w"
  by (simp_all add: ring_of_def)

lemma expand_copy_nth:
  "0 < c \<Longrightarrow> length slots = c \<Longrightarrow> expand_copy c slots h is = Some (map (\<lambda>i. slots ! ((h + i) mod c)) is)"
  by (induction "is") (simp_all add: arr_get_def)

lemma wrap_sub: "t < c \<Longrightarrow> (if t + 1 \<ge> c then t + 1 - c else t + 1) = (t + 1) mod (c :: nat)"
  by (cases "Suc t = c") auto

lemma ring_push_ok:
  assumes inv: "ring_inv w"
  shows "\<exists>w'. ring_push w np = Some w' \<and> ring_inv w' \<and> packs w' = packs w @ [np] \<and> whash w' = whash w"
proof -
  let ?q = "ring_of w" and ?t = "(wtail w + 1) mod wcap w"
  have q: "queue_inv ?q" using inv by (simp add: ring_inv_def)
  then have c: "2 \<le> wcap w" "whead w < wcap w" "wtail w < wcap w" "length (wslots w) = wcap w"
    by (auto simp: queue_inv_def ring_of_def)
  let ?w1 = "w\<lparr>wtail := ?t, wslots := (wslots w)[wtail w := Some np]\<rparr>"
  have push: "ring_push w np = (if whead w = ?t then expand_queue ?w1 else Some ?w1)"
    unfolding ring_push_def Let_def wrap_sub [OF c(3)] using c by (simp add: arr_set_def)
  show ?thesis
  proof (cases "whead w = ?t")
    case False
    then have "head ?q \<noteq> (tail ?q + 1) mod cap ?q" by (simp add: ring_of_def)
    from queue_push_slot [OF q refl this, of np] push False show ?thesis
      by (simp add: ring_inv_def packs_def ring_of_def)
  next
    case True
    then have f: "head ?q = (tail ?q + 1) mod cap ?q" by (simp add: ring_of_def)
    have last: "(whead w + (wcap w - 1)) mod wcap w = wtail w"
      using True c by (cases "Suc (wtail w) = wcap w") (auto simp: mod_if)
    let ?front = "map (\<lambda>i. wslots w ! ((whead w + i) mod wcap w)) [0..<wcap w]"
    let ?b = "(map (\<lambda>i. buffer ?q ! ring_index ?q i) [0..<cap ?q] @ replicate QUEUESIZE None)[cap ?q - 1 := Some np]"
    have "map (\<lambda>i. (wslots w)[wtail w := Some np] ! ((whead w + i) mod wcap w)) [0..<wcap w] = ?front[wcap w - 1 := Some np]"
    proof (rule nth_equalityI)
      fix i assume "i < length (map (\<lambda>i. (wslots w)[wtail w := Some np] ! ((whead w + i) mod wcap w)) [0..<wcap w])"
      then have i: "i < wcap w" by simp
      have "(whead w + i) mod wcap w = wtail w \<longleftrightarrow> i = wcap w - 1"
        using mod_add_inj [of i "wcap w" "wcap w - 1" "whead w"] i c last by auto
      then show "map (\<lambda>i. (wslots w)[wtail w := Some np] ! ((whead w + i) mod wcap w)) [0..<wcap w] ! i =
          ?front[wcap w - 1 := Some np] ! i"
        using i c by (auto simp: nth_list_update)
    qed simp
    then have b: "map (\<lambda>i. (wslots w)[wtail w := Some np] ! ((whead w + i) mod wcap w)) [0..<wcap w] @ replicate QUEUESIZE None = ?b"
      using c by (simp add: ring_of_def ring_index_def list_update_append)
    have "expand_queue ?w1 = Some \<lparr>wcap = wcap w + QUEUESIZE, whead = 0, wtail = wcap w, whash = whash w, wslots = ?b\<rparr>"
      using c by (simp add: expand_queue_def expand_copy_nth b)
    with queue_push_grow [OF q _ f refl, of QUEUESIZE np] push True show ?thesis
      by (simp add: ring_inv_def packs_def ring_of_def QUEUESIZE_def)
  qed
qed


lemma get_queue_inv: "(\<And>w. q = Some w \<Longrightarrow> ring_inv w) \<Longrightarrow> ring_inv (get_queue q)"
  by (cases q) (simp_all add: get_queue_def ring_inv_def ring_of_def queue_inv_def queue_size_def QUEUESIZE_def)

text \<open>Popping as the queue contract has it.\<close>

definition ring_take :: "ws_queue \<Rightarrow> (netpack \<times> ws_queue) option" where
  "ring_take w = (case lpop (Some w) of Some (Some np, Some w') \<Rightarrow> Some (np, w') | _ \<Rightarrow> None)"

lemma lpop_empty: "ring_inv w \<Longrightarrow> packs w = [] \<Longrightarrow> lpop (Some w) = Some (None, Some w)"
  using queue_empty_iff [of "ring_of w"] by (simp add: ring_inv_def packs_def lpop_def queue_empty_def ring_of_def)

lemma lpop_ok:
  assumes inv: "ring_inv w" and ne: "packs w = x # xs"
  shows "\<exists>w'. lpop (Some w) = Some (Some x, Some w') \<and> ring_inv w' \<and> packs w' = xs \<and> whash w' = whash w"
proof -
  let ?h = "if whead w + 1 \<ge> wcap w then 0 else whead w + 1"
  have q: "queue_inv (ring_of w)" "queue_list (ring_of w) = x # xs" using assms by (simp_all add: ring_inv_def packs_def)
  from queue_pop_ok [OF q] obtain q' where q': "queue_pop (ring_of w) = (0, Some x, q')" "queue_inv q'" "queue_list q' = xs" by blast
  then have eq: "q' = ring_of (w\<lparr>whead := ?h\<rparr>)" and slot: "arr_get (wslots w) (whead w) = Some (Some x)" "whead w \<noteq> wtail w"
    by (auto simp: queue_pop_def ring_of_def Let_def split: if_splits option.splits)
  have "lpop (Some w) = Some (Some x, Some (w\<lparr>whead := ?h\<rparr>))"
    unfolding lpop_def option.case slot(1) Let_def using slot(2) by simp
  then show ?thesis using q'(2,3) eq by (simp add: ring_inv_def packs_def)
qed

interpretation wq: growing_fifo ring_inv packs ring_push ring_take "\<lambda>_. True"
proof unfold_locales
  show "\<And>q x. ring_inv q \<Longrightarrow> True \<Longrightarrow> \<exists>q'. ring_push q x = Some q' \<and> ring_inv q' \<and> packs q' = packs q @ [x]"
    using ring_push_ok by blast
  show "\<And>q x xs. ring_inv q \<Longrightarrow> packs q = x # xs \<Longrightarrow> \<exists>q'. ring_take q = Some (x, q') \<and> ring_inv q' \<and> packs q' = xs"
    using lpop_ok by (fastforce simp: ring_take_def)
  show "\<And>q. ring_inv q \<Longrightarrow> packs q = [] \<Longrightarrow> ring_take q = None"
    by (simp add: ring_take_def lpop_empty)
qed simp

text \<open>
  The queue in slot 1 of the Lua stack, nil until the first push, with the calls the rest of the code makes: \<^verbatim>\<open>push_data\<close> of a
  whole buffer, cloned or not, and \<^verbatim>\<open>lpop\<close>.
\<close>

definition slot_inv :: "ws_queue option \<Rightarrow> bool" where
  "slot_inv q = (case q of None \<Rightarrow> True | Some w \<Rightarrow> ring_inv w)"

definition slot_packs :: "ws_queue option \<Rightarrow> netpack list" where
  "slot_packs q = (case q of None \<Rightarrow> [] | Some w \<Rightarrow> packs w)"

definition whole_pack :: "int \<times> bytes \<times> bool \<Rightarrow> netpack" where
  "whole_pack x = (case x of (fd, buf, clone) \<Rightarrow> \<lparr>np_id = fd, np_size = int (length buf), np_buffer = buf\<rparr>)"

definition push_whole :: "ws_queue option \<Rightarrow> int \<times> bytes \<times> bool \<Rightarrow> ws_queue option option" where
  "push_whole q x = (case x of (fd, buf, clone) \<Rightarrow> map_option Some (push_data q fd buf (int (length buf)) clone))"

lemma slot_get_queue: "slot_inv q \<Longrightarrow> ring_inv (get_queue q)" "packs (get_queue q) = slot_packs q"
proof -
  show "slot_inv q \<Longrightarrow> ring_inv (get_queue q)" by (intro get_queue_inv) (simp add: slot_inv_def)
  show "packs (get_queue q) = slot_packs q"
    by (cases q) (simp_all add: slot_packs_def get_queue_def packs_def ring_of_def queue_list_def queue_size_def)
qed

interpretation slot: queue_calls slot_inv slot_packs whole_pack push_whole lpop
proof unfold_locales
  fix q x
  assume "slot_inv q"
  then show "\<exists>q'. push_whole q x = Some q' \<and> slot_inv q' \<and> slot_packs q' = slot_packs q @ [whole_pack x]"
    using ring_push_ok [of "get_queue q" "whole_pack x"] slot_get_queue [of q]
    by (cases x) (auto simp: push_whole_def push_data_def whole_pack_def slot_inv_def slot_packs_def)
next
  fix q
  assume "slot_inv q" "slot_packs q = []"
  then show "lpop q = Some (None, q)"
    by (cases q) (simp_all add: slot_inv_def slot_packs_def lpop_empty, simp add: lpop_def)
next
  fix q y ys
  assume "slot_inv q" "slot_packs q = y # ys"
  then show "\<exists>q'. lpop q = Some (Some y, q') \<and> slot_inv q' \<and> slot_packs q' = ys"
    using lpop_ok by (cases q) (fastforce simp: slot_inv_def slot_packs_def)+
qed

lemma clear_ring_ok:
  assumes inv: "ring_inv w"
  shows "clear_ring w [whead w..<(if whead w > wtail w then wtail w + wcap w else wtail w)] = Some (map (FreeBuffer \<circ> np_buffer) (packs w))"
proof -
  let ?q = "ring_of w"
  have q: "queue_inv ?q" using inv by (simp add: ring_inv_def)
  have size: "(if whead w > wtail w then wtail w + wcap w else wtail w) = whead w + queue_size ?q"
    using q by (auto simp: queue_size_def ring_of_def queue_inv_def)
  have "clear_ring w [whead w + a..<whead w + queue_size ?q] =
      Some (map (\<lambda>i. FreeBuffer (np_buffer (the (wslots w ! ((whead w + i) mod wcap w))))) [a..<queue_size ?q])" if "a \<le> queue_size ?q" for a
    using that
  proof (induction "queue_size ?q - a" arbitrary: a)
    case (Suc d)
    then have a: "a < queue_size ?q" by simp
    have ne: "wslots w ! ((whead w + a) mod wcap w) \<noteq> None" and lt: "(whead w + a) mod wcap w < length (wslots w)"
      using q a by (auto simp: queue_inv_def ring_of_def ring_index_def)
    from ne obtain np where "wslots w ! ((whead w + a) mod wcap w) = Some np" by blast
    then show ?case using Suc.hyps(1) [of "Suc a"] Suc.hyps(2) a lt by (auto simp: upt_conv_Cons arr_get_def)
  qed simp
  from this [of 0] size show ?thesis
    by (simp add: packs_def queue_list_def comp_def ring_of_fields ring_index_def)
qed

subsection \<open>The table of unfinished packages\<close>

definition conn_of :: "ws_queue \<Rightarrow> int \<Rightarrow> uncomplete option" where
  "conn_of w fd = map_option fst (unlink fd (whash w (hash_fd fd)))"

definition table_ok :: "ws_queue \<Rightarrow> bool" where
  "table_ok w \<longleftrightarrow> (\<forall>h. distinct (map (np_id \<circ> pack) (whash w h)))"

lemma unlink_None: "unlink fd us = None \<longleftrightarrow> fd \<notin> set (map (np_id \<circ> pack) us)"
  by (induction us) auto

lemma unlink_Some:
  "unlink fd us = Some (uc, us') \<Longrightarrow>
     np_id (pack uc) = fd \<and> set (map (np_id \<circ> pack) us') \<subseteq> set (map (np_id \<circ> pack) us) \<and>
     (fd' \<noteq> fd \<longrightarrow> map_option fst (unlink fd' us') = map_option fst (unlink fd' us)) \<and>
     (distinct (map (np_id \<circ> pack) us) \<longrightarrow> distinct (map (np_id \<circ> pack) us') \<and> unlink fd us' = None)"
proof (induction us arbitrary: us')
  case (Cons u us)
  show ?case
  proof (cases "np_id (pack u) = fd")
    case True
    with Cons.prems show ?thesis by (auto simp: unlink_None option.map_comp comp_def case_prod_beta)
  next
    case False
    with Cons.prems obtain us1 where u1: "unlink fd us = Some (uc, us1)" "us' = u # us1" by auto
    from Cons.IH [OF u1(1)] u1(2) False show ?thesis
      by (auto simp: option.map_comp comp_def case_prod_beta)
  qed
qed simp

lemma find_uncomplete_spec:
  assumes "table_ok w" "find_uncomplete (Some w) fd = (r, q)"
  shows "\<exists>w'. q = Some w' \<and> r = conn_of w fd \<and> conn_of w' fd = None \<and> (\<forall>fd'. fd' \<noteq> fd \<longrightarrow> conn_of w' fd' = conn_of w fd') \<and>
    table_ok w' \<and> wcap w' = wcap w \<and> whead w' = whead w \<and> wtail w' = wtail w \<and> wslots w' = wslots w \<and>
    (\<forall>uc. r = Some uc \<longrightarrow> np_id (pack uc) = fd)"
proof (cases "unlink fd (whash w (hash_fd fd))")
  case None
  with assms show ?thesis by (auto simp: find_uncomplete_def conn_of_def)
next
  case (Some p)
  then obtain uc us where u: "unlink fd (whash w (hash_fd fd)) = Some (uc, us)" by (cases p) auto
  let ?w = "w\<lparr>whash := (whash w)(hash_fd fd := us)\<rparr>"
  note S = unlink_Some [OF u]
  have d: "distinct (map (np_id \<circ> pack) (whash w (hash_fd fd)))" using assms(1) by (simp add: table_ok_def)
  have "conn_of ?w fd' = conn_of w fd'" if "fd' \<noteq> fd" for fd'
    using S [of fd'] that by (cases "hash_fd fd' = hash_fd fd") (simp_all add: conn_of_def)
  moreover have "conn_of ?w fd = None" "table_ok ?w" using S d assms(1) by (auto simp: conn_of_def table_ok_def)
  moreover have "np_id (pack uc) = fd" using S [of fd] by simp
  ultimately show ?thesis using assms(2) u by (auto simp: find_uncomplete_def conn_of_def)
qed

lemma hash_fd_less: "hash_fd fd < HASHSIZE"
  by (simp add: hash_fd_def HASHSIZE_def nat_less_iff)

lemma conn_in_chain: "conn_of w fd = Some uc \<Longrightarrow> \<exists>i < HASHSIZE. uc \<in> set (whash w i)"
proof -
  have "unlink fd us = Some (r, us') \<Longrightarrow> r \<in> set us" for us r us'
    by (induction us arbitrary: us') (auto split: if_splits)
  then show "conn_of w fd = Some uc \<Longrightarrow> ?thesis" using hash_fd_less [of fd] by (auto simp: conn_of_def)
qed

lemma link_uc_spec:
  assumes "table_ok w" "conn_of w fd = None" "np_id (pack uc) = fd"
  shows "conn_of (link_uc w fd uc) fd' = (if fd' = fd then Some uc else conn_of w fd')" "table_ok (link_uc w fd uc)"
proof -
  show "conn_of (link_uc w fd uc) fd' = (if fd' = fd then Some uc else conn_of w fd')"
    using assms(3) by (auto simp: conn_of_def link_uc_def option.map_comp comp_def case_prod_beta)
  have "fd \<notin> set (map (np_id \<circ> pack) (whash w (hash_fd fd)))" using assms(2) by (simp add: conn_of_def unlink_None)
  then show "table_ok (link_uc w fd uc)" using assms(1,3) by (auto simp: table_ok_def link_uc_def)
qed

end
