(* ===== verification/Ws_Codec.thy ===== *)
theory Ws_Codec
  imports Ws_Queue
begin

text \<open>
  The codec of server/lualib-src/lua-websocketnetpack.c: byte order, the frame header (\<open>read_size\<close>), the mask,
  the end of the HTTP header and the frames the server writes (\<open>lpack\<close>). A pointer with a size is the list of the
  bytes it points to. The host is little-endian, as the code assumes where it loads integers from the buffer.
\<close>

unbundle bit_operations_syntax

subsection \<open>Byte order\<close>

fun le_val :: "bytes \<Rightarrow> nat" where
  "le_val [] = 0"
| "le_val (b # bs) = unat b + 256 * le_val bs"

fun le_bytes :: "nat \<Rightarrow> nat \<Rightarrow> bytes" where
  "le_bytes 0 v = []"
| "le_bytes (Suc n) v = of_nat v # le_bytes n (v div 256)"

definition load_le :: "bytes \<Rightarrow> 'a::len word" where
  "load_le bs = of_nat (le_val bs)"

text \<open>The byte swap of an \<open>n\<close>-byte integer, which is what \<^verbatim>\<open>ntohs\<close> (2) and \<^verbatim>\<open>ntohl\<close> (4) do on such a host.\<close>

definition bswap :: "nat \<Rightarrow> 'a::len word \<Rightarrow> 'a word" where
  "bswap n w = load_le (rev (le_bytes n (unat w)))"

definition ntohs :: "u16 \<Rightarrow> u16" where
  "ntohs w = bswap 2 w"

definition ntohl :: "u32 \<Rightarrow> u32" where
  "ntohl w = bswap 4 w"

definition ntoh64 :: "u64 \<Rightarrow> u64" where
  "ntoh64 host =
     (let low = ucast (host AND 0xFFFFFFFF) :: u32;
          high = ucast (drop_bit 32 host AND 0xFFFFFFFF) :: u32;
          low = ntohl low;
          high = ntohl high;
          ret = ucast low;
          ret = push_bit 32 ret
      in ret OR ucast high)"

lemma le_val_less: "le_val bs < 256 ^ length bs"
proof (induction bs)
  case (Cons b bs)
  have "unat b + 256 * le_val bs < 256 * (le_val bs + 1)" using unat_byte_less [of b] by simp
  also have "\<dots> \<le> 256 * 256 ^ length bs" using Cons by simp
  finally show ?case by simp
qed simp

lemma length_le_bytes [simp]: "length (le_bytes n v) = n"
  by (induction n arbitrary: v) auto

lemma of_nat_byte: "(of_nat (unat (b :: byte) + 256 * v) :: byte) = b"
proof -
  have "(of_nat (256 * v) :: byte) = 0" by (simp only: word_of_nat_eq_0_iff) simp
  then show ?thesis by (simp only: of_nat_add) simp
qed

lemma le_bytes_val: "length bs = n \<Longrightarrow> le_bytes n (le_val bs) = bs"
proof (induction bs arbitrary: n)
  case (Cons b bs)
  then obtain m where n: "n = Suc m" "length bs = m" by (cases n) auto
  have "(unat b + 256 * le_val bs) div 256 = le_val bs" using unat_byte_less [of b] by simp
  then show ?case using n Cons.IH [OF n(2)] of_nat_byte [of b "le_val bs"] by (simp del: of_nat_add)
qed simp

lemma unat_of_nat_byte: "unat (of_nat v :: byte) = v mod 256"
  by (simp add: unat_of_nat)

lemma le_val_bytes: "le_val (le_bytes n v) = v mod 256 ^ n"
proof (induction n arbitrary: v)
  case (Suc n)
  have "v mod 256 + 256 * (v div 256 mod 256 ^ n) = v mod (256 * 256 ^ n)" by (simp add: mod_mult2_eq)
  then show ?case using Suc by (simp add: unat_of_nat_byte)
qed simp

lemma le_val_append: "le_val (xs @ ys) = le_val xs + 256 ^ length xs * le_val ys"
  by (induction xs) (simp_all add: algebra_simps)

lemma unat_load_le: "256 ^ length bs \<le> (2 :: nat) ^ LENGTH('a) \<Longrightarrow> unat (load_le bs :: 'a::len word) = le_val bs"
  using le_val_less [of bs] unfolding load_le_def by (simp add: unat_of_nat)

lemma bswap_load:
  assumes "length bs = n" "256 ^ n \<le> (2 :: nat) ^ LENGTH('a)"
  shows "bswap n (load_le bs :: 'a::len word) = load_le (rev bs)"
  using assms by (simp add: bswap_def unat_load_le le_bytes_val)

lemma ntohs_load: "ntohs (load_le [a, b]) = of_nat (256 * unat a + unat b)"
proof -
  have "ntohs (load_le [a, b]) = load_le [b, a]" unfolding ntohs_def by (subst bswap_load) simp_all
  then show ?thesis by (simp add: load_le_def algebra_simps)
qed

lemma unat_and_low: "unat ((x :: u64) AND 0xFFFFFFFF) = unat x mod 2 ^ 32"
proof -
  have "x AND 0xFFFFFFFF = take_bit 32 x" by (simp add: take_bit_eq_mask mask_eq_exp_minus_1)
  then show ?thesis by (simp only: unsigned_take_bit_eq take_bit_nat_def)
qed

lemma unat_drop_32: "unat (drop_bit 32 (x :: u64)) = unat x div 2 ^ 32"
  by (simp only: unat_drop_bit_eq drop_bit_nat_def)

lemma push_or_plus: "push_bit 32 (ucast (a :: u32) :: u64) OR ucast (b :: u32) = push_bit 32 (ucast a) + ucast b"
  by (rule disjunctive_add [symmetric]) (auto simp: bit_push_bit_iff bit_ucast_iff dest: bit_imp_le_length)

lemma ucast_load_le: "length bs = 4 \<Longrightarrow> ucast (load_le bs :: u32) = (load_le bs :: u64)"
  using le_val_less [of bs]
  by (intro word_unat_eq_iff [THEN iffD2]) (simp add: unsigned_ucast_eq unat_load_le take_bit_eq_mod)

lemma ntoh64_load:
  assumes "length bs = 8"
  shows "ntoh64 (load_le bs) = load_le (rev bs)"
proof -
  define lo hi where "lo = take 4 bs" and "hi = drop 4 bs"
  have l: "length lo = 4" "length hi = 4" "bs = lo @ hi" using assms by (simp_all add: lo_def hi_def)
  have v: "le_val bs = le_val lo + 2 ^ 32 * le_val hi" using l by (simp add: le_val_append)
  have b: "le_val lo < 2 ^ 32" "le_val hi < 2 ^ 32" using le_val_less [of lo] le_val_less [of hi] l by auto
  have u: "unat (load_le bs :: u64) = le_val bs" using assms by (simp add: unat_load_le)
  have low: "ucast ((load_le bs :: u64) AND 0xFFFFFFFF) = (load_le lo :: u32)"
    using b v l u by (intro word_unat_eq_iff [THEN iffD2]) (simp add: unat_and_low unat_load_le unsigned_ucast_eq take_bit_eq_mod)
  have high: "ucast (drop_bit 32 (load_le bs :: u64) AND 0xFFFFFFFF) = (load_le hi :: u32)"
    using b v l u
    by (intro word_unat_eq_iff [THEN iffD2])
      (simp add: unat_and_low unat_load_le unsigned_ucast_eq take_bit_nat_def unat_drop_32)
  have swap: "ntohl (load_le lo) = load_le (rev lo)" "ntohl (load_le hi) = load_le (rev hi)"
    using l unfolding ntohl_def by (simp_all add: bswap_load)
  have "ntoh64 (load_le bs) = push_bit 32 (ucast (load_le (rev lo) :: u32)) OR ucast (load_le (rev hi) :: u32)"
    by (simp add: ntoh64_def Let_def low high swap)
  also have "\<dots> = ucast (load_le (rev lo) :: u32) * 2 ^ 32 + ucast (load_le (rev hi) :: u32)"
    by (simp only: push_or_plus) (simp add: push_bit_eq_mult)
  also have "\<dots> = load_le (rev bs)"
    using l by (simp add: ucast_load_le) (simp add: load_le_def le_val_append algebra_simps)
  finally show ?thesis .
qed


subsection \<open>The frame header\<close>

text \<open>What \<^verbatim>\<open>read_size\<close> writes through its pointers: the header length, the mask and whether there is one.\<close>

record head_out =
  pack_head_length :: nat
  hmask :: bytes
  hismask :: bool

definition head_zero :: head_out where
  "head_zero = \<lparr>pack_head_length = 0, hmask = [0, 0, 0, 0], hismask = False\<rparr>"

text \<open>The mask after the length field, and the return.\<close>

definition read_mask :: "bytes \<Rightarrow> byte \<Rightarrow> int \<Rightarrow> nat \<Rightarrow> head_out \<Rightarrow> int \<times> head_out" where
  "read_mask buf is_mask pack_size offset out =
     (if is_mask \<noteq> 0 then
        if offset + 4 > length buf then (-1, out)
        else (pack_size, \<lparr>pack_head_length = offset + 4, hmask = take 4 (drop offset buf), hismask = True\<rparr>)
      else (pack_size, out\<lparr>pack_head_length := offset\<rparr>))"

text \<open>The 64-bit length is stored in an \<^verbatim>\<open>int\<close>: its low 32 bits, signed.\<close>

definition read_size :: "bytes \<Rightarrow> head_out \<Rightarrow> int \<times> head_out" where
  "read_size buf out =
     (if length buf < 2 then (-1, out)
      else
        let b0 = buf ! 0; b1 = buf ! 1;
            fin = drop_bit 7 b0 AND 1;
            rsv1 = drop_bit 6 b0 AND 1; rsv2 = drop_bit 5 b0 AND 1; rsv3 = drop_bit 4 b0 AND 1;
            opcode = b0 AND 0xf;
            is_mask = drop_bit 7 b1 AND 1;
            len = b1 AND 0x7f
        in if rsv1 \<noteq> 0 \<or> rsv2 \<noteq> 0 \<or> rsv3 \<noteq> 0 then (-2, out)
           else if fin = 0 \<or> opcode = 0 then (-2, out)
           else if opcode = 8 then (-3, out)
           else if len < 0x7E then read_mask buf is_mask (uint len) 2 out
           else if len = 0x7E then
             if length buf < 2 + 2 then (-1, out)
             else read_mask buf is_mask (uint (ntohs (load_le (take 2 (drop 2 buf))))) 4 out
           else
             if length buf < 2 + 8 then (-1, out)
             else read_mask buf is_mask (sint (ucast (ntoh64 (load_le (take 8 (drop 2 buf)))) :: 32 word)) 10 out)"

subsection \<open>The mask\<close>

fun xor_mask :: "bytes \<Rightarrow> nat \<Rightarrow> bytes \<Rightarrow> bytes" where
  "xor_mask m k [] = []"
| "xor_mask m k (b # bs) = (b XOR m ! (k mod 4)) # xor_mask m (Suc k) bs"

text \<open>
  \<^verbatim>\<open>decode_wsmask_data(buffer, size, uc)\<close>: the first \<open>n\<close> bytes of the buffer are unmasked in place; the loop does
  nothing for a negative size, which is still added to the count.
\<close>

definition decode_wsmask_data :: "bytes \<Rightarrow> int \<Rightarrow> uncomplete \<Rightarrow> (bytes \<times> uncomplete) option" where
  "decode_wsmask_data buf n uc =
     (if \<not> ismask uc then Some (buf, uc)
      else if n = 0 then Some (buf, uc)
      else if int (length buf) < n \<or> (0 < n \<and> hasunmask_size uc < 0) then None
      else Some (xor_mask (mask uc) (nat (hasunmask_size uc)) (take (nat n) buf) @ drop (nat n) buf,
                 uc\<lparr>hasunmask_size := hasunmask_size uc + n\<rparr>))"

lemma length_xor_mask [simp]: "length (xor_mask m k bs) = length bs"
  by (induction bs arbitrary: k) auto

lemma xor_mask_append: "xor_mask m k (as @ bs) = xor_mask m k as @ xor_mask m (k + length as) bs"
  by (induction as arbitrary: k) auto

lemma xor_mask_twice [simp]: "xor_mask m k (xor_mask m k bs) = bs"
  by (induction bs arbitrary: k) (auto simp: xor.assoc)

lemma take_xor_mask: "take n (xor_mask m k bs) = xor_mask m k (take n bs)"
  by (induction bs arbitrary: k n) (auto simp: take_Cons split: nat.splits)

lemma drop_xor_mask: "drop n (xor_mask m k bs) = xor_mask m (k + n) (drop n bs)"
  by (induction bs arbitrary: k n) (auto simp: drop_Cons split: nat.splits)

subsection \<open>The end of the HTTP header\<close>

text \<open>
  The loop of \<^verbatim>\<open>websocket_strnpos\<close> with \<open>n\<close> rounds left; reading the first byte of an empty rest is undefined.
\<close>

fun strnpos_loop :: "nat \<Rightarrow> int \<Rightarrow> bytes \<Rightarrow> bytes \<Rightarrow> int option" where
  "strnpos_loop 0 i hay needle = Some (-1)"
| "strnpos_loop (Suc n) i hay needle =
     (case hay of [] \<Rightarrow> None
      | h # rest \<Rightarrow>
          if h = needle ! 0 \<and> length hay < length needle then None
          else if h = needle ! 0 \<and> memcmp hay needle (length needle) = 0 then Some i
          else strnpos_loop n (i + 1) rest needle)"

definition websocket_strnpos :: "bytes \<Rightarrow> bytes \<Rightarrow> int option" where
  "websocket_strnpos hay needle =
     (if needle = [] then None
      else if length hay < length needle then Some (-1)
      else strnpos_loop (length hay - length needle + 1) 0 hay needle)"

definition crlf2 :: bytes where
  "crlf2 = [13, 10, 13, 10]"

definition get_http_header :: "bytes \<Rightarrow> int option" where
  "get_http_header buf = map_option (\<lambda>n. if n < 0 then n else n + 4) (websocket_strnpos buf crlf2)"

subsection \<open>Writing\<close>

definition frame_set_length :: "u64 \<Rightarrow> nat \<Rightarrow> byte" where
  "frame_set_length x i = ucast (drop_bit (i * 8) x AND 0xFF)"

definition lpack :: "bytes \<Rightarrow> bytes" where
  "lpack msg =
     (let len = of_nat (length msg) :: u64;
          h0 = [0x82];
          h = (if len < 126 then h0 @ [frame_set_length len 0]
               else (if len < 65536 then h0 @ [126]
                     else h0 @ [127, frame_set_length len 7, frame_set_length len 6, frame_set_length len 5,
                                frame_set_length len 4, frame_set_length len 3, frame_set_length len 2])
                    @ [frame_set_length len 1, frame_set_length len 0])
      in h @ msg)"

definition ltostring :: "bytes option \<Rightarrow> int \<Rightarrow> bytes option" where
  "ltostring p n =
     (case p of None \<Rightarrow> Some []
      | Some bs \<Rightarrow> if 0 \<le> n \<and> n \<le> int (length bs) then Some (take (nat n) bs) else None)"

definition lgetms :: "int \<Rightarrow> int \<Rightarrow> int" where
  "lgetms tv_sec tv_usec = (tv_sec * 1000000 + tv_usec) div 1000"


subsection \<open>Frames\<close>

text \<open>
  A data frame as RFC 6455 has it: final, no reserved bits, an opcode that is neither a continuation nor a close;
  the payload length in one of the three forms (7, 16 or 64 bits); a mask or none.
\<close>

datatype len_form = Len7 | Len16 | Len64

record ws_frame =
  fb0 :: byte
  form :: len_form
  fmask :: "bytes option"
  payload :: bytes

definition data_b0 :: "byte \<Rightarrow> bool" where
  "data_b0 b \<longleftrightarrow> drop_bit 6 b AND 1 = 0 \<and> drop_bit 5 b AND 1 = 0 \<and> drop_bit 4 b AND 1 = 0 \<and> drop_bit 7 b AND 1 \<noteq> 0 \<and>
     b AND 0xf \<noteq> 0 \<and> b AND 0xf \<noteq> 8"

definition frame_ok :: "ws_frame \<Rightarrow> bool" where
  "frame_ok f \<longleftrightarrow> data_b0 (fb0 f) \<and> (case fmask f of None \<Rightarrow> True | Some m \<Rightarrow> length m = 4) \<and>
     (case form f of Len7 \<Rightarrow> length (payload f) < 126 | Len16 \<Rightarrow> length (payload f) < 65536
      | Len64 \<Rightarrow> length (payload f) < 2 ^ 31)"

definition len7 :: "ws_frame \<Rightarrow> nat" where
  "len7 f = (case form f of Len7 \<Rightarrow> length (payload f) | Len16 \<Rightarrow> 126 | Len64 \<Rightarrow> 127)"

definition len_ext :: "ws_frame \<Rightarrow> bytes" where
  "len_ext f = (case form f of Len7 \<Rightarrow> [] | Len16 \<Rightarrow> rev (le_bytes 2 (length (payload f)))
                | Len64 \<Rightarrow> rev (le_bytes 8 (length (payload f))))"

definition mask_bytes :: "ws_frame \<Rightarrow> bytes" where
  "mask_bytes f = (case fmask f of None \<Rightarrow> [] | Some m \<Rightarrow> m)"

definition frame_head :: "ws_frame \<Rightarrow> bytes" where
  "frame_head f = [fb0 f, of_nat ((if fmask f = None then 0 else 128) + len7 f)] @ len_ext f @ mask_bytes f"

definition frame_body :: "ws_frame \<Rightarrow> bytes" where
  "frame_body f = (case fmask f of None \<Rightarrow> payload f | Some m \<Rightarrow> xor_mask m 0 (payload f))"

definition frame_enc :: "ws_frame \<Rightarrow> bytes" where
  "frame_enc f = frame_head f @ frame_body f"

definition head_of :: "ws_frame \<Rightarrow> head_out" where
  "head_of f = \<lparr>pack_head_length = length (frame_head f), hmask = (case fmask f of None \<Rightarrow> [0, 0, 0, 0] | Some m \<Rightarrow> m),
                hismask = (fmask f \<noteq> None)\<rparr>"

lemma length_frame_body [simp]: "length (frame_body f) = length (payload f)"
  by (simp add: frame_body_def split: option.splits)

lemma byte_and_7f: "(of_nat v :: byte) AND 0x7f = of_nat (v mod 128)"
proof -
  have "(of_nat v :: byte) AND 0x7f = take_bit 7 (of_nat v)" by (simp add: take_bit_eq_mask mask_eq_exp_minus_1)
  moreover have "unat (take_bit 7 (of_nat v :: byte)) = v mod 256 mod 128"
    by (simp only: unsigned_take_bit_eq take_bit_nat_def unat_of_nat) simp
  moreover have "unat (of_nat (v mod 128) :: byte) = v mod 256 mod 128"
    by (simp add: unat_of_nat mod_mod_cancel)
  ultimately show ?thesis by (simp add: word_unat_eq_iff)
qed

lemma byte_bit7:
  assumes "v < 256"
  shows "drop_bit 7 (of_nat v :: byte) AND 1 = of_nat (v div 128)"
proof -
  have d: "unat (drop_bit 7 (of_nat v :: byte)) = v div 128"
    using assms by (simp only: unat_drop_bit_eq drop_bit_nat_def unat_of_nat) simp
  have "v div 128 < 2" using assms by simp
  then have "drop_bit 7 (of_nat v :: byte) = of_nat (v div 128)"
    using d by (intro word_unat_eq_iff [THEN iffD2]) (simp add: unat_of_nat)
  moreover from \<open>v div 128 < 2\<close> have "v div 128 = 0 \<or> v div 128 = 1" by linarith
  ultimately show ?thesis by (auto simp: and_one_eq)
qed


lemma len7_less: "frame_ok f \<Longrightarrow> len7 f < 128"
  by (auto simp: frame_ok_def len7_def split: len_form.splits)

text \<open>The fields of the second byte.\<close>

lemma frame_b1:
  assumes "frame_ok f"
  defines "b1 \<equiv> of_nat ((if fmask f = None then 0 else 128) + len7 f) :: byte"
  shows "b1 AND 0x7f = of_nat (len7 f)" "drop_bit 7 b1 AND 1 = (if fmask f = None then 0 else 1)"
  using len7_less [OF assms(1)] unfolding b1_def byte_and_7f by (simp_all add: byte_bit7 div_add_self1 del: of_nat_add)

text \<open>The end of \<open>read_size\<close> on a buffer that has the mask complete or not.\<close>

lemma read_mask_frame:
  assumes ok: "frame_ok f" and h: "frame_head f = pre @ mask_bytes f" and b: "buf = take m (frame_head f @ rest)" "length pre \<le> m"
    "m \<le> length (frame_head f @ rest)"
  shows "read_mask buf (if fmask f = None then 0 else 1) n (length pre) head_zero =
    (if m < length (frame_head f) then (-1, head_zero) else (n, head_of f))"
proof (cases "fmask f")
  case None
  then show ?thesis using h b by (simp add: read_mask_def mask_bytes_def head_zero_def head_of_def)
next
  case (Some mk)
  then have "length mk = 4" using ok by (simp add: frame_ok_def)
  then show ?thesis
    using Some h b by (auto simp: read_mask_def mask_bytes_def head_zero_def head_of_def min_def)
qed

lemma uint_of_nat_small: "v < 2 ^ LENGTH('a) \<Longrightarrow> uint (of_nat v :: 'a::len word) = int v"
  by (metis of_nat_inverse uint_nat)

lemma ext16: "length (payload f) < 65536 \<Longrightarrow>
    uint (ntohs (load_le (rev (le_bytes 2 (length (payload f)))))) = int (length (payload f))"
proof -
  let ?n = "length (payload f)"
  assume n: "?n < 65536"
  have "ntohs (load_le (rev (le_bytes 2 ?n))) = load_le (le_bytes 2 ?n)"
    unfolding ntohs_def by (subst bswap_load) simp_all
  also have "\<dots> = of_nat ?n" using n by (simp add: load_le_def le_val_bytes)
  finally show ?thesis using n by (simp add: uint_of_nat_small)
qed

lemma ext64: "length (payload f) < 2 ^ 31 \<Longrightarrow>
    sint (ucast (ntoh64 (load_le (rev (le_bytes 8 (length (payload f)))))) :: 32 word) = int (length (payload f))"
proof -
  let ?n = "length (payload f)"
  assume n: "?n < 2 ^ 31"
  have "ntoh64 (load_le (rev (le_bytes 8 ?n))) = load_le (le_bytes 8 ?n)" by (subst ntoh64_load) simp_all
  also have "\<dots> = of_nat ?n" using n by (simp add: load_le_def le_val_bytes)
  finally have "ucast (ntoh64 (load_le (rev (le_bytes 8 ?n)))) = (of_nat ?n :: 32 word)"
    by (simp add: unsigned_of_nat word_of_nat_eq_iff take_bit_take_bit)
  moreover have "sint (of_nat ?n :: 32 word) = int ?n"
    using n by (simp add: sint_uint uint_of_nat_small signed_take_bit_int_eq_self)
  ultimately show ?thesis by simp
qed

text \<open>The three parts of reading a header: the branch on the second byte, the length behind it, and the mask.\<close>

definition frame_im :: "ws_frame \<Rightarrow> byte" where
  "frame_im f = (if fmask f = None then 0 else 1)"

lemma read_size_core:
  assumes ok: "frame_ok f" and m: "m \<le> length (frame_head f @ rest)" "2 \<le> m"
  shows "read_size (take m (frame_head f @ rest)) head_zero =
      (let buf = take m (frame_head f @ rest)
       in if (of_nat (len7 f) :: byte) < 0x7E then read_mask buf (frame_im f) (uint (of_nat (len7 f) :: byte)) 2 head_zero
       else if (of_nat (len7 f) :: byte) = 0x7E then
         if m < 2 + 2 then (-1, head_zero)
         else read_mask buf (frame_im f) (uint (ntohs (load_le (take 2 (drop 2 buf))))) 4 head_zero
       else
         if m < 2 + 8 then (-1, head_zero)
         else read_mask buf (frame_im f) (sint (ucast (ntoh64 (load_le (take 8 (drop 2 buf)))) :: 32 word)) 10 head_zero)"
proof -
  let ?b1 = "of_nat ((if fmask f = None then 0 else 128) + len7 f) :: byte"
  let ?buf = "take m (frame_head f @ rest)"
  have len: "length ?buf = m" using m(1) by auto
  have b: "?buf ! 0 = fb0 f" "?buf ! 1 = ?b1" using m by (simp_all add: frame_head_def)
  have b0: "drop_bit 6 (fb0 f) AND 1 = 0" "drop_bit 5 (fb0 f) AND 1 = 0" "drop_bit 4 (fb0 f) AND 1 = 0"
    "drop_bit 7 (fb0 f) AND 1 \<noteq> 0" "fb0 f AND 0xf \<noteq> 0" "fb0 f AND 0xf \<noteq> 8"
    using ok by (auto simp: frame_ok_def data_b0_def)
  show ?thesis
    unfolding read_size_def len Let_def b frame_b1 [OF ok] frame_im_def using m(2) b0 by simp
qed

lemma len_ext_bytes:
  assumes "m \<le> length (frame_head f @ rest)" "length (len_ext f) = k" "2 + k \<le> m"
  shows "take k (drop 2 (take m (frame_head f @ rest))) = len_ext f"
  using assms by (simp add: frame_head_def take_drop drop_take min_def)

lemma read_mask_of_head:
  assumes ok: "frame_ok f" and m: "m \<le> length (frame_head f @ rest)" and k: "k = 2 + length (len_ext f)" "k \<le> m"
  shows "read_mask (take m (frame_head f @ rest)) (frame_im f) n k head_zero =
    (if m < length (frame_head f) then (-1, head_zero) else (n, head_of f))"
proof -
  let ?b1 = "of_nat ((if fmask f = None then 0 else 128) + len7 f) :: byte"
  have "frame_head f = ([fb0 f, ?b1] @ len_ext f) @ mask_bytes f" by (simp add: frame_head_def)
  then show ?thesis
    using read_mask_frame [OF ok _ refl _ m, of "[fb0 f, ?b1] @ len_ext f" n] k by (simp add: frame_im_def)
qed

lemma read_size_len7:
  assumes ok: "frame_ok f" and m: "m \<le> length (frame_head f @ rest)" "2 \<le> m" and form: "form f = Len7"
  shows "read_size (take m (frame_head f @ rest)) head_zero =
    (if m < length (frame_head f) then (-1, head_zero) else (int (length (payload f)), head_of f))"
proof -
  have l: "length (payload f) < 126" "len7 f = length (payload f)" "len_ext f = []"
    using ok form by (auto simp: frame_ok_def len7_def len_ext_def)
  then have "(of_nat (len7 f) :: byte) < 0x7E" "uint (of_nat (len7 f) :: byte) = int (length (payload f))"
    by (simp_all add: word_less_nat_alt unat_of_nat uint_of_nat_small)
  moreover have "2 = 2 + length (len_ext f)" using l(3) by simp
  ultimately show ?thesis unfolding read_size_core [OF ok m] Let_def using read_mask_of_head [OF ok m(1) _ m(2)] by (simp only: if_True)
qed

lemma read_size_len16:
  assumes ok: "frame_ok f" and m: "m \<le> length (frame_head f @ rest)" "2 \<le> m" and form: "form f = Len16"
  shows "read_size (take m (frame_head f @ rest)) head_zero =
    (if m < length (frame_head f) then (-1, head_zero) else (int (length (payload f)), head_of f))"
proof -
  have l: "length (payload f) < 65536" "len7 f = 126" "len_ext f = rev (le_bytes 2 (length (payload f)))"
    using ok form by (auto simp: frame_ok_def len7_def len_ext_def)
  have c: "\<not> (of_nat (len7 f) :: byte) < 0x7E" "(of_nat (len7 f) :: byte) = 0x7E" using l(2) by (simp_all add: word_less_nat_alt)
  have e: "length (len_ext f) = 2" "4 = 2 + length (len_ext f)" using l(3) by simp_all
  show ?thesis
  proof (cases "m < 4")
    case True
    then show ?thesis unfolding read_size_core [OF ok m] Let_def using c e(1) by (simp add: frame_head_def)
  next
    case False
    then have "take 2 (drop 2 (take m (frame_head f @ rest))) = len_ext f" using m(1) e(1) by (intro len_ext_bytes) simp_all
    moreover have "\<not> m < 2 + 2" "4 \<le> m" using False by simp_all
    ultimately show ?thesis unfolding read_size_core [OF ok m] Let_def using c read_mask_of_head [OF ok m(1) e(2)]
      by (simp only: if_True if_False l(3) ext16 [OF l(1)] simp_thms)
  qed
qed

lemma read_size_len64:
  assumes ok: "frame_ok f" and m: "m \<le> length (frame_head f @ rest)" "2 \<le> m" and form: "form f = Len64"
  shows "read_size (take m (frame_head f @ rest)) head_zero =
    (if m < length (frame_head f) then (-1, head_zero) else (int (length (payload f)), head_of f))"
proof -
  have l: "length (payload f) < 2 ^ 31" "len7 f = 127" "len_ext f = rev (le_bytes 8 (length (payload f)))"
    using ok form by (auto simp: frame_ok_def len7_def len_ext_def)
  have c: "\<not> (of_nat (len7 f) :: byte) < 0x7E" "(of_nat (len7 f) :: byte) \<noteq> 0x7E" using l(2) by (simp_all add: word_less_nat_alt)
  have e: "length (len_ext f) = 8" "10 = 2 + length (len_ext f)" using l(3) by simp_all
  show ?thesis
  proof (cases "m < 10")
    case True
    then show ?thesis unfolding read_size_core [OF ok m] Let_def using c e(1) by (simp add: frame_head_def)
  next
    case False
    then have "take 8 (drop 2 (take m (frame_head f @ rest))) = len_ext f" using m(1) e(1) by (intro len_ext_bytes) simp_all
    moreover have "\<not> m < 2 + 8" "10 \<le> m" using False by simp_all
    ultimately show ?thesis unfolding read_size_core [OF ok m] Let_def using c read_mask_of_head [OF ok m(1) e(2)]
      by (simp only: if_True if_False l(3) ext64 [OF l(1)] simp_thms)
  qed
qed

theorem read_size_frame:
  assumes ok: "frame_ok f" and m: "m \<le> length (frame_head f @ rest)"
  shows "read_size (take m (frame_head f @ rest)) head_zero =
    (if m < length (frame_head f) then (-1, head_zero) else (int (length (payload f)), head_of f))"
proof (cases "m < 2")
  case True
  then show ?thesis by (simp add: read_size_def frame_head_def)
next
  case False
  then show ?thesis using read_size_len7 [OF ok m] read_size_len16 [OF ok m] read_size_len64 [OF ok m] by (cases "form f") simp_all
qed

subsection \<open>What the server writes is such a frame\<close>

lemma frame_set_length_div: "n < 2 ^ 64 \<Longrightarrow> frame_set_length (of_nat n) i = of_nat (n div 256 ^ i)"
proof -
  assume n: "n < 2 ^ 64"
  let ?x = "drop_bit (i * 8) (of_nat n :: u64)"
  have "ucast (?x AND 0xFF) = (ucast ?x :: byte)"
  proof -
    have "?x AND 0xFF = take_bit 8 ?x" by (simp add: take_bit_eq_mask mask_eq_exp_minus_1)
    then show ?thesis by (simp only:) (rule bit_word_eqI, auto simp: bit_ucast_iff bit_take_bit_iff)
  qed
  moreover have "unat ?x = n div 256 ^ i"
    using n power_mult [of "2 :: nat" 8 i] by (simp only: unat_drop_bit_eq drop_bit_nat_def unat_of_nat) (simp add: mult.commute)
  then have "(ucast ?x :: byte) = of_nat (n div 256 ^ i)" by (metis of_nat_unat)
  ultimately show ?thesis by (simp add: frame_set_length_def)
qed

definition server_frame :: "bytes \<Rightarrow> ws_frame" where
  "server_frame msg =
     \<lparr>fb0 = 0x82, form = (if length msg < 126 then Len7 else if length msg < 65536 then Len16 else Len64),
      fmask = None, payload = msg\<rparr>"

lemma le_bytes_map: "le_bytes n v = map (\<lambda>i. of_nat (v div 256 ^ i)) [0..<n]"
proof (induction n arbitrary: v)
  case (Suc n)
  then show ?case by (simp add: map_upt_Suc div_mult2_eq [symmetric] del: upt_Suc)
qed simp

lemma le_bytes_8: "rev (le_bytes 8 n) = map (\<lambda>i. of_nat (n div 256 ^ i)) [7, 6, 5, 4, 3, 2, 1, 0]"
  "rev (le_bytes 2 n) = map (\<lambda>i. of_nat (n div 256 ^ i)) [1, 0]"
proof -
  have "[0..<8] = [0, 1, 2, 3, 4, 5, 6, 7]" "[0..<2] = [0, 1]" by code_simp+
  then show "rev (le_bytes 8 n) = map (\<lambda>i. of_nat (n div 256 ^ i)) [7, 6, 5, 4, 3, 2, 1, 0]"
    "rev (le_bytes 2 n) = map (\<lambda>i. of_nat (n div 256 ^ i)) [1, 0]"
    by (simp_all add: le_bytes_map)
qed

lemma lpack_frame:
  assumes "length msg < 2 ^ 64"
  shows "lpack msg = frame_enc (server_frame msg)"
proof -
  let ?n = "length msg"
  have c: "(of_nat ?n :: u64) < 126 \<longleftrightarrow> ?n < 126" "(of_nat ?n :: u64) < 65536 \<longleftrightarrow> ?n < 65536"
    using assms by (simp_all add: word_less_nat_alt unat_of_nat)
  show ?thesis
    unfolding lpack_def Let_def c frame_set_length_div [OF assms]
    by (simp add: frame_enc_def frame_head_def frame_body_def server_frame_def len7_def len_ext_def mask_bytes_def le_bytes_8)
qed

lemma server_frame_ok: "length msg < 2 ^ 31 \<Longrightarrow> frame_ok (server_frame msg)"
  by (simp add: frame_ok_def server_frame_def data_b0_def)

subsection \<open>Searching\<close>

fun find_sub :: "bytes \<Rightarrow> bytes \<Rightarrow> nat option" where
  "find_sub nd [] = None"
| "find_sub nd (h # t) = (if prefix nd (h # t) then Some 0 else map_option Suc (find_sub nd t))"

lemma find_sub_short: "length hay < length nd \<Longrightarrow> find_sub nd hay = None"
  by (induction hay) (auto dest: prefix_length_le)

lemma strnpos_loop_spec:
  assumes "nd \<noteq> []" "length nd \<le> length hay"
  shows "strnpos_loop (length hay - length nd + 1) i hay nd =
    Some (case find_sub nd hay of None \<Rightarrow> -1 | Some k \<Rightarrow> i + int k)"
  using assms(2)
proof (induction hay arbitrary: i)
  case Nil
  then show ?case using assms(1) by simp
next
  case (Cons h t)
  have "prefix nd (h # t) \<longleftrightarrow> take (length nd) (h # t) = nd" by (metis append_take_drop_id append_eq_conv_conj prefix_def)
  then have m: "h = nd ! 0 \<and> memcmp (h # t) nd (length nd) = 0 \<longleftrightarrow> prefix nd (h # t)"
    using Cons.prems assms(1) memcmp_take [of "length nd" "h # t" nd] by (cases nd) auto
  show ?case
  proof (cases "length nd \<le> length t")
    case True
    then have "Suc (length t) - length nd = length t - length nd + 1" by simp
    then show ?thesis
      using Cons.IH [OF True, of "i + 1"] m True by (auto split: option.splits)
  next
    case False
    then have "length nd = Suc (length t)" using Cons.prems by simp
    then show ?thesis using m find_sub_short [of t nd] by auto
  qed
qed

lemma websocket_strnpos_spec:
  "nd \<noteq> [] \<Longrightarrow> websocket_strnpos hay nd = Some (case find_sub nd hay of None \<Rightarrow> -1 | Some k \<Rightarrow> int k)"
  using strnpos_loop_spec [of nd hay 0] find_sub_short [of hay nd]
  by (cases "length hay < length nd"; cases "find_sub nd hay")
    (simp_all add: websocket_strnpos_def del: strnpos_loop.simps)

lemma get_http_header_spec:
  "get_http_header buf = Some (case find_sub crlf2 buf of None \<Rightarrow> -1 | Some k \<Rightarrow> int k + 4)"
  using websocket_strnpos_spec [of crlf2 buf]
  by (auto simp: get_http_header_def crlf2_def split: option.splits)

end
