(* ===== verification/Wsnetpack.thy ===== *)
theory Wsnetpack
  imports Ws_Codec
begin

text \<open>
  The stream side of server/lualib-src/lua-websocketnetpack.c: \<^verbatim>\<open>push_more\<close>, \<^verbatim>\<open>filter_data_\<close> and \<^verbatim>\<open>lfilter\<close>. The
  queue in slot 1 of the Lua stack is the state; the values left on the stack are the event. \<open>hs\<close> is the
  argument \<^verbatim>\<open>wsocket_handeshake\<close>: the connection still sends its HTTP header.
\<close>

datatype ws_event =
    EvNone
  | EvData int bytes int
  | EvMore
  | EvError int bytes
  | EvOpen int bytes
  | EvClose int
  | EvWarning int int

subsection \<open>Saving an unfinished package\<close>

definition save_header :: "ws_queue option \<Rightarrow> int \<Rightarrow> bytes \<Rightarrow> bool \<Rightarrow> ws_queue option" where
  "save_header q fd buf hs =
     (let w = get_queue q; uc = (uc_zero fd)\<lparr>uread := -1\<rparr>
      in if hs \<and> length buf > HEADERSIZE then
           map_option (\<lambda>h. link_uc w fd (uc\<lparr>header_size := HEADERSIZE, hdr := h\<rparr>)) (mem_copy (hdr uc) 0 buf HEADERSIZE)
         else
           map_option (\<lambda>h. link_uc w fd (uc\<lparr>header_size := header_size uc + length buf, hdr := h\<rparr>))
             (mem_copy (hdr uc) 0 buf (length buf)))"

definition masked_uc :: "int \<Rightarrow> head_out \<Rightarrow> uncomplete" where
  "masked_uc fd out = (uc_zero fd)\<lparr>mask := hmask out, ismask := hismask out, hasunmask_size := 0\<rparr>"

definition save_body :: "ws_queue option \<Rightarrow> int \<Rightarrow> bytes \<Rightarrow> int \<Rightarrow> head_out \<Rightarrow> ws_queue option" where
  "save_body q fd buf pack_size out =
     (let w = get_queue q;
          uc = (masked_uc fd out)\<lparr>uread := int (length buf), pack := \<lparr>np_id = fd, np_size = pack_size, np_buffer = []\<rparr>\<rparr>
      in if pack_size < int (length buf) then None
         else do { (d, uc') \<leftarrow> decode_wsmask_data buf (int (length buf)) uc;
                   Some (link_uc w fd (uc'\<lparr>pack := (pack uc')\<lparr>np_buffer := d\<rparr>\<rparr>)) })"

subsection \<open>Skipping frames\<close>

lemma read_size_skip: "read_size buf out = (r, out') \<Longrightarrow> r \<le> -2 \<Longrightarrow> 2 \<le> length buf"
  by (auto simp: read_size_def split: if_splits)

text \<open>
  The loops that skip two bytes as long as the header is refused: \<^verbatim>\<open><= -2\<close> in \<^verbatim>\<open>push_more\<close>, \<^verbatim>\<open>== -2\<close> in
  \<^verbatim>\<open>filter_data_\<close>. The result is what \<^verbatim>\<open>read_size\<close> gave last and the rest of the buffer.
\<close>

function skip_frames :: "bool \<Rightarrow> bytes \<Rightarrow> head_out \<Rightarrow> int \<times> head_out \<times> bytes" where
  "skip_frames all buf out =
     (let (r, out') = read_size buf out
      in if (if all then r \<le> -2 else r = -2)
         then skip_frames all (drop 2 buf) (out'\<lparr>hmask := [0, 0, 0, 0], hismask := False\<rparr>)
         else (if r > MAX_PACKSIZE then MAX_PACKSIZE else r, out', buf))"
  by pat_completeness auto
termination
  by (relation "measure (\<lambda>(all, buf, out). length buf)")
    (auto split: if_splits dest!: read_size_skip [OF sym])

declare skip_frames.simps [simp del]

lemma skip_frames_length: "skip_frames all buf out = (r, out', buf') \<Longrightarrow> length buf' \<le> length buf"
proof (induction all buf out rule: skip_frames.induct)
  case (1 all buf out)
  then show ?case
    by (subst (asm) (2) skip_frames.simps) (fastforce simp: Let_def split: if_splits prod.splits)
qed

text \<open>A frame that was read leaves its header in front of the buffer.\<close>

lemma read_mask_head: "read_mask buf im p off out = (r, out') \<Longrightarrow> 2 \<le> off \<Longrightarrow> off \<le> length buf \<Longrightarrow> r = -1 \<or> 2 \<le> pack_head_length out' \<and> pack_head_length out' \<le> length buf"
  by (auto simp: read_mask_def split: if_splits)

lemma read_size_head: "read_size buf out = (r, out') \<Longrightarrow> 0 \<le> r \<Longrightarrow> 2 \<le> pack_head_length out' \<and> pack_head_length out' \<le> length buf"
  by (auto simp: read_size_def Let_def split: if_splits dest: read_mask_head)

lemma skip_frames_head:
  "skip_frames all buf out = (r, out', buf') \<Longrightarrow> 0 \<le> r \<Longrightarrow> 2 \<le> pack_head_length out' \<and> pack_head_length out' \<le> length buf'"
proof (induction all buf out rule: skip_frames.induct)
  case (1 all buf out)
  obtain p o1 where p: "read_size buf out = (p, o1)" by fastforce
  show ?case
  proof (cases "if all then p \<le> -2 else p = -2")
    case True
    have "skip_frames all (drop 2 buf) (o1\<lparr>hmask := [0, 0, 0, 0], hismask := False\<rparr>) = (r, out', buf')"
      using "1.prems"(1) unfolding skip_frames.simps [of all buf out] Let_def p prod.case if_P [OF True] .
    with "1.IH" [OF p [symmetric] refl True] "1.prems"(2) show ?thesis by blast
  next
    case False
    then have "0 \<le> p" "out' = o1" "buf' = buf"
      using "1.prems" p by (auto simp: skip_frames.simps [of all buf out] Let_def MAX_PACKSIZE_def split: if_splits)
    then show ?thesis using read_size_head [OF p] by simp
  qed
qed

subsection \<open>\<^verbatim>\<open>push_more\<close>\<close>

text \<open>Reading the size of the next package, in both modes: the size, the header fields and the rest.\<close>

definition next_size :: "bool \<Rightarrow> bool \<Rightarrow> bytes \<Rightarrow> (int \<times> head_out \<times> bytes) option" where
  "next_size all hs buf =
     (if hs then map_option (\<lambda>n. (n, head_zero, buf)) (get_http_header buf) else Some (skip_frames all buf head_zero))"

lemma find_sub_bound: "find_sub nd hay = Some k \<Longrightarrow> k + length nd \<le> length hay"
  by (induction hay arbitrary: k) (auto split: if_splits dest: prefix_length_le)

lemma next_size_progress:
  assumes "next_size all hs buf = Some (r, out, buf')" "0 \<le> r"
  shows "length (drop (pack_head_length out + nat r) buf') < length buf"
proof (cases hs)
  case True
  with assms(1) have r: "r = (case find_sub crlf2 buf of None \<Rightarrow> -1 | Some k \<Rightarrow> int k + 4)" "buf' = buf" "out = head_zero"
    by (auto simp: next_size_def get_http_header_spec simp del: find_sub.simps)
  then obtain k where "find_sub crlf2 buf = Some k" "r = int k + 4" using assms(2) by (cases "find_sub crlf2 buf") simp_all
  then show ?thesis using find_sub_bound [of crlf2 buf k] r by (simp add: crlf2_def)
next
  case False
  then have s: "skip_frames all buf head_zero = (r, out, buf')" using assms(1) by (simp add: next_size_def)
  from skip_frames_head [OF s assms(2)] skip_frames_length [OF s] show ?thesis by (simp, linarith)
qed

function push_more :: "ws_queue option \<Rightarrow> int \<Rightarrow> bytes \<Rightarrow> bool \<Rightarrow> ws_queue option" where
  "push_more q fd buf hs =
     (case next_size True hs buf of None \<Rightarrow> None
      | Some (pack_size, out, buf1) \<Rightarrow>
          if pack_size = -1 then save_header q fd buf1 hs
          else if pack_size < 0 then None
          else
            let buf2 = drop (pack_head_length out) buf1
            in if int (length buf2) < pack_size \<and> \<not> hs then save_body q fd buf2 pack_size out
               else
                 (case decode_wsmask_data buf2 pack_size (masked_uc fd out) of None \<Rightarrow> None
                  | Some (d, _) \<Rightarrow>
                      (case push_data q fd d pack_size True of None \<Rightarrow> None
                       | Some w \<Rightarrow>
                           let rest = drop (pack_head_length out + nat pack_size) buf1
                           in if rest = [] then Some w else push_more (Some w) fd rest hs)))"
  by pat_completeness auto
termination
  by (relation "measure (\<lambda>(q, fd, buf, hs). length buf)") (auto dest!: next_size_progress)

declare push_more.simps [simp del]

subsection \<open>\<^verbatim>\<open>filter_data_\<close>\<close>

definition close_uncomplete :: "ws_queue option \<Rightarrow> int \<Rightarrow> ws_queue option" where
  "close_uncomplete q fd = snd (find_uncomplete q fd)"

text \<open>
  The header of an unfinished package is read byte by byte. When the two bytes in front are refused, they are
  removed: \<^verbatim>\<open>memmove(uc->header, uc->header + 2, uc->header_size)\<close>.
\<close>

function shift_header :: "uncomplete \<Rightarrow> head_out \<Rightarrow> int \<times> head_out \<times> uncomplete" where
  "shift_header uc out =
     (let (r, out') = read_size (take (header_size uc) (hdr uc)) out
      in if r = -2
         then let n = header_size uc - 2
              in shift_header (uc\<lparr>header_size := n, hdr := take n (drop 2 (hdr uc)) @ drop n (hdr uc)\<rparr>)
                   (out'\<lparr>hmask := [0, 0, 0, 0], hismask := False\<rparr>)
         else (if r > MAX_PACKSIZE then MAX_PACKSIZE else r, out', uc))"
  by pat_completeness auto
termination
  by (relation "measure (\<lambda>(uc, out). header_size uc)") (auto dest!: read_size_skip [OF sym])

declare shift_header.simps [simp del]

definition header_step :: "bool \<Rightarrow> byte \<Rightarrow> uncomplete \<Rightarrow> head_out \<Rightarrow> (int \<times> head_out \<times> uncomplete) option" where
  "header_step hs b uc out =
     do { h \<leftarrow> arr_set (hdr uc) (header_size uc) b;
          let uc1 = uc\<lparr>hdr := h, header_size := header_size uc + 1\<rparr>;
          if hs then
            if header_size uc1 > HEADERSIZE then Some (int HEADERSIZE, out, uc1\<lparr>header_size := HEADERSIZE\<rparr>)
            else map_option (\<lambda>n. (n, out, uc1)) (get_http_header (take (header_size uc1) (hdr uc1)))
          else Some (shift_header uc1 out) }"

fun fill_header :: "bool \<Rightarrow> bytes \<Rightarrow> uncomplete \<Rightarrow> head_out \<Rightarrow> (int \<times> head_out \<times> uncomplete \<times> bytes) option" where
  "fill_header hs [] uc out = Some (0, out, uc, [])"
| "fill_header hs (b # rest) uc out =
     do { (r, out1, uc1) \<leftarrow> header_step hs b uc out;
          if r \<ge> 0 \<or> rest = [] then Some (r, out1, uc1, rest) else fill_header hs rest uc1 out1 }"

text \<open>The package is allocated once its size is known; the handshake header is already part of it.\<close>

definition start_body :: "bool \<Rightarrow> uncomplete \<Rightarrow> head_out \<Rightarrow> int \<Rightarrow> uncomplete option" where
  "start_body hs uc out pack_size =
     (if pack_size < 0 then None
      else
        let uc1 = uc\<lparr>mask := hmask out, ismask := hismask out, hasunmask_size := 0,
                     pack := (pack uc)\<lparr>np_size := pack_size\<rparr>\<rparr>;
            rd = (if hs then min (int (header_size uc)) pack_size else 0)
        in Some (uc1\<lparr>uread := rd, pack := (pack uc1)\<lparr>np_buffer := take (nat rd) (hdr uc)\<rparr>\<rparr>))"

text \<open>The bytes that arrive for a package in progress, once its size is known.\<close>

definition fill_body :: "ws_queue option \<Rightarrow> int \<Rightarrow> bytes \<Rightarrow> bool \<Rightarrow> uncomplete \<Rightarrow> (ws_event \<times> ws_queue option) option" where
  "fill_body q fd buf hs uc =
     (let need = np_size (pack uc) - uread uc
      in if int (length buf) < need then
           do { (d, uc1) \<leftarrow> decode_wsmask_data buf (int (length buf)) uc;
                w \<leftarrow> q;
                Some (EvNone, Some (link_uc w fd
                  (uc1\<lparr>pack := (pack uc1)\<lparr>np_buffer := np_buffer (pack uc1) @ d\<rparr>, uread := uread uc1 + int (length buf)\<rparr>))) }
         else if need < 0 then None
         else
           do { (d, uc1) \<leftarrow> decode_wsmask_data buf need uc;
                let data = np_buffer (pack uc1) @ take (nat need) d;
                let rest = drop (nat need) d;
                if rest = [] then Some (EvData fd data (np_size (pack uc1)), q)
                else do { w \<leftarrow> push_data q fd data (np_size (pack uc1)) False;
                          w' \<leftarrow> push_more (Some w) fd rest hs;
                          Some (EvMore, Some w') } })"

definition filter_uncomplete :: "ws_queue option \<Rightarrow> int \<Rightarrow> bytes \<Rightarrow> bool \<Rightarrow> uncomplete \<Rightarrow> (ws_event \<times> ws_queue option) option" where
  "filter_uncomplete q fd buf hs uc =
     (if uread uc < 0 then
        do { (pack_size, out, uc1, rest) \<leftarrow> fill_header hs buf uc head_zero;
             if pack_size = -1 then do { w \<leftarrow> q; Some (EvNone, Some (link_uc w fd uc1)) }
             else if pack_size = -3 then Some (EvClose fd, close_uncomplete q fd)
             else do { uc2 \<leftarrow> start_body hs uc1 out pack_size; fill_body q fd rest hs uc2 } }
      else fill_body q fd buf hs uc)"

definition filter_fresh :: "ws_queue option \<Rightarrow> int \<Rightarrow> bytes \<Rightarrow> bool \<Rightarrow> (ws_event \<times> ws_queue option) option" where
  "filter_fresh q fd buf hs =
     do { (pack_size, out, buf1) \<leftarrow> next_size False hs buf;
          if pack_size = -1 then map_option (\<lambda>w. (EvNone, Some w)) (save_header q fd buf1 hs)
          else if pack_size = -3 then Some (EvClose fd, close_uncomplete q fd)
          else if pack_size < 0 then None
          else
            let buf2 = drop (pack_head_length out) buf1
            in if int (length buf2) < pack_size \<and> \<not> hs
               then map_option (\<lambda>w. (EvNone, Some w)) (save_body q fd buf2 pack_size out)
               else do { (d, _) \<leftarrow> decode_wsmask_data buf2 pack_size (masked_uc fd out);
                         if int (length buf2) = pack_size then Some (EvData fd d (int (length buf2)), q)
                         else do { w \<leftarrow> push_data q fd d pack_size True;
                                   w' \<leftarrow> push_more (Some w) fd (drop (nat pack_size) d) hs;
                                   Some (EvMore, Some w') } } }"

text \<open>
  The lines that only add the size to the static counter \<^verbatim>\<open>total_size\<close> have no counterpart: nothing reads the counter. (It is
  an \<^verbatim>\<open>int\<close>, which overflows after 2 GiB of traffic.)
\<close>

definition filter_data0 :: "ws_queue option \<Rightarrow> int \<Rightarrow> bytes \<Rightarrow> bool \<Rightarrow> (ws_event \<times> ws_queue option) option" where
  "filter_data0 q fd buf hs =
     (case find_uncomplete q fd of
        (Some uc, q1) \<Rightarrow> filter_uncomplete q1 fd buf hs uc
      | (None, q1) \<Rightarrow> filter_fresh q1 fd buf hs)"

text \<open>The buffer of the socket message is freed after it was read.\<close>

definition filter_data :: "ws_queue option \<Rightarrow> int \<Rightarrow> bytes \<Rightarrow> bool \<Rightarrow> (ws_event \<times> ws_queue option) option" where
  "filter_data q fd buf hs = filter_data0 q fd buf hs"

subsection \<open>\<^verbatim>\<open>lfilter\<close>\<close>

datatype socket_type = SocketData | SocketConnect | SocketClose | SocketAccept | SocketError | SocketWarning | SocketOther

text \<open>
  \<^verbatim>\<open>struct skynet_socket_message\<close>, with the bytes behind the struct that hold the address or the error text when
  \<^verbatim>\<open>buffer\<close> is null.
\<close>

record skynet_socket_message =
  mtype :: socket_type
  mid :: int
  mud :: int
  mbuffer :: "bytes option"
  mpadding :: bytes

text \<open>\<^verbatim>\<open>pushstring(L, buffer, size)\<close>: with a buffer the size is -1, which is not a length.\<close>

definition pushstring :: "skynet_socket_message \<Rightarrow> bytes option" where
  "pushstring m = (case mbuffer m of None \<Rightarrow> Some (mpadding m) | Some _ \<Rightarrow> None)"

definition lfilter :: "ws_queue option \<Rightarrow> skynet_socket_message \<Rightarrow> bool \<Rightarrow> (ws_event \<times> ws_queue option) option" where
  "lfilter q m hs =
     (case mtype m of
        SocketData \<Rightarrow>
          (case mbuffer m of None \<Rightarrow> None
           | Some buf \<Rightarrow> if 0 \<le> mud m \<and> mud m \<le> int (length buf) then filter_data q (mid m) (take (nat (mud m)) buf) hs else None)
      | SocketConnect \<Rightarrow> Some (EvNone, q)
      | SocketClose \<Rightarrow> Some (EvClose (mid m), close_uncomplete q (mid m))
      | SocketAccept \<Rightarrow> map_option (\<lambda>s. (EvOpen (mud m) s, q)) (pushstring m)
      | SocketError \<Rightarrow> map_option (\<lambda>s. (EvError (mid m) s, close_uncomplete q (mid m))) (pushstring m)
      | SocketWarning \<Rightarrow> Some (EvWarning (mid m) (mud m), q)
      | SocketOther \<Rightarrow> Some (EvNone, q))"

end
