(* ===== verification/Ws_Stream.thy ===== *)
theory Ws_Stream
  imports Wsnetpack
begin

text \<open>
  A byte stream of data frames, cut into socket messages at any place: the state of a connection says how much of
  the frame in progress has been consumed, and every message moves that position on and delivers the payloads of
  the frames it completes.
\<close>

subsection \<open>Positions in a stream of frames\<close>

definition frame_fits :: "ws_frame \<Rightarrow> bool" where
  "frame_fits f \<longleftrightarrow> frame_ok f \<and> int (length (payload f)) \<le> MAX_PACKSIZE"

definition stream :: "ws_frame list \<Rightarrow> bytes" where
  "stream fs = concat (map frame_enc fs)"

text \<open>\<open>advance fs p\<close>: the frames completed by \<open>p\<close> bytes, those that are left, and how much of the next one is consumed.\<close>

fun advance :: "ws_frame list \<Rightarrow> nat \<Rightarrow> ws_frame list \<times> ws_frame list \<times> nat" where
  "advance [] p = ([], [], p)"
| "advance (f # fs) p =
     (if p < length (frame_enc f) then ([], f # fs, p)
      else let (d, r, p') = advance fs (p - length (frame_enc f)) in (f # d, r, p'))"

lemma frame_head_ge: "2 \<le> length (frame_head f)"
  by (simp add: frame_head_def)

lemma length_frame_enc: "length (frame_enc f) = length (frame_head f) + length (payload f)"
  by (simp add: frame_enc_def)

lemma frame_enc_pos: "0 < length (frame_enc f)"
  using frame_head_ge [of f] by (simp only: length_frame_enc)

lemma frame_head_small: "frame_ok f \<Longrightarrow> length (frame_head f) \<le> 14"
  by (auto simp: frame_head_def frame_ok_def len_ext_def mask_bytes_def split: len_form.splits option.splits)

lemma stream_Cons [simp]: "stream (f # fs) = frame_enc f @ stream fs" "stream [] = []"
  by (simp_all add: stream_def)

lemma advance_0 [simp]: "advance fs 0 = ([], fs, 0)"
  using frame_enc_pos by (cases fs) auto

lemma advance_add:
  "advance fs (p + n) = (let (d, r, p') = advance fs p; (d', r', p'') = advance r (p' + n) in (d @ d', r', p''))"
proof (induction fs arbitrary: p)
  case (Cons f fs)
  show ?case
  proof (cases "p < length (frame_enc f)")
    case False
    then have "p + n - length (frame_enc f) = (p - length (frame_enc f)) + n" by simp
    then show ?thesis using False Cons.IH [of "p - length (frame_enc f)"] by (auto simp: Let_def split: prod.splits)
  qed simp
qed simp

lemma advance_stream:
  "advance fs p = (d, r, p') \<Longrightarrow> p \<le> length (stream fs) \<Longrightarrow>
     fs = d @ r \<and> p = length (stream d) + p' \<and> (r = [] \<longrightarrow> p' = 0) \<and> (\<forall>f fs'. r = f # fs' \<longrightarrow> p' < length (frame_enc f))"
proof (induction fs arbitrary: p d)
  case (Cons f fs)
  show ?case
  proof (cases "p < length (frame_enc f)")
    case False
    then obtain d1 where d: "advance fs (p - length (frame_enc f)) = (d1, r, p')" "d = f # d1"
      using Cons.prems(1) by (auto split: prod.splits)
    moreover have "p - length (frame_enc f) \<le> length (stream fs)" using Cons.prems(2) by simp
    ultimately show ?thesis using Cons.IH [OF d(1)] False by auto
  qed (use Cons.prems in auto)
qed simp

subsection \<open>The state of a connection\<close>

definition np :: "int \<Rightarrow> ws_frame \<Rightarrow> netpack" where
  "np fd f = \<lparr>np_id = fd, np_size = int (length (payload f)), np_buffer = payload f\<rparr>"

text \<open>The mask state after \<open>k\<close> bytes of the body.\<close>

definition mask_at :: "ws_frame \<Rightarrow> nat \<Rightarrow> uncomplete \<Rightarrow> bool" where
  "mask_at f k uc \<longleftrightarrow> mask uc = hmask (head_of f) \<and> ismask uc = hismask (head_of f) \<and> (ismask uc \<longrightarrow> hasunmask_size uc = int k)"

definition head_state :: "int \<Rightarrow> ws_frame \<Rightarrow> nat \<Rightarrow> uncomplete \<Rightarrow> bool" where
  "head_state fd f p uc \<longleftrightarrow> np_id (pack uc) = fd \<and> uread uc < 0 \<and> header_size uc = p \<and> length (hdr uc) = HEADERSIZE \<and>
     take p (hdr uc) = take p (frame_head f) \<and> 0 < p \<and> p < length (frame_head f)"

definition body_state :: "int \<Rightarrow> ws_frame \<Rightarrow> nat \<Rightarrow> uncomplete \<Rightarrow> bool" where
  "body_state fd f k uc \<longleftrightarrow> np_id (pack uc) = fd \<and> np_size (pack uc) = int (length (payload f)) \<and> uread uc = int k \<and>
     np_buffer (pack uc) = take k (payload f) \<and> mask_at f k uc \<and> k \<le> length (payload f)"

definition conn_at :: "int \<Rightarrow> ws_frame list \<Rightarrow> nat \<Rightarrow> uncomplete option \<Rightarrow> bool" where
  "conn_at fd fs p uo \<longleftrightarrow>
     (case uo of None \<Rightarrow> p = 0
      | Some uc \<Rightarrow>
          (case fs of [] \<Rightarrow> False
           | f # _ \<Rightarrow> p < length (frame_enc f) \<and>
               (if p < length (frame_head f) then head_state fd f p uc else body_state fd f (p - length (frame_head f)) uc)))"

text \<open>A queue whose connection \<open>fd\<close> has nothing in progress, and what a step keeps of it.\<close>

definition wq_ok :: "ws_queue \<Rightarrow> bool" where
  "wq_ok w \<longleftrightarrow> ring_inv w \<and> table_ok w"

definition step_to :: "int \<Rightarrow> ws_queue \<Rightarrow> ws_queue \<Rightarrow> netpack list \<Rightarrow> ws_frame list \<Rightarrow> nat \<Rightarrow> bool" where
  "step_to fd w w' ps r p \<longleftrightarrow> wq_ok w' \<and> packs w' = packs w @ ps \<and> conn_at fd r p (conn_of w' fd) \<and>
     (\<forall>fd'. fd' \<noteq> fd \<longrightarrow> conn_of w' fd' = conn_of w fd')"

lemma conn_of_hash: "whash w' = whash w \<Longrightarrow> conn_of w' fd = conn_of w fd"
  by (simp add: conn_of_def)

lemma push_ok:
  assumes "wq_ok w"
  shows "\<exists>w'. ring_push w x = Some w' \<and> wq_ok w' \<and> packs w' = packs w @ [x] \<and> (\<forall>fd. conn_of w' fd = conn_of w fd)"
  using ring_push_ok [of w x] assms by (auto simp: wq_ok_def table_ok_def conn_of_def)

lemma link_step:
  assumes "wq_ok w" "conn_of w fd = None" "np_id (pack uc) = fd" "conn_at fd r p (Some uc)"
  shows "step_to fd w (link_uc w fd uc) [] r p"
proof -
  have "ring_of (link_uc w fd uc) = ring_of w" by (simp add: link_uc_def ring_of_def)
  moreover have "conn_of (link_uc w fd uc) fd' = (if fd' = fd then Some uc else conn_of w fd')" "table_ok (link_uc w fd uc)" for fd'
    using link_uc_spec [OF _ assms(2,3)] assms(1) unfolding wq_ok_def by blast+
  ultimately show ?thesis
    using assms(1,4) unfolding step_to_def wq_ok_def ring_inv_def packs_def by simp
qed

subsection \<open>Reading and unmasking a frame\<close>

lemma skip_frames_frame:
  assumes f: "frame_fits f" and n: "n \<le> length (frame_head f @ rest)"
  shows "skip_frames all (take n (frame_head f @ rest)) head_zero =
    (if n < length (frame_head f) then (-1, head_zero, take n (frame_head f @ rest))
     else (int (length (payload f)), head_of f, take n (frame_head f @ rest)))"
  using read_size_frame [OF _ n] f
  by (subst skip_frames.simps) (auto simp: frame_fits_def MAX_PACKSIZE_def)

lemma next_size_frame:
  assumes "frame_fits f" "n \<le> length (frame_enc f @ rest)"
  shows "next_size all False (take n (frame_enc f @ rest)) =
    Some (if n < length (frame_head f) then (-1, head_zero, take n (frame_enc f @ rest))
          else (int (length (payload f)), head_of f, take n (frame_enc f @ rest)))"
  using skip_frames_frame [OF assms(1), of n "frame_body f @ rest" all] assms(2)
  by (simp add: next_size_def frame_enc_def)

lemma decode_frame:
  assumes m: "mask_at f k uc" and n: "k + n \<le> length (payload f)"
  shows "\<exists>uc'. decode_wsmask_data (take n (drop k (frame_body f)) @ ys) (int n) uc = Some (take n (drop k (payload f)) @ ys, uc') \<and>
    mask_at f (k + n) uc' \<and> (\<exists>h. uc' = uc\<lparr>hasunmask_size := h\<rparr>)"
proof (cases "fmask f")
  case None
  then have "\<not> ismask uc" "frame_body f = payload f" using m by (simp_all add: mask_at_def head_of_def frame_body_def)
  then show ?thesis
    using m None by (intro exI [of _ uc]) (simp add: decode_wsmask_data_def mask_at_def exI [of _ "hasunmask_size uc"])
next
  case (Some mk)
  then have i: "ismask uc" "mask uc = mk" "hasunmask_size uc = int k" "frame_body f = xor_mask mk 0 (payload f)"
    using m by (simp_all add: mask_at_def head_of_def frame_body_def)
  have t: "take n (drop k (frame_body f)) = xor_mask mk k (take n (drop k (payload f)))"
    by (simp add: i(4) drop_xor_mask take_xor_mask)
  have l: "length (take n (drop k (frame_body f))) = n" using n by simp
  show ?thesis
  proof (cases "n = 0")
    case True
    then show ?thesis using m i by (intro exI [of _ uc]) (simp add: decode_wsmask_data_def exI [of _ "hasunmask_size uc"])
  next
    case False
    then have "decode_wsmask_data (take n (drop k (frame_body f)) @ ys) (int n) uc =
        Some (take n (drop k (payload f)) @ ys, uc\<lparr>hasunmask_size := int k + int n\<rparr>)"
      using i l by (simp add: decode_wsmask_data_def drop_xor_mask take_xor_mask)
    then show ?thesis using m i by (auto simp: mask_at_def)
  qed
qed


subsection \<open>Saving what is left of a message\<close>

lemma save_header_step:
  assumes w: "wq_ok w" "conn_of w fd = None" and f: "frame_fits f" and n: "0 < n" "n < length (frame_head f)"
  shows "\<exists>w'. save_header (Some w) fd (take n (frame_enc f @ rest)) False = Some w' \<and> step_to fd w w' [] (f # fs) n"
proof -
  define buf where "buf = take n (frame_enc f @ rest)"
  have b: "buf = take n (frame_head f)" "length buf = n" using n by (simp_all add: frame_enc_def buf_def)
  have small: "n \<le> HEADERSIZE" using frame_head_small [of f] f n by (simp add: frame_fits_def HEADERSIZE_def)
  let ?uc = "(uc_zero fd)\<lparr>uread := -1, header_size := n, hdr := buf @ replicate (HEADERSIZE - n) 0\<rparr>"
  have "mem_copy (replicate HEADERSIZE 0) 0 buf n = Some (buf @ replicate (HEADERSIZE - n) 0)"
    using small b(2) by (simp add: mem_copy_def)
  then have "save_header (Some w) fd buf False = Some (link_uc w fd ?uc)"
    using b(2) by (simp add: save_header_def get_queue_def uc_zero_def)
  moreover have "head_state fd f n ?uc" using b n small by (simp add: head_state_def uc_zero_def)
  then have "conn_at fd (f # fs) n (Some ?uc)" using n by (simp add: conn_at_def length_frame_enc)
  ultimately show ?thesis using link_step [OF w, of ?uc] unfolding buf_def [symmetric] by (simp add: uc_zero_def)
qed

lemma head_of_length [simp]: "pack_head_length (head_of f) = length (frame_head f)"
  by (simp add: head_of_def)

lemma mask_at_0: "mask_at f 0 (masked_uc fd (head_of f))"
  by (simp add: mask_at_def masked_uc_def uc_zero_def)

lemma drop_head:
  "length (frame_head f) \<le> n \<Longrightarrow>
     drop (length (frame_head f)) (take n (frame_enc f @ rest)) = take (n - length (frame_head f)) (frame_body f @ rest)"
  by (simp add: frame_enc_def drop_take)

lemma save_body_step:
  assumes w: "wq_ok w" "conn_of w fd = None" and f: "frame_fits f"
    and n: "length (frame_head f) \<le> n" "n < length (frame_enc f)"
  shows "\<exists>w'. save_body (Some w) fd (drop (length (frame_head f)) (take n (frame_enc f @ rest)))
      (int (length (payload f))) (head_of f) = Some w' \<and> step_to fd w w' [] (f # fs) n"
proof -
  define k where "k = n - length (frame_head f)"
  have k: "k < length (payload f)" using n by (simp add: k_def length_frame_enc)
  have b: "drop (length (frame_head f)) (take n (frame_enc f @ rest)) = take k (drop 0 (frame_body f)) @ []"
    unfolding drop_head [OF n(1)] k_def [symmetric] using k by simp
  let ?uc = "(masked_uc fd (head_of f))\<lparr>uread := int k, pack := \<lparr>np_id = fd, np_size = int (length (payload f)), np_buffer = []\<rparr>\<rparr>"
  have "mask_at f 0 ?uc" using mask_at_0 [of f fd] by (simp add: mask_at_def)
  from decode_frame [OF this, of k "[]"] k
  obtain uc' where uc': "decode_wsmask_data (take k (drop 0 (frame_body f)) @ []) (int k) ?uc = Some (take k (drop 0 (payload f)) @ [], uc')"
    "mask_at f k uc'" "\<exists>h. uc' = ?uc\<lparr>hasunmask_size := h\<rparr>" by auto
  let ?uc2 = "uc'\<lparr>pack := (pack uc')\<lparr>np_buffer := take k (payload f)\<rparr>\<rparr>"
  have len: "length (take k (drop 0 (frame_body f)) @ []) = k" using k by simp
  have "save_body (Some w) fd (take k (drop 0 (frame_body f)) @ []) (int (length (payload f))) (head_of f) = Some (link_uc w fd ?uc2)"
    unfolding save_body_def Let_def len uc'(1) get_queue_def using k by simp
  moreover have "body_state fd f k ?uc2" using uc'(2,3) k by (auto simp: body_state_def mask_at_def)
  then have "conn_at fd (f # fs) n (Some ?uc2)" using n by (simp add: conn_at_def k_def)
  moreover have "np_id (pack ?uc2) = fd" using uc'(3) by auto
  ultimately show ?thesis using link_step [OF w, of ?uc2] unfolding b by auto
qed

lemma decode_full:
  assumes n: "length (frame_enc f) \<le> n"
  shows "\<exists>uc'. decode_wsmask_data (drop (length (frame_head f)) (take n (frame_enc f @ rest))) (int (length (payload f)))
        (masked_uc fd (head_of f)) = Some (payload f @ take (n - length (frame_enc f)) rest, uc')"
proof -
  have "drop (length (frame_head f)) (take n (frame_enc f @ rest)) =
      take (length (payload f)) (drop 0 (frame_body f)) @ take (n - length (frame_enc f)) rest"
    using n by (subst drop_head) (simp_all add: length_frame_enc)
  then show ?thesis using decode_frame [OF mask_at_0, of "length (payload f)" f "take (n - length (frame_enc f)) rest"] by auto
qed

lemma push_data_frame:
  assumes w: "wq_ok w"
  shows "\<exists>w'. push_data (Some w) fd (payload f @ ys) (int (length (payload f))) True = Some w' \<and> wq_ok w' \<and>
    packs w' = packs w @ [np fd f] \<and> (\<forall>fd. conn_of w' fd = conn_of w fd)"
  using push_ok [OF w, of "np fd f"] by (simp add: push_data_def get_queue_def np_def)

subsection \<open>\<^verbatim>\<open>push_more\<close>\<close>

text \<open>One turn of the loop: the buffer ends inside the body of the first frame, or holds the whole of it.\<close>

lemma push_more_body:
  assumes w: "wq_ok w" "conn_of w fd = None" and f: "frame_fits f" and n: "n \<le> length (stream (f # fs))"
    and body: "length (frame_head f) \<le> n" "n < length (frame_enc f)"
  shows "\<exists>w'. push_more (Some w) fd (take n (stream (f # fs))) False = Some w' \<and> step_to fd w w' [] (f # fs) n"
proof -
  define buf where "buf = take n (frame_enc f @ stream fs)"
  have "length buf = n" using n by (simp add: buf_def)
  then have lt: "int (length (drop (length (frame_head f)) buf)) < int (length (payload f))"
    using body by (simp add: length_frame_enc)
  from save_body_step [OF w f body, of "stream fs" fs, folded buf_def] obtain w' where
    w': "save_body (Some w) fd (drop (length (frame_head f)) buf) (int (length (payload f))) (head_of f) = Some w'"
    "step_to fd w w' [] (f # fs) n" by blast
  have "next_size True False buf = Some (int (length (payload f)), head_of f, buf)"
    using next_size_frame [OF f, of n "stream fs" True] n body by (simp add: buf_def)
  then have "push_more (Some w) fd (take n (stream (f # fs))) False = Some w'"
    unfolding stream_Cons buf_def [symmetric] push_more.simps [of _ _ buf False]
    using lt w'(1) by (simp add: Let_def)
  with w'(2) show ?thesis by blast
qed

lemma push_more_full:
  assumes w: "wq_ok w" and f: "frame_fits f" and n: "n \<le> length (stream (f # fs))" and full: "length (frame_enc f) \<le> n"
  shows "\<exists>w1. wq_ok w1 \<and> packs w1 = packs w @ [np fd f] \<and> (\<forall>i. conn_of w1 i = conn_of w i) \<and>
    push_more (Some w) fd (take n (stream (f # fs))) False =
      (if take (n - length (frame_enc f)) (stream fs) = [] then Some w1
       else push_more (Some w1) fd (take (n - length (frame_enc f)) (stream fs)) False)"
proof -
  let ?m = "n - length (frame_enc f)"
  define buf where "buf = take n (frame_enc f @ stream fs)"
  obtain uc' where dec: "decode_wsmask_data (drop (length (frame_head f)) buf) (int (length (payload f))) (masked_uc fd (head_of f)) =
      Some (payload f @ take ?m (stream fs), uc')" using decode_full [OF full] unfolding buf_def by blast
  obtain w1 where w1: "push_data (Some w) fd (payload f @ take ?m (stream fs)) (int (length (payload f))) True = Some w1"
    "wq_ok w1" "packs w1 = packs w @ [np fd f]" "\<forall>i. conn_of w1 i = conn_of w i"
    using push_data_frame [OF w] by blast
  have hl: "length (frame_head f) \<le> n" "\<not> int (length (drop (length (frame_head f)) buf)) < int (length (payload f))"
    using full n by (simp_all add: length_frame_enc buf_def)
  have rest: "drop (length (frame_head f) + length (payload f)) buf = take ?m (stream fs)"
    using full by (simp add: length_frame_enc [symmetric] drop_take buf_def)
  have "next_size True False buf = Some (int (length (payload f)), head_of f, buf)"
    using next_size_frame [OF f, of n "stream fs" True] n hl(1) by (simp add: buf_def)
  then have "push_more (Some w) fd (take n (stream (f # fs))) False =
      (if take ?m (stream fs) = [] then Some w1 else push_more (Some w1) fd (take ?m (stream fs)) False)"
    unfolding stream_Cons buf_def [symmetric] push_more.simps [of _ _ buf False]
    using hl(2) dec w1(1) rest by (simp add: Let_def)
  with w1(2-4) show ?thesis by blast
qed

lemma push_more_step:
  assumes "wq_ok w" "conn_of w fd = None" "\<forall>f \<in> set fs. frame_fits f" "0 < n" "n \<le> length (stream fs)"
  shows "\<exists>w' d r p. push_more (Some w) fd (take n (stream fs)) False = Some w' \<and> advance fs n = (d, r, p) \<and>
    step_to fd w w' (map (np fd) d) r p"
  using assms
proof (induction fs arbitrary: w n)
  case Nil
  then show ?case by simp
next
  case (Cons f fs)
  have f: "frame_fits f" using Cons.prems(3) by simp
  have n: "n \<le> length (frame_enc f @ stream fs)" using Cons.prems(5) by simp
  consider (head) "n < length (frame_head f)" | (body) "length (frame_head f) \<le> n" "n < length (frame_enc f)"
    | (full) "length (frame_enc f) \<le> n" by linarith
  then show ?case
  proof cases
    case head
    then have "n < length (frame_enc f)" by (simp add: length_frame_enc)
    with head save_header_step [OF Cons.prems(1,2) f Cons.prems(4) head, of "stream fs" fs]
      next_size_frame [OF f, of n "stream fs" True] n show ?thesis
      by (subst push_more.simps) simp
  next
    case body
    with push_more_body [OF Cons.prems(1,2) f Cons.prems(5) body] show ?thesis by auto
  next
    case full
    let ?m = "n - length (frame_enc f)"
    obtain w1 where w1: "wq_ok w1" "packs w1 = packs w @ [np fd f]" "\<And>i. conn_of w1 i = conn_of w i"
      and pm: "push_more (Some w) fd (take n (stream (f # fs))) False =
        (if take ?m (stream fs) = [] then Some w1 else push_more (Some w1) fd (take ?m (stream fs)) False)"
      using push_more_full [OF Cons.prems(1) f Cons.prems(5) full] by blast
    show ?thesis
    proof (cases "take ?m (stream fs) = []")
      case True
      then have "?m = 0" using n full by auto
      then show ?thesis using pm True full w1 Cons.prems(2) by (auto simp: step_to_def conn_at_def)
    next
      case False
      then have "0 < ?m" "?m \<le> length (stream fs)" using n by auto
      then obtain w' d r p where "push_more (Some w1) fd (take ?m (stream fs)) False = Some w'" "advance fs ?m = (d, r, p)"
        "step_to fd w1 w' (map (np fd) d) r p"
        using Cons.IH [OF w1(1), of ?m] w1(3) Cons.prems(2,3) by auto
      then show ?thesis using pm False full w1 by (auto simp: step_to_def)
    qed
  qed
qed


subsection \<open>The bytes of a package in progress\<close>

text \<open>The event and the packages in the ring after a message: what the caller receives, in order.\<close>

fun event_packs :: "int \<Rightarrow> ws_event \<Rightarrow> netpack list \<Rightarrow> netpack list option" where
  "event_packs fd EvNone ps = (if ps = [] then Some [] else None)"
| "event_packs fd EvMore ps = Some ps"
| "event_packs fd (EvData i d n) ps = (if i = fd \<and> ps = [] then Some [\<lparr>np_id = i, np_size = n, np_buffer = d\<rparr>] else None)"
| "event_packs fd _ ps = None"

definition delivers :: "int \<Rightarrow> ws_queue \<Rightarrow> ws_event \<times> ws_queue option \<Rightarrow> ws_frame list \<Rightarrow> ws_frame list \<Rightarrow> nat \<Rightarrow> bool" where
  "delivers fd w res d r p \<longleftrightarrow>
     (\<exists>w' ps. snd res = Some w' \<and> step_to fd w w' ps r p \<and> event_packs fd (fst res) ps = Some (map (np fd) d))"

lemma push_rest:
  assumes w: "wq_ok w" "conn_of w fd = None" and fs: "\<forall>g \<in> set fs. frame_fits g" and m: "0 < m" "m \<le> length (stream fs)"
    and w1: "ring_push w (np fd f) = Some w1"
  shows "\<exists>w' d r p. push_more (Some w1) fd (take m (stream fs)) False = Some w' \<and> advance fs m = (d, r, p) \<and>
    delivers fd w (EvMore, Some w') (f # d) r p"
proof -
  from push_ok [OF w(1), of "np fd f"] w1 have 1: "wq_ok w1" "packs w1 = packs w @ [np fd f]" "\<And>fd. conn_of w1 fd = conn_of w fd" by auto
  from push_more_step [OF 1(1) _ fs m, of fd] 1(3) w(2) obtain w' d r p where
    "push_more (Some w1) fd (take m (stream fs)) False = Some w'" "advance fs m = (d, r, p)" "step_to fd w1 w' (map (np fd) d) r p"
    by auto
  with 1 show ?thesis by (auto simp: delivers_def step_to_def)
qed

lemma fill_body_full:
  assumes "int m = np_size (pack uc) - uread uc" "m \<le> length buf" "decode_wsmask_data buf (int m) uc = Some (x @ ys, uc')"
    "length x = m" "np_size (pack uc') = sz0" "np_buffer (pack uc') @ x = data"
  shows "fill_body q fd buf False uc =
      (if ys = [] then Some (EvData fd data sz0, q)
       else do { w1 \<leftarrow> push_data q fd data sz0 False; w' \<leftarrow> push_more (Some w1) fd ys False; Some (EvMore, Some w') })"
proof -
  have "\<not> int (length buf) < int m" "\<not> int m < 0" using assms(2) by simp_all
  then show ?thesis
    unfolding fill_body_def Let_def assms(1) [symmetric] assms(3) using assms(4-6) by simp
qed

lemma fill_body_partial:
  assumes w: "wq_ok w" "conn_of w fd = None"
    and st: "body_state fd f k uc" and part: "n < length (payload f) - k"
  shows "\<exists>res d r p. fill_body (Some w) fd (take n (drop k (frame_body f) @ stream fs)) False uc = Some res \<and>
    advance (f # fs) (length (frame_head f) + k + n) = (d, r, p) \<and> delivers fd w res d r p"
proof -
  let ?buf = "take n (drop k (frame_body f)) @ []"
  have m: "mask_at f k uc" "k + n \<le> length (payload f)" using st part by (auto simp: body_state_def)
  obtain uc' where uc': "decode_wsmask_data ?buf (int n) uc = Some (take n (drop k (payload f)) @ [], uc')" "mask_at f (k + n) uc'"
    "\<exists>h. uc' = uc\<lparr>hasunmask_size := h\<rparr>"
    using decode_frame [OF m, of "[]"] by blast
  have buf: "take n (drop k (frame_body f) @ stream fs) = ?buf" "length ?buf = n" using part by simp_all
  let ?uc = "uc'\<lparr>pack := (pack uc')\<lparr>np_buffer := np_buffer (pack uc') @ take n (drop k (payload f))\<rparr>, uread := uread uc' + int n\<rparr>"
  have need: "int n < np_size (pack uc) - uread uc" using st part by (auto simp: body_state_def)
  have "fill_body (Some w) fd ?buf False uc = Some (EvNone, Some (link_uc w fd ?uc))"
    using need unfolding fill_body_def Let_def buf(2) uc'(1) by simp
  moreover have bs: "body_state fd f (k + n) ?uc"
    using uc'(2,3) st part by (auto simp: body_state_def mask_at_def take_add)
  then have "conn_at fd (f # fs) (length (frame_head f) + k + n) (Some ?uc)"
    using part by (simp add: conn_at_def length_frame_enc)
  then have "step_to fd w (link_uc w fd ?uc) [] (f # fs) (length (frame_head f) + k + n)"
    using bs by (intro link_step [OF w]) (simp_all add: body_state_def)
  moreover have "advance (f # fs) (length (frame_head f) + k + n) = ([], f # fs, length (frame_head f) + k + n)"
    using part by (simp add: length_frame_enc)
  ultimately show ?thesis unfolding buf(1) by (auto simp: delivers_def)
qed

lemma fill_body_complete:
  assumes w: "wq_ok w" "conn_of w fd = None" and f: "frame_fits f" and fs: "\<forall>g \<in> set fs. frame_fits g"
    and st: "body_state fd f k uc" and n: "n \<le> length (drop k (frame_body f) @ stream fs)"
    and full: "length (payload f) - k \<le> n"
  shows "\<exists>res d r p. fill_body (Some w) fd (take n (drop k (frame_body f) @ stream fs)) False uc = Some res \<and>
    advance (f # fs) (length (frame_head f) + k + n) = (d, r, p) \<and> delivers fd w res d r p"
proof -
  define m where "m = length (payload f) - k"
  let ?rest = "take (n - m) (stream fs)"
  have mk: "mask_at f k uc" "k + m = length (payload f)" using st by (auto simp: body_state_def m_def)
  obtain uc' where uc': "decode_wsmask_data (take m (drop k (frame_body f)) @ ?rest) (int m) uc =
      Some (take m (drop k (payload f)) @ ?rest, uc')" "\<exists>h. uc' = uc\<lparr>hasunmask_size := h\<rparr>"
    using decode_frame [OF mk(1), of m ?rest] mk(2) by auto
  have buf: "take n (drop k (frame_body f) @ stream fs) = take m (drop k (frame_body f)) @ ?rest"
    using full by (simp add: m_def)
  have len: "int m = np_size (pack uc) - uread uc" "m \<le> n" using st full by (auto simp: body_state_def m_def)
  have pk: "np_size (pack uc') = int (length (payload f))" "np_buffer (pack uc') @ take m (drop k (payload f)) = payload f"
    using uc'(2) st mk(2) by (auto simp: body_state_def simp flip: take_add)
  have fb: "fill_body (Some w) fd (take m (drop k (frame_body f)) @ ?rest) False uc =
      (if ?rest = [] then Some (EvData fd (payload f) (int (length (payload f))), Some w)
       else do { w1 \<leftarrow> ring_push w (np fd f); w' \<leftarrow> push_more (Some w1) fd ?rest False; Some (EvMore, Some w') })"
    using fill_body_full [OF len(1) _ uc'(1) _ pk, of "Some w" fd] mk(2)
    by (simp add: push_data_def get_queue_def np_def)
  have adv: "advance (f # fs) (length (frame_head f) + k + n) = (let (d, r, p) = advance fs (n - m) in (f # d, r, p))"
    using len(2) mk(2) by (simp add: length_frame_enc) (simp add: m_def add.commute)
  show ?thesis
  proof (cases "?rest = []")
    case True
    then have "n - m = 0" using n by (auto simp: m_def)
    with True adv fb buf w show ?thesis by (auto simp: delivers_def step_to_def conn_at_def np_def)
  next
    case nr: False
    obtain w1 where w1: "ring_push w (np fd f) = Some w1" using push_ok [OF w(1)] by blast
    have "0 < n - m" "n - m \<le> length (stream fs)" using nr n by (auto simp: m_def)
    from push_rest [OF w fs this w1] nr adv fb buf w1 show ?thesis by auto
  qed
qed

lemma fill_body_step:
  assumes w: "wq_ok w" "conn_of w fd = None" and f: "frame_fits f" and fs: "\<forall>g \<in> set fs. frame_fits g"
    and st: "body_state fd f k uc" and n: "n \<le> length (drop k (frame_body f) @ stream fs)"
  shows "\<exists>res d r p. fill_body (Some w) fd (take n (drop k (frame_body f) @ stream fs)) False uc = Some res \<and>
    advance (f # fs) (length (frame_head f) + k + n) = (d, r, p) \<and> delivers fd w res d r p"
  using fill_body_partial [OF w st] fill_body_complete [OF w f fs st n] by (cases "n < length (payload f) - k") simp_all


subsection \<open>The header of a package in progress\<close>

lemma header_step_frame:
  assumes f: "frame_fits f" and st: "head_state fd f p uc" and p: "p < length (frame_head f)"
  shows "\<exists>uc'. header_step False (frame_head f ! p) uc head_zero =
      Some (if Suc p < length (frame_head f) then (-1, head_zero, uc') else (int (length (payload f)), head_of f, uc')) \<and>
    np_id (pack uc') = fd \<and> uread uc' < 0 \<and> header_size uc' = Suc p \<and> length (hdr uc') = HEADERSIZE \<and>
    take (Suc p) (hdr uc') = take (Suc p) (frame_head f)"
proof -
  have ok: "frame_ok f" "length (payload f) \<le> 10240" using f by (auto simp: frame_fits_def MAX_PACKSIZE_def)
  have s: "header_size uc = p" "length (hdr uc) = HEADERSIZE" "take p (hdr uc) = take p (frame_head f)"
    using st by (simp_all add: head_state_def)
  have small: "p < HEADERSIZE" using frame_head_small [OF ok(1)] p by (simp add: HEADERSIZE_def)
  let ?uc = "uc\<lparr>hdr := (hdr uc)[p := frame_head f ! p], header_size := Suc p\<rparr>"
  have t: "take (Suc p) (hdr ?uc) = take (Suc p) (frame_head f)"
    using s small p by (simp add: take_Suc_conv_app_nth)
  have "read_size (take (header_size ?uc) (hdr ?uc)) head_zero =
      (if Suc p < length (frame_head f) then (-1, head_zero) else (int (length (payload f)), head_of f))"
    using read_size_frame [OF ok(1), of "Suc p" "[]"] p t by simp
  then have "shift_header ?uc head_zero =
      (if Suc p < length (frame_head f) then (-1, head_zero, ?uc) else (int (length (payload f)), head_of f, ?uc))"
    using ok(2) by (subst shift_header.simps) (auto simp: MAX_PACKSIZE_def)
  then have "header_step False (frame_head f ! p) uc head_zero =
      Some (if Suc p < length (frame_head f) then (-1, head_zero, ?uc) else (int (length (payload f)), head_of f, ?uc))"
    using s small by (simp add: header_step_def arr_set_def)
  then show ?thesis using t s st by (intro exI [of _ ?uc]) (simp add: head_state_def)
qed

lemma fill_header_frame:
  assumes f: "frame_fits f" and st: "head_state fd f p uc" and n: "0 < n"
    and l: "n \<le> length (drop p (frame_head f) @ rest)"
  shows "\<exists>uc'. fill_header False (take n (drop p (frame_head f) @ rest)) uc head_zero =
      Some (if p + n < length (frame_head f) then (-1, head_zero, uc', [])
            else (int (length (payload f)), head_of f, uc', take (p + n - length (frame_head f)) rest)) \<and>
    (p + n < length (frame_head f) \<longrightarrow> head_state fd f (p + n) uc') \<and> np_id (pack uc') = fd"
  using st n l
proof (induction "length (frame_head f) - p" arbitrary: p n uc)
  case 0
  then show ?case by (simp add: head_state_def)
next
  case (Suc d)
  then have p: "p < length (frame_head f)" by simp
  obtain uc1 where u: "header_step False (frame_head f ! p) uc head_zero =
      Some (if Suc p < length (frame_head f) then (-1, head_zero, uc1) else (int (length (payload f)), head_of f, uc1))"
    "np_id (pack uc1) = fd" "uread uc1 < 0" "header_size uc1 = Suc p" "length (hdr uc1) = HEADERSIZE"
    "take (Suc p) (hdr uc1) = take (Suc p) (frame_head f)"
    using header_step_frame [OF f Suc.prems(1) p] by blast
  obtain n' where n': "n = Suc n'" using Suc.prems(2) by (cases n) auto
  have buf: "take n (drop p (frame_head f) @ rest) = frame_head f ! p # take n' (drop (Suc p) (frame_head f) @ rest)"
    using p n' by (simp add: Cons_nth_drop_Suc [symmetric])
  show ?case
  proof (cases "Suc p < length (frame_head f)")
    case False
    then have "length (frame_head f) = Suc p" using p by simp
    then show ?thesis using u(1,2) unfolding buf by (intro exI [of _ uc1]) (simp add: n')
  next
    case True
    then have st1: "head_state fd f (Suc p) uc1" using u by (simp add: head_state_def)
    show ?thesis
    proof (cases "n' = 0")
      case True
      then show ?thesis using u st1 \<open>Suc p < length (frame_head f)\<close> unfolding buf by (intro exI [of _ uc1]) (simp add: n')
    next
      case False
      have "take n' (drop (Suc p) (frame_head f) @ rest) \<noteq> []" using True False by simp
      moreover have "n' \<le> length (drop (Suc p) (frame_head f) @ rest)" using Suc.prems(3) n' p by simp
      ultimately have step: "fill_header False (take n (drop p (frame_head f) @ rest)) uc head_zero =
          fill_header False (take n' (drop (Suc p) (frame_head f) @ rest)) uc1 head_zero"
        and l': "n' \<le> length (drop (Suc p) (frame_head f) @ rest)"
        using u(1) True unfolding buf by simp_all
      have "d = length (frame_head f) - Suc p" "0 < n'" "p + n = Suc p + n'" using Suc.hyps(2) False n' by auto
      then show ?thesis using Suc.hyps(1) [OF _ st1 _ l'] unfolding step by metis
    qed
  qed
qed


subsection \<open>A whole message\<close>

lemma start_body_state:
  assumes "np_id (pack uc) = fd"
  shows "\<exists>uc'. start_body False uc (head_of f) (int (length (payload f))) = Some uc' \<and> body_state fd f 0 uc'"
  using assms by (simp add: start_body_def body_state_def mask_at_def Let_def)

lemma drop_enc_head: "p \<le> length (frame_head f) \<Longrightarrow> drop p (frame_enc f) @ r = drop p (frame_head f) @ frame_body f @ r"
  by (simp add: frame_enc_def)

lemma filter_uncomplete_step:
  assumes w: "wq_ok w" "conn_of w fd = None" and f: "frame_fits f" and fs: "\<forall>g \<in> set fs. frame_fits g"
    and st: "conn_at fd (f # fs) p (Some uc)" and n: "0 < n" "n \<le> length (drop p (frame_enc f) @ stream fs)"
  shows "\<exists>res d r q. filter_uncomplete (Some w) fd (take n (drop p (frame_enc f) @ stream fs)) False uc = Some res \<and>
    advance (f # fs) (p + n) = (d, r, q) \<and> delivers fd w res d r q"
proof (cases "p < length (frame_head f)")
  case False
  define k where "k = p - length (frame_head f)"
  have k: "body_state fd f k uc" "p = length (frame_head f) + k" "drop p (frame_enc f) = drop k (frame_body f)"
    using st False by (auto simp: conn_at_def k_def frame_enc_def)
  have "\<not> uread uc < 0" using k(1) by (simp add: body_state_def)
  then have "filter_uncomplete (Some w) fd (take n (drop p (frame_enc f) @ stream fs)) False uc =
      fill_body (Some w) fd (take n (drop k (frame_body f) @ stream fs)) False uc"
    unfolding k(3) filter_uncomplete_def by simp
  moreover have "n \<le> length (drop k (frame_body f) @ stream fs)" using n(2) unfolding k(3) .
  ultimately show ?thesis using fill_body_step [OF w f fs k(1)] unfolding k(2) by metis
next
  case True
  have hs: "head_state fd f p uc" using st True by (simp add: conn_at_def)
  then have rd: "uread uc < 0" by (simp add: head_state_def)
  have buf: "drop p (frame_enc f) @ stream fs = drop p (frame_head f) @ frame_body f @ stream fs"
    using True by (simp add: drop_enc_head)
  obtain uc' where fh: "fill_header False (take n (drop p (frame_enc f) @ stream fs)) uc head_zero =
      Some (if p + n < length (frame_head f) then (-1, head_zero, uc', [])
            else (int (length (payload f)), head_of f, uc', take (p + n - length (frame_head f)) (frame_body f @ stream fs)))"
    "p + n < length (frame_head f) \<longrightarrow> head_state fd f (p + n) uc'" "np_id (pack uc') = fd"
    using fill_header_frame [OF f hs n(1), of "frame_body f @ stream fs"] n(2) unfolding buf by blast
  show ?thesis
  proof (cases "p + n < length (frame_head f)")
    case 1: True
    then have c: "conn_at fd (f # fs) (p + n) (Some uc')" using fh(2) by (simp add: conn_at_def length_frame_enc)
    have "filter_uncomplete (Some w) fd (take n (drop p (frame_enc f) @ stream fs)) False uc = Some (EvNone, Some (link_uc w fd uc'))"
      unfolding filter_uncomplete_def fh(1) using rd 1 by simp
    moreover have "advance (f # fs) (p + n) = ([], f # fs, p + n)" using 1 by (simp add: length_frame_enc)
    ultimately show ?thesis using link_step [OF w fh(3) c] by (auto simp: delivers_def)
  next
    case 2: False
    let ?n = "p + n - length (frame_head f)"
    obtain uc2 where uc2: "start_body False uc' (head_of f) (int (length (payload f))) = Some uc2" "body_state fd f 0 uc2"
      using start_body_state [OF fh(3)] by blast
    have "filter_uncomplete (Some w) fd (take n (drop p (frame_enc f) @ stream fs)) False uc =
        fill_body (Some w) fd (take ?n (drop 0 (frame_body f) @ stream fs)) False uc2"
      unfolding filter_uncomplete_def fh(1) using rd 2 uc2(1) by simp
    moreover have "?n \<le> length (drop 0 (frame_body f) @ stream fs)" using n(2) 2 True unfolding buf by simp
    moreover have "length (frame_head f) + 0 + ?n = p + n" using 2 by simp
    ultimately show ?thesis using fill_body_step [OF w f fs uc2(2)] by metis
  qed
qed


lemma filter_fresh_full:
  assumes w: "wq_ok w" "conn_of w fd = None" and f: "frame_fits f" and fs: "\<forall>g \<in> set gs. frame_fits g"
    and l: "n \<le> length (stream (f # gs))" and full: "length (frame_enc f) \<le> n"
  shows "\<exists>res d r q. filter_fresh (Some w) fd (take n (stream (f # gs))) False = Some res \<and>
    advance (f # gs) n = (d, r, q) \<and> delivers fd w res d r q"
proof -
  let ?m = "n - length (frame_enc f)"
  define buf where "buf = take n (frame_enc f @ stream gs)"
  have hl: "length (frame_head f) \<le> n" using full by (simp add: length_frame_enc)
  have len: "length (drop (length (frame_head f)) buf) = length (payload f) + ?m" using full l by (simp add: buf_def length_frame_enc)
  obtain uc' where dec: "decode_wsmask_data (drop (length (frame_head f)) buf) (int (length (payload f))) (masked_uc fd (head_of f)) =
      Some (payload f @ take ?m (stream gs), uc')" using decode_full [OF full] unfolding buf_def by blast
  have ns: "next_size False False buf = Some (int (length (payload f)), head_of f, buf)"
    using next_size_frame [OF f, of n "stream gs" False] l hl by (simp add: buf_def)
  have ff: "filter_fresh (Some w) fd buf False =
      (if ?m = 0 then Some (EvData fd (payload f @ take ?m (stream gs)) (int (length (payload f))), Some w)
       else do { w1 \<leftarrow> ring_push w (np fd f); w' \<leftarrow> push_more (Some w1) fd (take ?m (stream gs)) False; Some (EvMore, Some w') })"
    using ns len dec
    by (simp add: filter_fresh_def Let_def push_data_def get_queue_def np_def del: length_drop)
  have sb: "take n (stream (f # gs)) = buf" by (simp add: buf_def)
  have adv: "advance (f # gs) n = (let (d, r, p) = advance gs ?m in (f # d, r, p))" using full by simp
  show ?thesis
  proof (cases "?m = 0")
    case True
    then show ?thesis using ff adv w unfolding sb by (auto simp: delivers_def step_to_def conn_at_def np_def)
  next
    case False
    obtain w1 where w1: "ring_push w (np fd f) = Some w1" using push_ok [OF w(1)] by blast
    have "0 < ?m" "?m \<le> length (stream gs)" using False l by auto
    from push_rest [OF w fs this w1] show ?thesis using ff adv w1 False unfolding sb by auto
  qed
qed

lemma filter_fresh_step:
  assumes w: "wq_ok w" "conn_of w fd = None" and fs: "\<forall>g \<in> set fs. frame_fits g" and n: "0 < n" "n \<le> length (stream fs)"
  shows "\<exists>res d r q. filter_fresh (Some w) fd (take n (stream fs)) False = Some res \<and> advance fs n = (d, r, q) \<and> delivers fd w res d r q"
proof (cases fs)
  case Nil
  then show ?thesis using n by simp
next
  case (Cons f gs)
  have f: "frame_fits f" "\<forall>g \<in> set gs. frame_fits g" using fs Cons by auto
  define buf where "buf = take n (frame_enc f @ stream gs)"
  have l: "n \<le> length (frame_enc f @ stream gs)" using n Cons by simp
  have sb: "take n (stream fs) = buf" using Cons by (simp add: buf_def)
  note ns = next_size_frame [OF f(1) l, of False, folded buf_def]
  consider (head) "n < length (frame_head f)" | (body) "length (frame_head f) \<le> n" "n < length (frame_enc f)"
    | (full) "length (frame_enc f) \<le> n" by linarith
  then show ?thesis
  proof cases
    case head
    obtain w' where w': "save_header (Some w) fd buf False = Some w'" "step_to fd w w' [] (f # gs) n"
      using save_header_step [OF w f(1) n(1) head] unfolding buf_def by blast
    have "filter_fresh (Some w) fd buf False = Some (EvNone, Some w')" using ns head w'(1) by (simp add: filter_fresh_def)
    moreover have "n < length (frame_enc f)" using head by (simp add: length_frame_enc)
    ultimately show ?thesis using w'(2) Cons unfolding sb by (auto simp: delivers_def)
  next
    case body
    obtain w' where w': "save_body (Some w) fd (drop (length (frame_head f)) buf) (int (length (payload f))) (head_of f) = Some w'"
      "step_to fd w w' [] (f # gs) n"
      using save_body_step [OF w f(1) body] unfolding buf_def by blast
    have "int (length (drop (length (frame_head f)) buf)) < int (length (payload f))"
      using body l by (simp add: buf_def length_frame_enc)
    then have "filter_fresh (Some w) fd buf False = Some (EvNone, Some w')"
      using ns body w'(1) by (simp add: filter_fresh_def Let_def)
    then show ?thesis using w'(2) Cons body unfolding sb by (auto simp: delivers_def)
  next
    case full
    then show ?thesis using filter_fresh_full [OF w f, of n] n Cons by simp
  qed
qed

theorem filter_data_step:
  assumes w: "wq_ok w" and fs: "\<forall>g \<in> set fs. frame_fits g" and st: "conn_at fd fs p (conn_of w fd)"
    and n: "0 < n" "n \<le> length (drop p (stream fs))"
  shows "\<exists>res d r q. filter_data0 (Some w) fd (take n (drop p (stream fs))) False = Some res \<and> advance fs (p + n) = (d, r, q) \<and>
    delivers fd w res d r q"
proof -
  obtain r0 q0 where fu: "find_uncomplete (Some w) fd = (r0, q0)" by fastforce
  obtain w1 where w1: "q0 = Some w1" "r0 = conn_of w fd" "conn_of w1 fd = None" "\<And>fd'. fd' \<noteq> fd \<Longrightarrow> conn_of w1 fd' = conn_of w fd'"
    "wq_ok w1" "packs w1 = packs w"
    using find_uncomplete_spec [OF _ fu] w by (auto simp: wq_ok_def ring_inv_def packs_def ring_of_def)
  have trans: "delivers fd w1 res d r q \<Longrightarrow> delivers fd w res d r q" for res d r q
    using w1 by (auto simp: delivers_def step_to_def)
  show ?thesis
  proof (cases "conn_of w fd")
    case None
    then have "p = 0" using st by (simp add: conn_at_def)
    then show ?thesis
      using filter_fresh_step [OF w1(5,3) fs n(1)] n(2) trans fu w1(1,2) None by (fastforce simp: filter_data0_def)
  next
    case (Some uc)
    then obtain f gs where c: "fs = f # gs" "p < length (frame_enc f)" using st by (auto simp: conn_at_def split: list.splits)
    have d: "drop p (stream fs) = drop p (frame_enc f) @ stream gs" using c by simp
    have "n \<le> length (drop p (frame_enc f) @ stream gs)" using n(2) unfolding d .
    then obtain res e r q where "filter_uncomplete (Some w1) fd (take n (drop p (frame_enc f) @ stream gs)) False uc = Some res"
      "advance (f # gs) (p + n) = (e, r, q)" "delivers fd w1 res e r q"
      using filter_uncomplete_step [OF w1(5,3) _ _ _ n(1), of f gs p uc] fs st c(1) Some by auto
    moreover have "filter_data0 (Some w) fd b False = filter_uncomplete (Some w1) fd b False uc" for b
      using fu w1(1,2) Some by (simp add: filter_data0_def)
    ultimately show ?thesis using trans c(1) d by metis
  qed
qed

end
