(* ===== verification/Ws_Props.thy ===== *)
theory Ws_Props
  imports Ws_Stream
begin

text \<open>
  The properties of lua-websocketnetpack.c. \<open>ws_run\<close> is the gate's loop: every socket message goes through
  \<^verbatim>\<open>filter\<close>, and when it answers "more" the packages are popped until none is left.
\<close>

subsection \<open>The gate loop\<close>

partial_function (option) drain :: "ws_queue option \<Rightarrow> netpack list \<Rightarrow> (netpack list \<times> ws_queue option) option" where
  "drain q acc =
     do { (r, q1) \<leftarrow> lpop q; (case r of None \<Rightarrow> Some (acc, q1) | Some x \<Rightarrow> drain q1 (acc @ [x])) }"

definition data_message :: "int \<Rightarrow> bytes \<Rightarrow> skynet_socket_message" where
  "data_message fd c = \<lparr>mtype = SocketData, mid = fd, mud = int (length c), mbuffer = Some c, mpadding = []\<rparr>"

definition ws_step :: "ws_queue option \<Rightarrow> int \<times> bytes \<Rightarrow> (netpack list \<times> ws_queue option) option" where
  "ws_step q m =
     do { (ev, q1) \<leftarrow> lfilter q (data_message (fst m) (snd m)) False;
          (case ev of EvData i d n \<Rightarrow> Some ([\<lparr>np_id = i, np_size = n, np_buffer = d\<rparr>], q1)
           | EvMore \<Rightarrow> drain q1 []
           | _ \<Rightarrow> Some ([], q1)) }"

fun ws_run :: "ws_queue option \<Rightarrow> (int \<times> bytes) list \<Rightarrow> (netpack list \<times> ws_queue option) option" where
  "ws_run q [] = Some ([], q)"
| "ws_run q (m # ms) = do { (out, q1) \<leftarrow> ws_step q m; (outs, q2) \<leftarrow> ws_run q1 ms; Some (out @ outs, q2) }"

text \<open>The bytes sent on a connection.\<close>

definition sent :: "int \<Rightarrow> (int \<times> bytes) list \<Rightarrow> bytes" where
  "sent fd ms = concat (map snd (filter (\<lambda>m. fst m = fd) ms))"

lemma sent_Cons: "sent fd ((i, c) # ms) = (if i = fd then c else []) @ sent fd ms"
  by (simp add: sent_def)

lemma drain_spec:
  assumes "ring_inv w"
  shows "\<exists>w'. drain (Some w) acc = Some (acc @ packs w, Some w') \<and> ring_inv w' \<and> packs w' = [] \<and> whash w' = whash w"
  using assms
proof (induction "packs w" arbitrary: w acc)
  case Nil
  then show ?case using lpop_empty [of w] by (subst drain.simps) simp
next
  case (Cons x xs)
  obtain w1 where w1: "lpop (Some w) = Some (Some x, Some w1)" "ring_inv w1" "packs w1 = xs" "whash w1 = whash w"
    using lpop_ok [OF Cons.prems, of x xs] Cons.hyps(2) by metis
  have "drain (Some w) acc = drain (Some w1) (acc @ [x])" by (subst drain.simps) (simp add: w1(1))
  then show ?case using Cons.hyps(1) [of w1 "acc @ [x]"] w1 Cons.hyps(2) [symmetric] by auto
qed

subsection \<open>A queue that does not exist yet\<close>

text \<open>Slot 1 is nil until something has to be kept; until then it stands for the fresh queue.\<close>

definition view :: "(ws_event \<times> ws_queue option) option \<Rightarrow> (ws_event \<times> ws_queue) option" where
  "view r = map_option (\<lambda>(e, q). (e, get_queue q)) r"

lemma get_queue_Some [simp]: "get_queue (Some w) = w"
  by (simp add: get_queue_def)

lemma nil_queue:
  "save_header None fd buf hs = save_header (Some (get_queue None)) fd buf hs"
  "save_body None fd buf n out = save_body (Some (get_queue None)) fd buf n out"
  "push_data None fd buf n b = push_data (Some (get_queue None)) fd buf n b"
  by (simp_all only: save_header_def save_body_def push_data_def get_queue_Some)

lemma filter_view: "view (filter_data0 q fd buf hs) = view (filter_data0 (Some (get_queue q)) fd buf hs)"
proof (cases q)
  case None
  have f: "find_uncomplete (Some (get_queue None)) fd = (None, Some (get_queue None))"
    by (simp add: find_uncomplete_def get_queue_def)
  have "view (filter_fresh None fd buf hs) = view (filter_fresh (Some (get_queue None)) fd buf hs)"
  proof (cases "next_size False hs buf")
    case (Some x)
    obtain r out b where x: "x = (r, out, b)" by (cases x) auto
    show ?thesis
      unfolding filter_fresh_def Some x close_uncomplete_def f
      by (cases "decode_wsmask_data (drop (pack_head_length out) b) r (masked_uc fd out)")
        (auto simp: view_def find_uncomplete_def nil_queue Let_def)
  qed (simp add: filter_fresh_def)
  then show ?thesis unfolding None filter_data0_def f by (simp add: find_uncomplete_def)
qed simp

lemma fresh_queue: "wq_ok (get_queue None)" "packs (get_queue None) = []" "conn_of (get_queue None) fd = None"
  using get_queue_inv [of None]
  by (simp_all add: wq_ok_def table_ok_def conn_of_def get_queue_def packs_def ring_of_def queue_list_def queue_size_def)

subsection \<open>One message\<close>

lemma ws_step_spec:
  assumes w: "wq_ok (get_queue q)" "packs (get_queue q) = []" and fs: "\<forall>g \<in> set fs. frame_fits g"
    and st: "conn_at fd fs p (conn_of (get_queue q) fd)" and c: "c \<noteq> []" "prefix c (drop p (stream fs))"
  shows "\<exists>q' d r p'. ws_step q (fd, c) = Some (map (np fd) d, q') \<and> advance fs (p + length c) = (d, r, p') \<and>
    wq_ok (get_queue q') \<and> packs (get_queue q') = [] \<and> conn_at fd r p' (conn_of (get_queue q') fd) \<and>
    (\<forall>fd'. fd' \<noteq> fd \<longrightarrow> conn_of (get_queue q') fd' = conn_of (get_queue q) fd')"
proof -
  have cc: "c = take (length c) (drop p (stream fs))" "length c \<le> length (drop p (stream fs))"
    using c(2) prefix_length_le [OF c(2)] by (auto simp: prefix_def)
  from filter_data_step [OF w(1) fs st _ cc(2)] c(1) cc(1) obtain e q1 d r p' where
    f: "filter_data0 (Some (get_queue q)) fd c False = Some (e, q1)" "advance fs (p + length c) = (d, r, p')"
      "delivers fd (get_queue q) (e, q1) d r p'" by (metis length_greater_0_conv surj_pair)
  obtain w1 ps where w1: "q1 = Some w1" "step_to fd (get_queue q) w1 ps r p'" "event_packs fd e ps = Some (map (np fd) d)"
    using f(3) by (auto simp: delivers_def)
  obtain q2 where q2: "filter_data0 q fd c False = Some (e, q2)" "get_queue q2 = w1"
    using filter_view [of q fd c False] f(1) w1(1) by (auto simp: view_def)
  have lf: "lfilter q (data_message fd c) False = Some (e, q2)"
    using q2(1) by (simp add: lfilter_def data_message_def filter_data_def)
  have st1: "wq_ok w1" "packs w1 = ps" "conn_at fd r p' (conn_of w1 fd)" "\<And>fd'. fd' \<noteq> fd \<Longrightarrow> conn_of w1 fd' = conn_of (get_queue q) fd'"
    using w1(2) w(2) by (auto simp: step_to_def)
  show ?thesis
  proof (cases e)
    case EvMore
    then have ps: "ps = map (np fd) d" using w1(3) by simp
    show ?thesis
    proof (cases q2)
      case None
      then have "ps = []" using q2(2) fresh_queue(2) st1(2) by simp
      have "drain None [] = Some ([], None)" by (subst drain.simps) (simp add: lpop_def)
      then show ?thesis using EvMore lf None ps \<open>ps = []\<close> f(2) st1 q2(2) by (auto simp: ws_step_def)
    next
      case (Some w2)
      then have "w2 = w1" using q2(2) by simp
      obtain w' where w': "drain (Some w1) [] = Some (ps, Some w')" "ring_inv w'" "packs w' = []" "whash w' = whash w1"
        using drain_spec [of w1 "[]"] st1(1,2) by (auto simp: wq_ok_def)
      have "conn_of w' = conn_of w1" "table_ok w'" using w'(4) st1(1) by (auto simp: conn_of_def fun_eq_iff wq_ok_def table_ok_def)
      then show ?thesis
        using EvMore lf Some \<open>w2 = w1\<close> ps f(2) st1 w' by (auto simp: ws_step_def wq_ok_def)
    qed
  qed (use w1(3) lf f(2) st1 q2(2) in \<open>auto simp: ws_step_def split: if_splits\<close>)
qed


lemma advance_all: "advance fs (length (stream fs)) = (fs, [], 0)"
  by (induction fs) auto

lemma prefix_drop:
  assumes "prefix (xs @ ys) (drop p zs)"
  shows "prefix ys (drop (p + length xs) zs)"
proof -
  obtain r where "drop p zs = xs @ ys @ r" using assms by (auto simp: prefix_def)
  moreover have "drop (p + length xs) zs = drop (length xs) (drop p zs)" by (simp add: add.commute)
  ultimately show ?thesis by (simp add: prefix_def)
qed

text \<open>
  Every connection is at a position of its own stream; the packages come out per connection in order.
\<close>

lemma ws_run_spec:
  assumes "wq_ok (get_queue q)" "packs (get_queue q) = []" "\<forall>fd. \<forall>g \<in> set (fr fd). frame_fits g"
    "\<forall>fd. conn_at fd (fr fd) (pos fd) (conn_of (get_queue q) fd)"
    "\<forall>m \<in> set ms. snd m \<noteq> []" "\<forall>fd. prefix (sent fd ms) (drop (pos fd) (stream (fr fd)))" "\<forall>fd. pos fd \<le> length (stream (fr fd))"
    "\<forall>fd f fs. fr fd = f # fs \<longrightarrow> pos fd < length (frame_enc f)"
  shows "\<exists>out q'. ws_run q ms = Some (out, q') \<and>
    (\<forall>fd. filter (\<lambda>x. np_id x = fd) out = map (np fd) (fst (advance (fr fd) (pos fd + length (sent fd ms)))))"
  using assms
proof (induction ms arbitrary: q fr pos)
  case Nil
  have "fst (advance (fr fd) (pos fd)) = []" for fd using Nil(8) by (cases "fr fd") auto
  then show ?case by (simp add: sent_def)
next
  case (Cons m ms)
  obtain i c where m: "m = (i, c)" by (cases m)
  let ?fs = "fr i" and ?p = "pos i"
  have c: "c \<noteq> []" "prefix c (drop ?p (stream ?fs))"
    using Cons.prems(5) spec [OF Cons.prems(6), of i] by (auto simp: m sent_Cons dest: append_prefixD)
  obtain q' d r p' where s: "ws_step q (i, c) = Some (map (np i) d, q')" "advance ?fs (?p + length c) = (d, r, p')"
    "wq_ok (get_queue q')" "packs (get_queue q') = []" "conn_at i r p' (conn_of (get_queue q') i)"
    "\<And>fd'. fd' \<noteq> i \<Longrightarrow> conn_of (get_queue q') fd' = conn_of (get_queue q) fd'"
    using ws_step_spec [OF Cons.prems(1,2) spec [OF Cons.prems(3)] spec [OF Cons.prems(4)] c] by blast
  have len: "?p + length c \<le> length (stream ?fs)"
    using prefix_length_le [OF c(2)] Cons.prems(7) by (metis add_diff_inverse_nat add_le_cancel_left length_drop not_le)
  note adv = advance_stream [OF s(2) len]
  let ?fr = "fr(i := r)" and ?pos = "pos(i := p')"
  have strm: "stream ?fs = stream d @ stream r" using adv by (simp add: stream_def)
  have dr: "drop (?p + length c) (stream ?fs) = drop p' (stream r)" using adv strm by simp
  have "prefix (sent fd ms) (drop (?pos fd) (stream (?fr fd)))" for fd
    using prefix_drop [of c "sent i ms" ?p "stream ?fs"] spec [OF Cons.prems(6), of fd] dr by (auto simp: m sent_Cons)
  moreover have "?pos fd \<le> length (stream (?fr fd))" for fd using len adv strm Cons.prems(7) by auto
  moreover have "\<forall>g \<in> set (?fr fd). frame_fits g" for fd using Cons.prems(3) adv by (metis Un_iff fun_upd_apply set_append)
  moreover have "conn_at fd (?fr fd) (?pos fd) (conn_of (get_queue q') fd)" for fd using s(5,6) Cons.prems(4) by simp
  moreover have "?fr fd = f # fs \<Longrightarrow> ?pos fd < length (frame_enc f)" for fd f fs using adv Cons.prems(8) by (auto split: if_splits)
  ultimately obtain out q2 where o: "ws_run q' ms = Some (out, q2)"
    "\<And>fd. filter (\<lambda>x. np_id x = fd) out = map (np fd) (fst (advance (?fr fd) (?pos fd + length (sent fd ms))))"
    using Cons.IH [OF s(3,4), of ?fr ?pos] Cons.prems(5) by auto
  have "filter (\<lambda>x. np_id x = fd) (map (np i) d @ out) = map (np fd) (fst (advance (fr fd) (pos fd + length (sent fd (m # ms)))))" for fd
  proof (cases "fd = i")
    case True
    have "advance ?fs (?p + length c + length (sent i ms)) =
        (let (d', r', p'') = advance r (p' + length (sent i ms)) in (d @ d', r', p''))"
      using advance_add [of ?fs "?p + length c" "length (sent i ms)"] s(2) by simp
    then show ?thesis using True o(2) [of i] by (simp add: m sent_Cons np_def comp_def add.assoc split: prod.splits)
  next
    case False
    then show ?thesis using o(2) [of fd] by (simp add: m sent_Cons np_def comp_def)
  qed
  then show ?case using s(1) o(1) by (simp add: m)
qed


subsection \<open>Properties\<close>

definition demo_frame :: ws_frame where
  "demo_frame = \<lparr>fb0 = 0x81, form = Len7, fmask = Some [1, 2, 3, 4], payload = [104, 105]\<rparr>"

lemma demo_frame_enc: "frame_enc demo_frame = [0x81, 0x82, 1, 2, 3, 4, 105, 107]" "frame_fits demo_frame"
  by (simp_all add: demo_frame_def frame_enc_def frame_head_def frame_body_def len7_def len_ext_def mask_bytes_def
      frame_fits_def frame_ok_def data_b0_def MAX_PACKSIZE_def)

text \<open>
  C14: whatever connections send data frames of at most \<^verbatim>\<open>MAX_PACKSIZE\<close> bytes, masked or not, however their streams
  are cut into socket messages and interleaved, the gate runs without undefined behaviour and hands out, per connection
  and in order, exactly the unmasked payloads of the frames that are complete; a stream that is sent completely is
  delivered completely.
\<close>

theorem ws_interleaved_streams:
  assumes "\<forall>fd. \<forall>g \<in> set (fr fd). frame_fits g" "\<forall>m \<in> set ms. snd m \<noteq> []" "\<forall>fd. prefix (sent fd ms) (stream (fr fd))"
  shows "\<exists>out q'. ws_run None ms = Some (out, q') \<and>
    (\<forall>fd. filter (\<lambda>x. np_id x = fd) out = map (np fd) (fst (advance (fr fd) (length (sent fd ms)))) \<and>
      (sent fd ms = stream (fr fd) \<longrightarrow> filter (\<lambda>x. np_id x = fd) out = map (np fd) (fr fd)))"
  using ws_run_spec [of None fr "\<lambda>_. 0" ms] assms fresh_queue frame_enc_pos by (auto simp: conn_at_def advance_all)

theorem ws_interleaved_streams_witness:
  "\<exists>out q'. ws_run None [(7, [0x81]), (9, [0x81, 0x82, 1]), (7, [0x82, 1, 2, 3, 4, 105]), (9, [2, 3, 4, 105, 107]), (7, [107])] = Some (out, q') \<and>
     filter (\<lambda>x. np_id x = 7) out = [\<lparr>np_id = 7, np_size = 2, np_buffer = [104, 105]\<rparr>]"
proof -
  let ?ms = "[(7, [0x81]), (9, [0x81, 0x82, 1]), (7, [0x82, 1, 2, 3, 4, 105]), (9, [2, 3, 4, 105, 107]), (7, [107])] :: (int \<times> bytes) list"
  let ?fr = "\<lambda>fd :: int. if fd = 7 \<or> fd = 9 then [demo_frame] else []"
  have s: "sent fd ?ms = stream (?fr fd)" for fd by (simp add: sent_def demo_frame_enc(1))
  have "\<forall>fd. \<forall>g \<in> set (?fr fd). frame_fits g" "\<forall>m \<in> set ?ms. snd m \<noteq> []" "\<forall>fd. prefix (sent fd ?ms) (stream (?fr fd))"
    unfolding s by (simp_all add: demo_frame_enc(2))
  from ws_interleaved_streams [OF this] s [of 7] show ?thesis by (fastforce simp: np_def demo_frame_def)
qed

text \<open>
  C15: a frame the server packs is read back: \<^verbatim>\<open>read_size\<close> gives the length of the message and a header after which
  the message stands, for every length that fits the \<^verbatim>\<open>int\<close> it is returned in.
\<close>

theorem ws_pack_roundtrip:
  assumes "length msg < 2 ^ 31"
  shows "\<exists>out. read_size (lpack msg @ rest) head_zero = (int (length msg), out) \<and> \<not> hismask out \<and>
    take (length msg) (drop (pack_head_length out) (lpack msg @ rest)) = msg"
proof -
  let ?f = "server_frame msg"
  have e: "lpack msg = frame_head ?f @ msg" using lpack_frame [of msg] assms
    by (simp add: frame_enc_def frame_body_def server_frame_def)
  have "read_size (lpack msg @ rest) head_zero = (int (length msg), head_of ?f)"
    using read_size_frame [OF server_frame_ok [OF assms], of "length (frame_head ?f @ msg @ rest)" "msg @ rest"]
    by (simp add: e) (simp add: server_frame_def)
  then show ?thesis using e by (simp add: head_of_def) (simp add: server_frame_def)
qed

theorem ws_pack_roundtrip_witness:
  "\<exists>out. read_size (lpack [1, 2, 3] @ [9]) head_zero = (3, out) \<and> take 3 (drop (pack_head_length out) (lpack [1, 2, 3] @ [9])) = [1, 2, 3]"
  using ws_pack_roundtrip [of "[1, 2, 3]" "[9]"] by (auto simp: numeral_3_eq_3)

lemma find_sub_first:
  "case find_sub nd hay of
     None \<Rightarrow> nd \<noteq> [] \<longrightarrow> (\<forall>k. k + length nd \<le> length hay \<longrightarrow> take (length nd) (drop k hay) \<noteq> nd)
   | Some k \<Rightarrow> take (length nd) (drop k hay) = nd \<and> (\<forall>j < k. take (length nd) (drop j hay) \<noteq> nd)"
proof (induction hay)
  case (Cons h t)
  have pre: "prefix nd (h # t) \<longleftrightarrow> take (length nd) (h # t) = nd" by (metis append_take_drop_id append_eq_conv_conj prefix_def)
  show ?case
  proof (cases "prefix nd (h # t)")
    case False
    then have "take (length nd) (drop j (h # t)) \<noteq> nd" if "j = 0" for j using pre that by simp
    with False Cons.IH show ?thesis
      by (auto split: option.splits simp: drop_Cons')
  qed (use pre in simp)
qed simp

text \<open>
  C16: \<^verbatim>\<open>get_http_header\<close> gives the length of the shortest prefix that ends in an empty line, and -1 when there is
  none; it never reads outside the buffer.
\<close>

theorem ws_http_header_first:
  "\<exists>n. get_http_header buf = Some n \<and>
     (n = -1 \<and> (\<forall>k. k + 4 \<le> length buf \<longrightarrow> take 4 (drop k buf) \<noteq> crlf2) \<or>
      (\<exists>k. n = int k + 4 \<and> take 4 (drop k buf) = crlf2 \<and> (\<forall>j < k. take 4 (drop j buf) \<noteq> crlf2)))"
proof -
  have "length crlf2 = 4" "crlf2 \<noteq> []" by (simp_all add: crlf2_def)
  then show ?thesis
    using find_sub_first [of crlf2 buf] get_http_header_spec [of buf] by (cases "find_sub crlf2 buf") auto
qed

theorem ws_http_header_first_witness:
  "get_http_header [71, 13, 10, 13, 10, 65] = Some 5"
proof -
  have m: "take 4 (drop k [71, 13, 10, 13, 10, 65 :: byte]) = crlf2 \<longleftrightarrow> k = 1" for k
  proof (cases "k < 6")
    case True
    then have "k \<in> {0, 1, 2, 3, 4, 5}" by auto
    then show ?thesis by (auto simp: crlf2_def)
  qed (simp add: crlf2_def)
  obtain n where n: "get_http_header [71, 13, 10, 13, 10, 65] = Some n"
    "n = -1 \<and> (\<forall>k. k + 4 \<le> length [71, 13, 10, 13, 10, 65 :: byte] \<longrightarrow> k \<noteq> 1) \<or> (\<exists>k. n = int k + 4 \<and> k = 1)"
    using ws_http_header_first [of "[71, 13, 10, 13, 10, 65]"] unfolding m by blast
  then have "n = 5" by (auto dest: spec [of _ 1])
  with n(1) show ?thesis by simp
qed

text \<open>
  C17: the ring of finished packages is first in, first out under every sequence of pushes and pops, in any order and
  however often the positions wrap around or the ring grows while it is in use: starting without a queue, every pop answers
  what the same sequence answers on a plain list (nothing when the list is empty), and what is left in the ring is what
  is left in the list. No access is out of range and no slot is read before it was written.
\<close>

theorem ws_queue_fifo:
  "\<exists>q. queue_run push_whole lpop None ops = Some (fst (list_run [] (map (map_fifo_op whole_pack) ops)), q) \<and>
     slot_packs q = snd (list_run [] (map (map_fifo_op whole_pack) ops))"
  using slot.run_is_list_run [of None ops] by (auto simp: slot_inv_def slot_packs_def)

text \<open>
  C18: \<^verbatim>\<open>clear\<close> frees, for every entry of the hash table, the buffer of the unfinished package and then the record of the
  connection, and then the buffer of every finished package that was not popped, each exactly once and nothing else; every
  connection with a package in progress is among them. It leaves an empty queue.
\<close>

theorem ws_clear_frees_all:
  assumes "wq_ok w"
  shows "\<exists>fs w'. lclear (Some w) = Some (fs, Some w') \<and>
    fs = concat (map (\<lambda>uc. [FreeBuffer (np_buffer (pack uc)), FreeRecord uc]) (concat (map (whash w) [0..<HASHSIZE]))) @
         map (FreeBuffer \<circ> np_buffer) (packs w) \<and>
    (\<forall>fd uc. conn_of w fd = Some uc \<longrightarrow> FreeBuffer (np_buffer (pack uc)) \<in> set fs \<and> FreeRecord uc \<in> set fs) \<and>
    wq_ok w' \<and> packs w' = [] \<and> (\<forall>fd. conn_of w' fd = None)"
proof -
  let ?w = "w\<lparr>whash := (\<lambda>_. []), whead := 0, wtail := 0\<rparr>"
  let ?free = "\<lambda>uc. [FreeBuffer (np_buffer (pack uc)), FreeRecord uc]"
  let ?fs = "concat (map ?free (concat (map (whash w) [0..<HASHSIZE]))) @ map (FreeBuffer \<circ> np_buffer) (packs w)"
  have inv: "ring_inv w" using assms by (simp add: wq_ok_def)
  have cl: "clear_list us = concat (map ?free us)" for us by (induction us) auto
  have "concat (map (\<lambda>i. clear_list (whash w i)) [0..<n]) = concat (map ?free (concat (map (whash w) [0..<n])))" for n
    by (induction n) (simp_all add: cl)
  then have "lclear (Some w) = Some (?fs, Some ?w)"
    using clear_ring_ok [OF inv] by (simp add: lclear_def Let_def)
  moreover have "FreeBuffer (np_buffer (pack uc)) \<in> set ?fs \<and> FreeRecord uc \<in> set ?fs" if "conn_of w fd = Some uc" for fd uc
    using conn_in_chain [OF that] by fastforce
  moreover have "ring_inv ?w" "packs ?w = []" using inv
    by (auto simp: ring_inv_def packs_def ring_of_def queue_inv_def queue_list_def queue_size_def)
  ultimately show ?thesis by (auto simp: wq_ok_def table_ok_def conn_of_def)
qed

lemma concat_one_chain: "i < n \<Longrightarrow> concat (map ((\<lambda>_. [])(i := us)) [0..<n]) = us"
proof (induction n)
  case (Suc n)
  then show ?case by (cases "i = n") auto
qed simp

text \<open>One connection with two bytes of its package, and one finished package of another.\<close>

definition ex_uc :: uncomplete where
  "ex_uc = (uc_zero 3)\<lparr>pack := \<lparr>np_id = 3, np_size = 5, np_buffer = [65, 66]\<rparr>, uread := 2\<rparr>"

theorem ws_clear_frees_all_witness:
  "\<exists>w w'. ring_push (link_uc (get_queue None) 3 ex_uc) \<lparr>np_id = 4, np_size = 1, np_buffer = [67]\<rparr> = Some w \<and>
     lclear (Some w) = Some ([FreeBuffer [65, 66], FreeRecord ex_uc, FreeBuffer [67]], Some w') \<and> packs w' = []"
proof -
  let ?l = "link_uc (get_queue None) 3 ex_uc" and ?np = "\<lparr>np_id = 4, np_size = 1, np_buffer = [67]\<rparr>"
  have ok: "wq_ok ?l" using fresh_queue link_uc_spec(2) [of "get_queue None" 3 ex_uc]
    by (simp add: wq_ok_def ex_uc_def) (simp add: link_uc_def ring_inv_def ring_of_def)
  have p: "packs ?l = []" using fresh_queue(2) by (simp add: link_uc_def packs_def ring_of_def)
  from ring_push_ok [of ?l ?np] ok p obtain w where
    w: "ring_push ?l ?np = Some w" "ring_inv w" "packs w = [?np]" "whash w = whash ?l" by (auto simp: wq_ok_def)
  then have "wq_ok w" using ok by (simp add: wq_ok_def table_ok_def)
  from ws_clear_frees_all [OF this] obtain fs w' where c: "lclear (Some w) = Some (fs, Some w')" "packs w' = []"
    "fs = concat (map (\<lambda>uc. [FreeBuffer (np_buffer (pack uc)), FreeRecord uc]) (concat (map (whash w) [0..<HASHSIZE]))) @
      map (FreeBuffer \<circ> np_buffer) (packs w)" by blast
  have "whash w = (\<lambda>_. [])(3 := [ex_uc])" using w(4) by (simp add: link_uc_def get_queue_def hash_fd_def HASHSIZE_def fun_upd_def)
  then have "concat (map (whash w) [0..<HASHSIZE]) = [ex_uc]" using concat_one_chain [of 3 HASHSIZE] by (simp add: HASHSIZE_def)
  then show ?thesis using w c by (simp add: ex_uc_def)
qed

text \<open>
  When a connection closes or fails, what it had in progress is dropped, so that a later connection with the
  same number starts afresh; the other connections and the finished packages stay.
\<close>

theorem ws_close_forgets:
  assumes w: "wq_ok w" and m: "mtype m = SocketClose \<or> mtype m = SocketError \<and> mbuffer m = None"
  shows "\<exists>ev w'. lfilter (Some w) m hs = Some (ev, Some w') \<and> (ev = EvClose (mid m) \<or> ev = EvError (mid m) (mpadding m)) \<and>
    wq_ok w' \<and> packs w' = packs w \<and> conn_of w' (mid m) = None \<and> (\<forall>fd. fd \<noteq> mid m \<longrightarrow> conn_of w' fd = conn_of w fd)"
proof -
  obtain r q where f: "find_uncomplete (Some w) (mid m) = (r, q)" by fastforce
  obtain w' where "q = Some w'" "conn_of w' (mid m) = None" "\<forall>fd. fd \<noteq> mid m \<longrightarrow> conn_of w' fd = conn_of w fd"
    "wq_ok w'" "packs w' = packs w"
    using find_uncomplete_spec [OF _ f] w by (auto simp: wq_ok_def ring_inv_def packs_def ring_of_def)
  then show ?thesis using m f by (auto simp: lfilter_def close_uncomplete_def pushstring_def)
qed

theorem ws_close_forgets_witness:
  "\<exists>ev w'. lfilter (Some (get_queue None)) \<lparr>mtype = SocketClose, mid = 3, mud = 0, mbuffer = None, mpadding = []\<rparr> False =
     Some (ev, Some w') \<and> conn_of w' 3 = None"
  using ws_close_forgets [OF fresh_queue(1), of "\<lparr>mtype = SocketClose, mid = 3, mud = 0, mbuffer = None, mpadding = []\<rparr>" False] by auto

subsection \<open>Where the code breaks\<close>

lemma fresh_conn:
  assumes "conn_of w fd = None"
  shows "filter_data0 (Some w) fd buf hs = filter_fresh (Some w) fd buf hs"
  using assms by (auto simp: filter_data0_def find_uncomplete_def conn_of_def split: option.splits)

text \<open>
  C19: a frame whose payload is longer than \<^verbatim>\<open>MAX_PACKSIZE\<close> is cut: the first 10240 bytes are delivered as a package and
  the rest of its payload, still masked, is read as if it were new frames.
\<close>

theorem ws_oversize_frame_cut:
  assumes w: "wq_ok w" "conn_of w fd = None" and f: "frame_ok f" "10240 < length (payload f)"
  shows "\<exists>w1. wq_ok w1 \<and> packs w1 = packs w @ [\<lparr>np_id = fd, np_size = 10240, np_buffer = take 10240 (payload f)\<rparr>] \<and>
    filter_data0 (Some w) fd (frame_enc f) False =
      map_option (\<lambda>w'. (EvMore, Some w')) (push_more (Some w1) fd (drop 10240 (frame_body f)) False)"
proof -
  let ?b = "drop (length (frame_head f)) (frame_enc f)"
  have rs: "read_size (frame_enc f) head_zero = (int (length (payload f)), head_of f)"
    using read_size_frame [OF f(1), of "length (frame_enc f)" "frame_body f"] by (simp add: frame_enc_def)
  have ns: "next_size False False (frame_enc f) = Some (10240, head_of f, frame_enc f)"
    using f(2) by (simp add: next_size_def skip_frames.simps [of False "frame_enc f"] rs MAX_PACKSIZE_def)
  have body: "?b = take 10240 (drop 0 (frame_body f)) @ drop 10240 (frame_body f)" by (simp add: frame_enc_def)
  obtain uc' where dec: "decode_wsmask_data ?b (int 10240) (masked_uc fd (head_of f)) =
      Some (take 10240 (payload f) @ drop 10240 (frame_body f), uc')"
    using decode_frame [OF mask_at_0, of 10240 f "drop 10240 (frame_body f)"] f(2) unfolding body by auto
  let ?np = "\<lparr>np_id = fd, np_size = 10240, np_buffer = take 10240 (payload f)\<rparr>"
  obtain w1 where w1: "ring_push w ?np = Some w1" "wq_ok w1" "packs w1 = packs w @ [?np]" using push_ok [OF w(1)] by blast
  have len: "\<not> int (length ?b) < 10240" "int (length ?b) \<noteq> 10240" using f(2) by (simp_all add: frame_enc_def)
  have l: "length (take 10240 (payload f)) = 10240" using f(2) by simp
  have "filter_fresh (Some w) fd (frame_enc f) False =
      map_option (\<lambda>w'. (EvMore, Some w')) (push_more (Some w1) fd (drop 10240 (frame_body f)) False)"
    using len dec w1(1) l
    by (simp add: filter_fresh_def ns Let_def push_data_def map_conv_bind_option comp_def del: length_drop length_take)
  then show ?thesis using w1 fresh_conn [OF w(2)] by auto
qed

theorem ws_oversize_frame_cut_witness:
  "\<exists>w1. packs w1 = [\<lparr>np_id = 5, np_size = 10240, np_buffer = replicate 10240 0\<rparr>] \<and>
    filter_data0 (Some (get_queue None)) 5 (frame_enc \<lparr>fb0 = 0x82, form = Len16, fmask = None, payload = replicate 10241 0\<rparr>) False =
      map_option (\<lambda>w'. (EvMore, Some w')) (push_more (Some w1) 5 [0] False)"
proof -
  let ?f = "\<lparr>fb0 = 0x82, form = Len16, fmask = None, payload = replicate 10241 0\<rparr>"
  have f: "frame_ok ?f" "10240 < length (payload ?f)" by (simp_all add: frame_ok_def data_b0_def)
  have p: "take 10240 (payload ?f) = replicate 10240 0" "drop 10240 (frame_body ?f) = [0]"
    by (simp_all add: frame_body_def)
  from ws_oversize_frame_cut [OF fresh_queue(1,3) f, of 5] show ?thesis unfolding p fresh_queue(2) append_Nil by blast
qed

text \<open>The bytes of a length field of 64 bits whose low word is all ones, behind the first two bytes of a frame.\<close>

lemma ones_length: "sint (ucast (ntoh64 (load_le [h0, h1, h2, h3, 255, 255, 255, 255])) :: 32 word) = -1"
proof -
  let ?n = "le_val ([255, 255, 255, 255] @ [h3, h2, h1, h0])"
  have "take_bit 64 ?n = ?n"
    using le_val_less [of "[255, 255, 255, 255] @ [h3, h2, h1, h0]"] by (intro take_bit_nat_eq_self) simp
  moreover have "ntoh64 (load_le [h0, h1, h2, h3, 255, 255, 255, 255]) = of_nat ?n"
    by (subst ntoh64_load) (simp_all add: load_le_def)
  ultimately have "ucast (ntoh64 (load_le [h0, h1, h2, h3, 255, 255, 255, 255])) = (of_nat ?n :: 32 word)"
    by (simp only: unsigned_of_nat) simp
  also have "\<dots> = of_nat (le_val [255, 255, 255, 255]) + of_nat (2 ^ 32) * of_nat (le_val [h3, h2, h1, h0])"
    by (simp only: le_val_append of_nat_add of_nat_mult) simp
  also have "(of_nat (2 ^ 32) :: 32 word) = 0" by (simp only: word_of_nat_eq_0_iff) simp
  also have "of_nat (le_val [255, 255, 255, 255]) + 0 * of_nat (le_val [h3, h2, h1, h0]) = (-1 :: 32 word)"
    by (simp only: mult_zero_left add_0_right) simp
  finally show ?thesis by simp
qed

lemma ones_read_size:
  assumes "data_b0 b0" "b1 AND 0x7f = 0x7f"
  shows "fst (read_size (b0 # b1 # h0 # h1 # h2 # h3 # 255 # 255 # 255 # 255 # rest) out) = -1"
  using assms ones_length [of h0 h1 h2 h3] by (simp add: read_size_def data_b0_def Let_def read_mask_def)

text \<open>
  C20: a data frame with a 64-bit length whose low 32 bits are all ones, whatever its high word and masked or not, is taken for
  a frame whose header is not complete yet: the whole rest of the message, header, mask and payload, is copied into the
  1024 bytes of \<^verbatim>\<open>uc->header\<close> of a new record. This holds at the start of a message on a connection with nothing in progress
  and behind other frames of a message. With at most 1024 bytes the record holds all of them and nothing is delivered; with
  more the copy runs over the end of the array (\<open>None\<close>).
\<close>

theorem ws_length_overflow:
  assumes "conn_of w fd = None" and "data_b0 b0" "b1 AND 0x7f = 0x7f"
    and "buf = b0 # b1 # h0 # h1 # h2 # h3 # 255 # 255 # 255 # 255 # rest"
  shows "filter_data0 (Some w) fd buf False = map_option (\<lambda>w'. (EvNone, Some w')) (save_header (Some w) fd buf False) \<and>
    push_more (Some w) fd buf False = save_header (Some w) fd buf False \<and>
    save_header (Some w) fd buf False =
      (if length buf \<le> 1024
       then Some (link_uc w fd ((uc_zero fd)\<lparr>uread := -1, header_size := length buf, hdr := buf @ replicate (1024 - length buf) 0\<rparr>))
       else None)"
proof -
  obtain out where rs: "read_size buf head_zero = (-1, out)"
    using ones_read_size [OF assms(2,3), of h0 h1 h2 h3 rest head_zero] assms(4) by (metis prod.collapse)
  have ns: "next_size all False buf = Some (-1, out, buf)" for all
    by (simp add: next_size_def skip_frames.simps [of all buf] rs MAX_PACKSIZE_def)
  have "filter_data0 (Some w) fd buf False = map_option (\<lambda>w'. (EvNone, Some w')) (save_header (Some w) fd buf False)"
    using fresh_conn [OF assms(1)] by (simp add: filter_fresh_def ns)
  moreover have "push_more (Some w) fd buf False = save_header (Some w) fd buf False"
    by (simp add: push_more.simps [of "Some w"] ns)
  ultimately show ?thesis
    by (simp add: save_header_def mem_copy_def uc_zero_def HEADERSIZE_def)
qed

theorem ws_length_overflow_witness:
  "filter_data0 (Some (get_queue None)) 5 (0x82 # 0xFF # 0 # 0 # 0 # 1 # 255 # 255 # 255 # 255 # replicate 1015 0) False = None"
  using ws_length_overflow [OF fresh_queue(3), of "0x82" "0xFF" "0x82 # 0xFF # 0 # 0 # 0 # 1 # 255 # 255 # 255 # 255 # replicate 1015 0" 0 0 0 1 "replicate 1015 0" 5]
  by (simp add: data_b0_def)

text \<open>
  a handshake that sends 1024 bytes without an empty line and then one more byte writes that byte behind
  \<^verbatim>\<open>uc->header\<close>: the size is tested after the write.
\<close>

theorem ws_handshake_overflow:
  assumes w: "wq_ok w" "conn_of w fd = None" and b: "length buf = 1024" "find_sub crlf2 buf = None" and c: "c \<noteq> []"
  shows "\<exists>w'. filter_data0 (Some w) fd buf True = Some (EvNone, Some w') \<and> filter_data0 (Some w') fd c True = None"
proof -
  let ?uc = "(uc_zero fd)\<lparr>uread := -1, header_size := 1024, hdr := buf\<rparr>" let ?w = "link_uc w fd ?uc"
  have "next_size False True buf = Some (-1, head_zero, buf)" using b(2) by (simp add: next_size_def get_http_header_spec)
  moreover have "save_header (Some w) fd buf True = Some ?w"
    using b(1) by (simp add: save_header_def mem_copy_def uc_zero_def HEADERSIZE_def)
  ultimately have "filter_data0 (Some w) fd buf True = Some (EvNone, Some ?w)"
    using fresh_conn [OF w(2)] by (simp add: filter_fresh_def)
  moreover have "filter_data0 (Some ?w) fd c True = None"
  proof -
    obtain r q where f: "find_uncomplete (Some ?w) fd = (r, q)" by fastforce
    have "r = Some ?uc" using f by (simp add: find_uncomplete_def link_uc_def uc_zero_def)
    then show ?thesis
      using f c b(1) by (cases c) (simp_all add: filter_data0_def filter_uncomplete_def header_step_def arr_set_def)
  qed
  ultimately show ?thesis by blast
qed

theorem ws_handshake_overflow_witness:
  "\<exists>w'. filter_data0 (Some (get_queue None)) 5 (replicate 1024 65) True = Some (EvNone, Some w') \<and>
     filter_data0 (Some w') 5 [65] True = None"
proof -
  have "find_sub crlf2 (replicate n 65) = None" for n
    by (induction n) (auto simp: crlf2_def prefix_def)
  then show ?thesis using ws_handshake_overflow [OF fresh_queue(1,3), of "replicate 1024 65" "[65]" 5] by simp
qed

end
