(* ===== verification/Client_Ws.thy ===== *)
theory Client_Ws
  imports Ws_Codec
begin

text \<open>
  The websocket client of server/lualib-src/lua-clientwebsocket.c: sending and receiving over a socket and the
  queue of input lines.

  The kernel is outside the code. What it answers to \<^verbatim>\<open>recv\<close>, \<^verbatim>\<open>select\<close> and \<^verbatim>\<open>send\<close> is a list of answers, an
  argument of every operation that makes such calls: data that arrived, the end of the stream, an interrupted call
  (\<^verbatim>\<open>EAGAIN\<close> or \<^verbatim>\<open>EINTR\<close>), another error, a timeout of \<^verbatim>\<open>select\<close>. A result is \<open>Waiting\<close> when the answers run out while
  a call is still blocked, and \<open>Undefined\<close> where the C code has no defined behaviour. Arrays on the stack start with
  arbitrary bytes, the argument \<open>buf\<close>.
\<close>

datatype 'a run = Ret 'a | Waiting | Undefined

primrec run_bind :: "'a run \<Rightarrow> ('a \<Rightarrow> 'b run) \<Rightarrow> 'b run" where
  "run_bind (Ret x) f = f x"
| "run_bind Waiting f = Waiting"
| "run_bind Undefined f = Undefined"

definition or_undef :: "'a option \<Rightarrow> ('a \<Rightarrow> 'b run) \<Rightarrow> 'b run" where
  "or_undef x f = (case x of None \<Rightarrow> Undefined | Some y \<Rightarrow> f y)"

lemma or_undef_simps [simp]: "or_undef None f = Undefined" "or_undef (Some y) f = f y"
  by (simp_all add: or_undef_def)

subsection \<open>The kernel\<close>

datatype net_event = Got bytes | Closed | Retry | Failed | Timeout | SelectFailed

datatype recv_result = RData bytes | RClosed | RAgain | RError

datatype select_result = SelError | SelTimeout | SelReady

text \<open>\<^verbatim>\<open>recv\<close> of at most \<open>n\<close> bytes: what is left of a segment stays in front. A closed stream stays closed.\<close>

fun net_recv :: "nat \<Rightarrow> net_event list \<Rightarrow> (recv_result \<times> net_event list) option" where
  "net_recv n [] = None"
| "net_recv n (Got d # s) =
     (if d = [] then Some (RAgain, s)
      else if length d \<le> n then Some (RData d, s) else Some (RData (take n d), Got (drop n d) # s))"
| "net_recv n (Closed # s) = Some (RClosed, Closed # s)"
| "net_recv n (Failed # s) = Some (RError, s)"
| "net_recv n (_ # s) = Some (RAgain, s)"

fun net_select :: "net_event list \<Rightarrow> (select_result \<times> net_event list) option" where
  "net_select [] = None"
| "net_select (Timeout # s) = Some (SelTimeout, s)"
| "net_select (SelectFailed # s) = Some (SelError, s)"
| "net_select s = Some (SelReady, s)"

fun net_size :: "net_event list \<Rightarrow> nat" where
  "net_size [] = 0"
| "net_size (Got d # s) = Suc (length d) + net_size s"
| "net_size (_ # s) = Suc (net_size s)"

lemma net_recv_less:
  "net_recv n s = Some (r, s') \<Longrightarrow> r \<noteq> RClosed \<Longrightarrow> r \<noteq> RData [] \<Longrightarrow> net_size s' < net_size s"
  by (induction n s rule: net_recv.induct) (auto split: if_splits)

lemma net_select_same: "net_select s = Some (SelReady, s') \<Longrightarrow> s' = s"
  by (induction s rule: net_select.induct) auto

lemma net_select_le: "net_select s = Some (r, s') \<Longrightarrow> net_size s' \<le> net_size s"
  by (induction s rule: net_select.induct) auto

lemma net_recv_le: "net_recv n s = Some (r, s') \<Longrightarrow> net_size s' \<le> net_size s"
  by (induction n s rule: net_recv.induct) (auto split: if_splits)

text \<open>The answers of \<^verbatim>\<open>send\<close>: a number of bytes taken (never more than offered), an interrupted call, an error.\<close>

datatype send_answer = Sent nat | SendRetry | SendFailed

subsection \<open>The handshake\<close>

definition CACHE_SIZE :: nat where "CACHE_SIZE = 0x1000"

definition crlf :: bytes where "crlf = [13, 10]"

text \<open>\<^verbatim>\<open>WEBSOCKET_CLIENT_HEADER(addr, port)\<close>: the macro puts the names of its arguments into the string.\<close>

definition WEBSOCKET_CLIENT_HEADER :: bytes where
  "WEBSOCKET_CLIENT_HEADER =
     str ''GET / HTTP/1.1'' @ crlf @ str ''Origin:'' @ crlf @ str ''Host: addr:port'' @ crlf
     @ str ''Sec-WebSocket-Key: Vld9DdQJkJTVKdwRExlMA=='' @ crlf @ str ''User-Agent: LuaWebSocketClient/1.0'' @ crlf
     @ str ''Upgrade: Websocket'' @ crlf @ str ''Connection: Upgrade'' @ crlf @ str ''Sec-WebSocket-Protocol: wamp'' @ crlf
     @ str ''Sec-WebSocket-Version: 13'' @ crlf @ crlf"

text \<open>
  \<^verbatim>\<open>websocket_strnpos\<close> of the client: the number of rounds is computed in 32 bits without a test that the buffer is
  long enough. \<open>hay\<close> is the whole array behind \<^verbatim>\<open>haystack\<close>, \<open>n\<close> the length that is passed.
\<close>

definition client_strnpos :: "bytes \<Rightarrow> nat \<Rightarrow> bytes \<Rightarrow> int option" where
  "client_strnpos hay n needle =
     (if needle = [] then Some (-1)
      else strnpos_loop (unat (of_nat n - of_nat (length needle) + 1 :: u32)) 0 hay needle)"

definition client_http_header :: "bytes \<Rightarrow> nat \<Rightarrow> int option" where
  "client_http_header hay n = map_option (\<lambda>k. if k < 0 then k else k + 4) (client_strnpos hay n crlf2)"

text \<open>
  The loop of \<^verbatim>\<open>recv_websocket_header_response\<close>: the result, 0 or -1, and the answers that are left. Every call
  offers \<^verbatim>\<open>CACHE_SIZE\<close> bytes at \<^verbatim>\<open>buffer + read_size\<close>.
\<close>

function header_loop :: "bytes \<Rightarrow> nat \<Rightarrow> int \<Rightarrow> net_event list \<Rightarrow> (int \<times> net_event list) run" where
  "header_loop buf rd all s =
     (case net_recv CACHE_SIZE s of None \<Rightarrow> Waiting
      | Some (RClosed, s') \<Rightarrow> Ret (-1, s')
      | Some (RError, s') \<Rightarrow> Ret (-1, s')
      | Some (RAgain, s') \<Rightarrow> if all > 0 then Ret (0, s') else header_loop buf rd all s'
      | Some (RData d, s') \<Rightarrow>
          if d = [] then Ret (-1, s')
          else
            (case mem_copy buf rd d (length d) of None \<Rightarrow> Undefined
             | Some buf' \<Rightarrow>
                 (case client_http_header buf' (rd + length d) of None \<Rightarrow> Undefined
                  | Some n \<Rightarrow> if n > 0 then Ret (0, s') else header_loop buf' (rd + length d) n s')))"
  by pat_completeness auto
termination
  by (relation "measure (\<lambda>(buf, n, all, s). net_size s)") (auto dest: net_recv_less)

declare header_loop.simps [simp del]

definition recv_websocket_header_response :: "bytes \<Rightarrow> net_event list \<Rightarrow> (int \<times> net_event list) run" where
  "recv_websocket_header_response buf s = header_loop buf 0 (-1) s"

text \<open>\<^verbatim>\<open>common_block_send\<close>: the result, the bytes the kernel took and the answers that are left.\<close>

fun common_block_send :: "bytes \<Rightarrow> send_answer list \<Rightarrow> (int \<times> bytes \<times> send_answer list) run" where
  "common_block_send [] s = Ret (0, [], s)"
| "common_block_send (b # bs) [] = Waiting"
| "common_block_send (b # bs) (SendRetry # s) = common_block_send (b # bs) s"
| "common_block_send (b # bs) (SendFailed # s) = Ret (-1, [], s)"
| "common_block_send (b # bs) (Sent k # s) =
     run_bind (common_block_send (drop k (b # bs)) s) (\<lambda>(r, out, s'). Ret (r, take k (b # bs) @ out, s'))"

text \<open>What a Lua function of the module gives back.\<close>

datatype lua_val = LStr bytes | LInt int

datatype lua_reply = LuaError bytes | LuaRet "lua_val list"

text \<open>
  \<^verbatim>\<open>lconnect\<close>: \<open>connected\<close> is what \<^verbatim>\<open>connect\<close> gave for the new socket \<open>fd\<close>. The reply, the bytes that were sent and the
  answers that are left.
\<close>

definition connect_error :: "bytes \<Rightarrow> int \<Rightarrow> string \<Rightarrow> lua_reply" where
  "connect_error addr port msg = LuaError (str ''Connect '' @ addr @ str '' '' @ fmt_d port @ str msg)"

definition lconnect :: "bytes \<Rightarrow> int \<Rightarrow> int \<Rightarrow> bool \<Rightarrow> bytes \<Rightarrow> send_answer list \<Rightarrow> net_event list \<Rightarrow>
    (lua_reply \<times> bytes \<times> send_answer list \<times> net_event list) run" where
  "lconnect addr port fd connected buf snds s =
     (if \<not> connected then Ret (connect_error addr port '' failed'', [], snds, s)
      else
        run_bind (common_block_send WEBSOCKET_CLIENT_HEADER snds) (\<lambda>(r, out, snds').
          if r < 0 then Ret (connect_error addr port '' send websocket data failed'', out, snds', s)
          else
            run_bind (recv_websocket_header_response buf s) (\<lambda>(r, s').
              if r < 0 then Ret (connect_error addr port '' websocket handleshake failed'', out, snds', s')
              else Ret (LuaRet [LInt fd], out, snds', s'))))"

subsection \<open>Sending\<close>

definition client_head :: "int \<Rightarrow> bytes" where
  "client_head n =
     (let len = word_of_int n :: u64
      in if n < 126 then [0x84, frame_set_length len 0]
         else (if n < 65536 then [0x84, 126]
               else [0x84, 127, frame_set_length len 7, frame_set_length len 6, frame_set_length len 5,
                     frame_set_length len 4, frame_set_length len 3, frame_set_length len 2])
              @ [frame_set_length len 1, frame_set_length len 0])"

text \<open>
  \<^verbatim>\<open>websocket_block_send\<close> of \<open>n\<close> bytes: header and message are copied to a cache of \<^verbatim>\<open>CACHE_SIZE\<close> bytes; the result of
  \<^verbatim>\<open>common_block_send\<close> is dropped.
\<close>

definition websocket_block_send :: "bytes \<Rightarrow> bytes \<Rightarrow> int \<Rightarrow> send_answer list \<Rightarrow> (bytes \<times> send_answer list) run" where
  "websocket_block_send cache msg n s =
     (let h = client_head n
      in or_undef (mem_copy cache 0 h (length h)) (\<lambda>c1.
           if n < 0 then Undefined
           else or_undef (mem_copy c1 (length h) msg (nat n)) (\<lambda>c2.
             run_bind (common_block_send (take (nat n + length h) c2) s) (\<lambda>(r, out, s'). Ret (out, s')))))"

definition lsend :: "bytes \<Rightarrow> bytes \<Rightarrow> send_answer list \<Rightarrow> (bytes \<times> send_answer list) run" where
  "lsend cache msg s = websocket_block_send cache msg (sint (of_nat (length msg) :: 32 word)) s"

subsection \<open>Receiving\<close>

text \<open>
  \<^verbatim>\<open>block_read\<close>: every \<^verbatim>\<open>recv\<close> writes at the start of the buffer, which is not advanced. The result, the buffer and the
  answers that are left.
\<close>

function block_read :: "bytes \<Rightarrow> int \<Rightarrow> net_event list \<Rightarrow> (int \<times> bytes \<times> net_event list) run" where
  "block_read buf n s =
     (if n = 0 then Ret (0, buf, s)
      else
        case net_select s of None \<Rightarrow> Waiting
        | Some (SelError, s') \<Rightarrow> Ret (-3, buf, s')
        | Some (SelTimeout, s') \<Rightarrow> Ret (-2, buf, s')
        | Some (SelReady, s') \<Rightarrow>
            (case net_recv (unat (word_of_int n :: u64)) s' of None \<Rightarrow> Waiting
             | Some (RClosed, s'') \<Rightarrow> Ret (-1, buf, s'')
             | Some (RError, s'') \<Rightarrow> Ret (-3, buf, s'')
             | Some (RAgain, s'') \<Rightarrow> block_read buf n s''
             | Some (RData d, s'') \<Rightarrow>
                 if d = [] then Ret (-1, buf, s'')
                 else
                   (case mem_copy buf 0 d (length d) of None \<Rightarrow> Undefined
                    | Some buf' \<Rightarrow>
                        if n - int (length d) < - (2 ^ 31) then Undefined
                        else block_read buf' (n - int (length d)) s'')))"
  by pat_completeness auto
termination
  by (relation "measure (\<lambda>(buf, n, s). net_size s)") (auto dest!: net_select_same dest: net_recv_less)

declare block_read.simps [simp del]

text \<open>What follows every \<^verbatim>\<open>block_read\<close> of \<^verbatim>\<open>lrecv\<close>: an error, a timeout or the end of the stream leaves the function.\<close>

definition read_or_leave :: "bytes \<Rightarrow> int \<Rightarrow> net_event list \<Rightarrow> bytes \<Rightarrow>
    (bytes \<Rightarrow> net_event list \<Rightarrow> (lua_reply option \<times> bytes \<times> bytes \<times> net_event list) run) \<Rightarrow>
    (lua_reply option \<times> bytes \<times> bytes \<times> net_event list) run" where
  "read_or_leave buf n s err k =
     run_bind (block_read buf n s) (\<lambda>(res, buf', s').
       if res = -3 then Ret (Some (LuaError (str ''socket error: '' @ err)), buf', [], s')
       else if res = -2 then Ret (Some (LuaRet [LStr [], LInt 1]), buf', [], s')
       else if res = -1 then Ret (Some (LuaRet [LStr []]), buf', [], s')
       else k buf' s')"

text \<open>The payload of \<open>n\<close> bytes: read, unmasked in place, pushed.\<close>

definition recv_body :: "bool \<Rightarrow> int \<Rightarrow> bytes \<Rightarrow> bytes \<Rightarrow> net_event list \<Rightarrow> bytes \<Rightarrow>
    (lua_reply option \<times> bytes \<times> bytes \<times> net_event list) run" where
  "recv_body is_mask n buf masks s err =
     read_or_leave buf n s err (\<lambda>buf' s'.
       if n < 0 \<or> int (length buf') < n then Undefined
       else
         let d = take (nat n) buf'; d' = (if is_mask then xor_mask masks 0 d else d)
         in Ret (Some (LuaRet [LStr d']), d' @ drop (nat n) buf', masks, s'))"

definition recv_mask :: "bool \<Rightarrow> int \<Rightarrow> bytes \<Rightarrow> bytes \<Rightarrow> net_event list \<Rightarrow> bytes \<Rightarrow>
    (lua_reply option \<times> bytes \<times> bytes \<times> net_event list) run" where
  "recv_mask is_mask n buf masks s err =
     (if is_mask then read_or_leave masks 4 s err (\<lambda>masks' s'. recv_body is_mask n buf masks' s' err)
      else recv_body is_mask n buf masks s err)"

text \<open>
  One round of the loop of \<^verbatim>\<open>lrecv\<close>: \<open>None\<close> when a reserved bit is set and the loop goes on. \<open>err\<close> is the text of
  \<^verbatim>\<open>strerror\<close>.
\<close>

definition recv_frame :: "bytes \<Rightarrow> bytes \<Rightarrow> net_event list \<Rightarrow> bytes \<Rightarrow>
    (lua_reply option \<times> bytes \<times> bytes \<times> net_event list) run" where
  "recv_frame buf masks s err =
     read_or_leave buf 2 s err (\<lambda>buf s.
       let b0 = buf ! 0; b1 = buf ! 1; is_mask = (drop_bit 7 b1 AND 1 \<noteq> 0); len = b1 AND 0x7f
       in if drop_bit 6 b0 AND 1 \<noteq> 0 \<or> drop_bit 5 b0 AND 1 \<noteq> 0 \<or> drop_bit 4 b0 AND 1 \<noteq> 0 then Ret (None, buf, masks, s)
          else if len < 0x7E then recv_mask is_mask (uint len) buf masks s err
          else if len = 0x7E then
            read_or_leave buf 2 s err (\<lambda>buf s. recv_mask is_mask (uint (ntohs (load_le (take 2 buf)))) buf masks s err)
          else
            read_or_leave buf 8 s err (\<lambda>buf s.
              recv_mask is_mask (sint (ucast (ntoh64 (load_le (take 8 buf))) :: 32 word)) buf masks s err))"

lemma block_read_le: "block_read buf n s = Ret (r, buf', s') \<Longrightarrow> net_size s' \<le> net_size s \<and> (r = 0 \<longrightarrow> n \<noteq> 0 \<longrightarrow> net_size s' < net_size s)"
proof (induction buf n s arbitrary: r buf' s' rule: block_read.induct)
  case (1 buf n s)
  show ?case
  proof (cases "n = 0 \<or> net_select s = None")
    case False
    then obtain x s1 where s1: "net_select s = Some (x, s1)" "n \<noteq> 0" by fastforce
    show ?thesis
    proof (cases "x = SelReady")
      case True
      then have [simp]: "s1 = s" using s1 net_select_same by blast
      let ?n = "unat (word_of_int n :: u64)"
      show ?thesis
      proof (cases "net_recv ?n s")
        case (Some p)
        obtain y s2 where p: "p = (y, s2)" by fastforce
        note le = net_recv_le [OF Some [unfolded p]] and less = net_recv_less [OF Some [unfolded p]]
        show ?thesis
          using "1.prems" "1.IH" [OF s1(2) s1(1) [unfolded True] refl] s1 Some p le less True
          by (fastforce simp: block_read.simps [of buf n s] split: recv_result.splits if_splits option.splits)
      qed (use "1.prems" s1 True in \<open>simp add: block_read.simps [of buf n s]\<close>)
    next
      case False
      then show ?thesis using "1.prems" s1 net_select_le [OF s1(1)]
        by (auto simp: block_read.simps [of buf n s] split: select_result.splits)
    qed
  qed (use "1.prems" in \<open>auto simp: block_read.simps [of buf n s] split: if_splits\<close>)
qed

lemma read_or_leave_Ret:
  assumes "read_or_leave buf n s err k = Ret (x, b, m, s')"
  shows "(\<exists>buf1 s1. block_read buf n s = Ret (0, buf1, s1) \<and> k buf1 s1 = Ret (x, b, m, s')) \<or> x \<noteq> None"
  using assms
proof (cases "block_read buf n s")
  case (Ret p)
  obtain r buf1 s1 where p: "p = (r, buf1, s1)" by (cases p)
  have "r = 0 \<or> r = -1 \<or> r = -2 \<or> r = -3" using Ret p
  proof (induction buf n s arbitrary: r buf1 s1 p rule: block_read.induct)
    case (1 buf n s)
    then show ?case
      by (subst (asm) (3) block_read.simps)
        (fastforce split: recv_result.splits if_splits option.splits select_result.splits prod.splits)
  qed
  then show ?thesis using assms Ret p by (auto simp: read_or_leave_def)
qed (simp_all add: read_or_leave_def)

lemma recv_body_Some: "recv_body im n buf masks s err = Ret (x, b, m, s') \<Longrightarrow> x \<noteq> None"
  by (auto simp: recv_body_def Let_def dest!: read_or_leave_Ret split: if_splits)

lemma recv_mask_Some: "recv_mask im n buf masks s err = Ret (x, b, m, s') \<Longrightarrow> x \<noteq> None"
  by (auto simp: recv_mask_def dest!: read_or_leave_Ret recv_body_Some split: if_splits)

lemma recv_frame_None:
  assumes "recv_frame buf masks s err = Ret (None, b, m, s')"
  shows "net_size s' < net_size s"
proof -
  obtain b1 s1 where b1: "block_read buf 2 s = Ret (0, b1, s1)"
    and k: "recv_frame buf masks s err = Ret (None, b, m, s') \<Longrightarrow> s' = s1"
    using read_or_leave_Ret [OF assms [unfolded recv_frame_def]]
    by (fastforce simp: Let_def dest: recv_mask_Some read_or_leave_Ret split: if_splits)
  then show ?thesis using block_read_le [OF b1] assms by simp
qed

function recv_loop :: "bytes \<Rightarrow> bytes \<Rightarrow> net_event list \<Rightarrow> bytes \<Rightarrow> (lua_reply \<times> net_event list) run" where
  "recv_loop buf masks s err =
     (case recv_frame buf masks s err of Waiting \<Rightarrow> Waiting | Undefined \<Rightarrow> Undefined
      | Ret (Some reply, buf', masks', s') \<Rightarrow> Ret (reply, s')
      | Ret (None, buf', masks', s') \<Rightarrow> recv_loop buf' masks' s' err)"
  by pat_completeness auto
termination
  by (relation "measure (\<lambda>(buf, masks, s, err). net_size s)") (auto dest: recv_frame_None)

declare recv_loop.simps [simp del]

definition lrecv :: "bytes \<Rightarrow> bytes \<Rightarrow> net_event list \<Rightarrow> bytes \<Rightarrow> (lua_reply \<times> net_event list) run" where
  "lrecv buf masks s err = recv_loop buf masks s err"

subsection \<open>Input lines\<close>

definition QUEUE_SIZE :: nat where "QUEUE_SIZE = 1024"

text \<open>A slot is a null pointer or a C string, the bytes before its terminating zero.\<close>

record line_queue =
  lhead :: nat
  ltail :: nat
  lines :: "bytes option list"

text \<open>\<^verbatim>\<open>memset\<close> to zero: every slot holds a null pointer.\<close>

definition line_queue_new :: line_queue where
  "line_queue_new = \<lparr>lhead = 0, ltail = 0, lines = replicate QUEUE_SIZE None\<rparr>"

text \<open>
  \<^verbatim>\<open>fgets\<close> into 1024 bytes: up to 1023 bytes, ending with the first line feed; \<open>None\<close> at the end of the input. The third
  part says that the end of the input was met.
\<close>

fun fgets :: "nat \<Rightarrow> bytes \<Rightarrow> bytes \<times> bytes \<times> bool" where
  "fgets 0 inp = ([], inp, False)"
| "fgets (Suc n) [] = ([], [], True)"
| "fgets (Suc n) (c # inp) = (if c = 10 then ([c], inp, False) else let (l, rest, e) = fgets n inp in (c # l, rest, e))"

definition cstr :: "bytes \<Rightarrow> bytes" where
  "cstr s = takeWhile (\<lambda>c. c \<noteq> 0) s"

text \<open>The end of the process, or the state after the step.\<close>

datatype 'a proc = Exit | Go 'a

definition line_push :: "line_queue \<Rightarrow> bytes \<Rightarrow> line_queue proc run" where
  "line_push q l =
     or_undef (arr_set (lines q) (ltail q) (Some l)) (\<lambda>ls.
       let t = (if ltail q + 1 \<ge> QUEUE_SIZE then 0 else ltail q + 1)
       in if lhead q = t then Ret Exit else Ret (Go (q\<lparr>ltail := t, lines := ls\<rparr>)))"

text \<open>
  One round of \<^verbatim>\<open>readline_stdin\<close> on the input that is left: the last character of what was read is dropped, taken to
  be the line feed. The input after it and whether its end was met, which ends the thread.
\<close>

definition readline_round :: "line_queue \<Rightarrow> bytes \<Rightarrow> (line_queue \<times> bytes \<times> bool) proc run" where
  "readline_round q inp =
     (let (tmp, rest, eof) = fgets 1023 inp
      in if tmp = [] then Ret Exit
         else
           let n = length (cstr tmp)
           in if n = 0 then Undefined
              else run_bind (line_push q (take (n - 1) tmp)) (\<lambda>p. case p of Exit \<Rightarrow> Ret Exit | Go q' \<Rightarrow> Ret (Go (q', rest, eof))))"

text \<open>\<^verbatim>\<open>lreadstdin\<close>: the oldest line, or nothing.\<close>

definition lreadstdin :: "line_queue \<Rightarrow> (bytes option \<times> line_queue) run" where
  "lreadstdin q =
     (if lhead q = ltail q then Ret (None, q)
      else or_undef (arr_get (lines q) (lhead q)) (\<lambda>l.
        Ret (l, q\<lparr>lhead := if lhead q + 1 \<ge> QUEUE_SIZE then 0 else lhead q + 1\<rparr>)))"

end
