(* ===== verification/Client_Props.thy ===== *)
theory Client_Props
  imports Client_Ws
begin

text \<open>
  What the websocket client sends and receives: every answer pattern of \<^verbatim>\<open>send\<close> that makes progress sends the whole
  frame, a frame that arrives in one piece is received, and the ways in which a frame or a handshake that arrives in
  several pieces breaks the client.
\<close>

subsection \<open>Sending\<close>

definition progress :: "send_answer \<Rightarrow> bool" where
  "progress a = (case a of Sent k \<Rightarrow> 0 < k | _ \<Rightarrow> False)"

lemma common_block_send_prefix:
  "common_block_send bs s = Ret (r, out, s') \<Longrightarrow> prefix out bs \<and> (r = 0 \<and> out = bs \<or> r = -1 \<and> out \<noteq> bs)"
proof (induction bs s arbitrary: r out s' rule: common_block_send.induct)
  case (5 b bs k s)
  obtain r1 o1 s1 where c: "common_block_send (drop k (b # bs)) s = Ret (r1, o1, s1)"
    using "5.prems" by (cases "common_block_send (drop k (b # bs)) s") auto
  then have "out = take k (b # bs) @ o1" "r = r1" using "5.prems" by auto
  moreover from "5.IH" [OF c] obtain z where "drop k (b # bs) = o1 @ z" by (auto simp: prefix_def)
  moreover from this have "b # bs = take k (b # bs) @ o1 @ z" by (metis append_take_drop_id)
  ultimately show ?case using "5.IH" [OF c] by (metis append_Nil2 append_assoc prefixI same_append_eq)
qed auto

text \<open>Enough answers that take something, and no error among them, send everything.\<close>

lemma common_block_send_all:
  assumes "SendFailed \<notin> set s" "length bs \<le> length (filter progress s)"
  shows "\<exists>s'. common_block_send bs s = Ret (0, bs, s') \<and> SendFailed \<notin> set s' \<and>
    length (filter progress s) \<le> length (filter progress s') + length bs"
  using assms
proof (induction bs s rule: common_block_send.induct)
  case (5 b bs k s)
  have f: "length (filter progress (Sent k # s)) = (if 0 < k then 1 else 0) + length (filter progress s)" by (simp add: progress_def)
  have "length (drop k (b # bs)) \<le> length (filter progress s)" "SendFailed \<notin> set s"
    using "5.prems" unfolding f by (simp_all split: if_splits)
  with "5.IH" obtain s' where s': "common_block_send (drop k (b # bs)) s = Ret (0, drop k (b # bs), s')" "SendFailed \<notin> set s'"
    "length (filter progress s) \<le> length (filter progress s') + length (drop k (b # bs))" by blast
  then have "common_block_send (b # bs) (Sent k # s) = Ret (0, b # bs, s')"
    by (simp only: common_block_send.simps run_bind.simps prod.case append_take_drop_id)
  moreover have "length (filter progress (Sent k # s)) \<le> length (filter progress s') + length (b # bs)"
    using s'(3) unfolding f by (cases k) auto
  ultimately show ?case using s'(2) by blast
qed (auto simp: progress_def)

text \<open>The frame the client makes: opcode 4, no mask.\<close>

definition client_frame :: "bytes \<Rightarrow> ws_frame" where
  "client_frame msg = (server_frame msg)\<lparr>fb0 := 0x84\<rparr>"

lemma client_frame_ok: "length msg < 2 ^ 31 \<Longrightarrow> frame_ok (client_frame msg)"
  by (simp add: frame_ok_def client_frame_def server_frame_def data_b0_def)

lemma client_head_frame:
  assumes "length msg < 2 ^ 31"
  shows "client_head (int (length msg)) = frame_head (client_frame msg)"
proof -
  have "length msg < 2 ^ 64" using assms by simp
  from frame_set_length_div [OF this] show ?thesis
    by (simp add: client_head_def Let_def frame_head_def client_frame_def server_frame_def len7_def len_ext_def mask_bytes_def le_bytes_8)
qed

lemma lsend_frame:
  assumes "length cache = CACHE_SIZE" "length msg \<le> 4092"
  shows "lsend cache msg s = run_bind (common_block_send (frame_enc (client_frame msg)) s) (\<lambda>(r, out, s'). Ret (out, s'))"
proof -
  let ?f = "client_frame msg" and ?h = "frame_head (client_frame msg)"
  have n: "sint (of_nat (length msg) :: 32 word) = int (length msg)"
    using assms(2) by (simp add: sint_uint uint_of_nat_small signed_take_bit_int_eq_self)
  have h: "client_head (int (length msg)) = ?h" using client_head_frame [of msg] assms(2) by simp
  have l: "length ?h + length msg \<le> CACHE_SIZE"
    using assms(2) by (simp add: frame_head_def client_frame_def server_frame_def len_ext_def mask_bytes_def CACHE_SIZE_def)
  let ?c = "?h @ drop (length ?h) cache"
  have "mem_copy cache 0 ?h (length ?h) = Some ?c" using l assms(1) by (simp add: mem_copy_def)
  moreover have "mem_copy ?c (length ?h) msg (length msg) = Some (?h @ msg @ drop (length ?h + length msg) cache)"
    using l assms(1) by (simp add: mem_copy_def add.commute)
  ultimately show ?thesis
    by (simp add: lsend_def websocket_block_send_def n h frame_enc_def frame_body_def) (simp add: client_frame_def server_frame_def)
qed

subsection \<open>Receiving\<close>

text \<open>A segment in front of the answers; an empty one is no segment.\<close>

definition seg :: "bytes \<Rightarrow> net_event list \<Rightarrow> net_event list" where
  "seg d s = (if d = [] then s else Got d # s)"

lemma unat_size: "0 \<le> n \<Longrightarrow> n < 2 ^ 63 \<Longrightarrow> unat (word_of_int n :: u64) = nat n"
  by (simp add: unsigned_of_int take_bit_int_eq_self)

lemma block_read_seg:
  assumes "n = int (length d)" "length d \<le> length buf" "length buf \<le> CACHE_SIZE"
  shows "block_read buf n (seg (d @ rest) s) = Ret (0, d @ drop (length d) buf, seg rest s)"
proof (cases "d = []")
  case True
  then show ?thesis using assms(1) by (simp add: block_read.simps)
next
  case False
  have u: "unat (of_nat (length d) :: u64) = length d" using assms unat_size [of n] by (simp add: CACHE_SIZE_def)
  have r: "net_recv (length d) (Got (d @ rest) # s) = Some (RData d, seg rest s)" using False by (auto simp: seg_def)
  have m: "mem_copy buf 0 d (length d) = Some (d @ drop (length d) buf)" using assms by (simp add: mem_copy_def)
  have "block_read buf n (Got (d @ rest) # s) = block_read (d @ drop (length d) buf) 0 (seg rest s)"
    using False by (subst block_read.simps) (simp add: assms(1) u r m del: net_recv.simps)
  then show ?thesis using False by (simp add: block_read.simps [of _ 0] seg_def [of "d @ rest"])
qed


lemma read_or_leave_ok:
  "block_read buf n s = Ret (0, buf', s') \<Longrightarrow> read_or_leave buf n s err k = k buf' s'"
  by (simp add: read_or_leave_def)

lemmas read_seg = read_or_leave_ok [OF block_read_seg]

text \<open>The header of a frame in one piece leads to its body.\<close>

definition frame_masks :: "ws_frame \<Rightarrow> bytes \<Rightarrow> bytes" where
  "frame_masks f masks = (case fmask f of None \<Rightarrow> masks | Some m \<Rightarrow> m)"

lemma recv_mask_frame:
  assumes "frame_ok f" "length masks = 4"
  shows "recv_mask (fmask f \<noteq> None) n buf masks (seg (mask_bytes f @ rest) s) err =
    recv_body (fmask f \<noteq> None) n buf (frame_masks f masks) (seg rest s) err"
proof (cases "fmask f")
  case (Some m)
  then have "length m = 4" using assms(1) by (simp add: frame_ok_def)
  then show ?thesis using Some assms(2)
    by (simp add: recv_mask_def frame_masks_def mask_bytes_def read_seg CACHE_SIZE_def)
qed (simp add: recv_mask_def frame_masks_def mask_bytes_def)

text \<open>An extended length is read into the start of the buffer; the mask and the body follow it.\<close>

lemma recv_ext_len:
  assumes f: "frame_ok f" and l: "length masks = 4" "length c = CACHE_SIZE" and e: "length (len_ext f) = k" "0 < k" "k \<le> 8"
    and len: "g (len_ext f) = int (length (payload f))"
  shows "\<exists>buf'. length buf' = CACHE_SIZE \<and>
    read_or_leave c (int k) (seg (len_ext f @ mask_bytes f @ rest) s) err
        (\<lambda>buf s. recv_mask (fmask f \<noteq> None) (g (take k buf)) buf masks s err) =
      recv_body (fmask f \<noteq> None) (int (length (payload f))) buf' (frame_masks f masks) (seg rest s) err"
proof -
  let ?d = "len_ext f @ drop k c"
  have "block_read c (int k) (seg (len_ext f @ mask_bytes f @ rest) s) = Ret (0, ?d, seg (mask_bytes f @ rest) s)"
    using block_read_seg [of "int k" "len_ext f" c "mask_bytes f @ rest" s] l e by (simp add: CACHE_SIZE_def)
  then show ?thesis using recv_mask_frame [OF f l(1)] e len l(2)
    by (intro exI [of _ ?d]) (simp add: read_or_leave_ok CACHE_SIZE_def)
qed

lemma recv_frame_head:
  assumes f: "frame_ok f" and l: "length masks = 4" "length buf = CACHE_SIZE"
  shows "\<exists>buf'. length buf' = CACHE_SIZE \<and>
    recv_frame buf masks (seg (frame_head f @ rest) s) err =
      recv_body (fmask f \<noteq> None) (int (length (payload f))) buf' (frame_masks f masks) (seg rest s) err"
proof -
  let ?b1 = "of_nat ((if fmask f = None then 0 else 128) + len7 f) :: byte"
  let ?h = "[fb0 f, ?b1]" and ?s = "seg (len_ext f @ mask_bytes f @ rest) s"
  let ?c = "?h @ drop 2 buf" and ?im = "fmask f \<noteq> None" and ?n = "int (length (payload f))"
  have s: "seg (frame_head f @ rest) s = seg (?h @ (len_ext f @ mask_bytes f @ rest)) s" by (simp add: frame_head_def)
  have c: "length ?c = CACHE_SIZE" using l by (simp add: CACHE_SIZE_def)
  have b0: "drop_bit 6 (fb0 f) AND 1 = 0" "drop_bit 5 (fb0 f) AND 1 = 0" "drop_bit 4 (fb0 f) AND 1 = 0"
    using f by (auto simp: frame_ok_def data_b0_def)
  have im: "(drop_bit 7 ?b1 AND 1 \<noteq> 0) = ?im" using frame_b1(2) [OF f] by simp
  have len: "unat (?b1 AND 0x7f) = len7 f" using len7_less [OF f] frame_b1(1) [OF f] by (simp add: unat_of_nat)
  have lens: "(?b1 AND 0x7f < 0x7E) = (len7 f < 126)" "(?b1 AND 0x7f = 0x7E) = (len7 f = 126)" "uint (?b1 AND 0x7f) = int (len7 f)"
    using len by (simp_all add: word_less_nat_alt word_unat_eq_iff uint_nat)
  have nth: "?c ! 0 = fb0 f" "?c ! 1 = ?b1" by simp_all
  have br: "block_read buf 2 (seg (?h @ (len_ext f @ mask_bytes f @ rest)) s) = Ret (0, ?c, ?s)"
    using block_read_seg [of 2 ?h buf "len_ext f @ mask_bytes f @ rest" s] l by (simp add: CACHE_SIZE_def numeral_2_eq_2)
  define k where "k = (\<lambda>buf s. if len7 f < 126 then recv_mask ?im (int (len7 f)) buf masks s err
      else if len7 f = 126 then read_or_leave buf 2 s err (\<lambda>buf s. recv_mask ?im (uint (ntohs (load_le (take 2 buf)))) buf masks s err)
      else read_or_leave buf 8 s err (\<lambda>buf s. recv_mask ?im (sint (ucast (ntoh64 (load_le (take 8 buf))) :: 32 word)) buf masks s err))"
  have r: "recv_frame buf masks (seg (frame_head f @ rest) s) err = k ?c ?s"
    unfolding recv_frame_def s read_or_leave_ok [OF br] Let_def nth im lens b0 k_def by simp
  show ?thesis
  proof (cases "form f")
    case Len7
    then have "len_ext f = []" "len7 f = length (payload f)" "len7 f < 126" using f by (simp_all add: len_ext_def len7_def frame_ok_def)
    then have "k ?c ?s = recv_body ?im ?n ?c (frame_masks f masks) (seg rest s) err"
      using recv_mask_frame [OF f l(1)] by (simp add: k_def)
    then show ?thesis using r c by (intro exI [of _ ?c]) simp
  next
    case Len16
    then have e: "length (len_ext f) = 2" "len7 f = 126" "uint (ntohs (load_le (len_ext f))) = ?n"
      using f ext16 [of f] by (simp_all add: len_ext_def len7_def frame_ok_def)
    show ?thesis unfolding r k_def using recv_ext_len [OF f l(1) c e(1), of "\<lambda>b. uint (ntohs (load_le b))" rest s err] e(2,3) by simp
  next
    case Len64
    then have e: "length (len_ext f) = 8" "len7 f = 127" "sint (ucast (ntoh64 (load_le (len_ext f))) :: 32 word) = ?n"
      using f ext64 [of f] by (simp_all add: len_ext_def len7_def frame_ok_def)
    show ?thesis unfolding r k_def using recv_ext_len [OF f l(1) c e(1), of "\<lambda>b. sint (ucast (ntoh64 (load_le b)) :: 32 word)" rest s err] e(2,3) by simp
  qed
qed

lemma lrecv_frame:
  assumes f: "frame_ok f" "length (payload f) \<le> CACHE_SIZE" and l: "length masks = 4" "length buf = CACHE_SIZE"
  shows "lrecv buf masks (seg (frame_enc f @ rest) s) err = Ret (LuaRet [LStr (payload f)], seg rest s)"
proof -
  obtain buf' where b: "length buf' = CACHE_SIZE" "recv_frame buf masks (seg (frame_enc f @ rest) s) err =
      recv_body (fmask f \<noteq> None) (int (length (payload f))) buf' (frame_masks f masks) (seg (frame_body f @ rest) s) err"
    using recv_frame_head [OF f(1) l, of "frame_body f @ rest" s err] by (auto simp: frame_enc_def)
  have "block_read buf' (int (length (payload f))) (seg (frame_body f @ rest) s) =
      Ret (0, frame_body f @ drop (length (payload f)) buf', seg rest s)"
    using block_read_seg [of "int (length (payload f))" "frame_body f" buf' rest s] b(1) f(2) by simp
  moreover have "(if fmask f \<noteq> None then xor_mask (frame_masks f masks) 0 (frame_body f) else frame_body f) = payload f"
    by (cases "fmask f") (simp_all add: frame_masks_def frame_body_def)
  ultimately show ?thesis
    using b f(2) by (simp add: lrecv_def recv_loop.simps [of buf] recv_body_def read_or_leave_ok Let_def)
qed

text \<open>
  C22: a frame of at most 4096 bytes, masked or not and with any form of the length, that arrives in one segment, is
  received: \<^verbatim>\<open>recv\<close> gives exactly its payload and leaves what follows the frame for the next call.
\<close>

theorem client_receives_frame:
  assumes "frame_ok f" "length (payload f) \<le> 4096" "length masks = 4" "length buf = 4096"
  shows "lrecv buf masks (Got (frame_enc f @ rest) # s) err =
    Ret (LuaRet [LStr (payload f)], if rest = [] then s else Got rest # s)"
proof -
  have "frame_enc f \<noteq> []" by (simp add: frame_enc_def frame_head_def)
  then show ?thesis using lrecv_frame [OF assms(1), of masks buf rest s err] assms(2-4) by (simp add: seg_def CACHE_SIZE_def)
qed

theorem client_receives_frame_witness:
  "lrecv (replicate 4096 0) [0, 0, 0, 0] [Got [0x81, 0x82, 1, 2, 3, 4, 105, 107, 9]] [] = Ret (LuaRet [LStr [104, 105]], [Got [9]])"
proof -
  let ?f = "\<lparr>fb0 = 0x81, form = Len7, fmask = Some [1, 2, 3, 4], payload = [104, 105]\<rparr>"
  have "frame_ok ?f" "frame_enc ?f = [0x81, 0x82, 1, 2, 3, 4, 105, 107]"
    by (simp_all add: frame_ok_def data_b0_def frame_enc_def frame_head_def frame_body_def len7_def len_ext_def mask_bytes_def)
  then show ?thesis using client_receives_frame [of ?f "[0, 0, 0, 0]" "replicate 4096 0" "[9]" "[]" "[]"] by simp
qed



subsection \<open>The handshake\<close>

lemma strnpos_loop_overrun:
  "length hay < n \<Longrightarrow> find_sub nd hay = None \<Longrightarrow> nd \<noteq> [] \<Longrightarrow> strnpos_loop n i hay nd = None"
proof (induction n i hay nd rule: strnpos_loop.induct)
  case (2 n i hay nd)
  show ?case
  proof (cases hay)
    case (Cons h t)
    then have np: "\<not> prefix nd (h # t)" "find_sub nd t = None" using "2.prems" by (auto split: if_splits)
    have "memcmp (h # t) nd (length nd) \<noteq> 0" if "length nd \<le> length (h # t)"
      using np(1) memcmp_take [OF that order_refl] take_is_prefix [of "length nd" "h # t"] by auto
    then show ?thesis using "2.IH" "2.prems" Cons np by (cases "length nd \<le> length (h # t)") auto
  qed simp
qed simp

text \<open>
  when the first segment of the server's answer to the handshake has one or two bytes, the search for the end of
  the header runs over the whole buffer and beyond it, unless the bytes that happen to be on the stack contain an empty
  line: connecting is undefined.
\<close>

theorem client_short_answer_overrun:
  assumes "length d = 1 \<or> length d = 2" "length buf = 4096" "find_sub crlf2 (d @ drop (length d) buf) = None"
    and "common_block_send WEBSOCKET_CLIENT_HEADER snds = Ret (0, out, snds')"
  shows "lconnect addr port fd True buf snds (Got d # s) = Undefined"
proof -
  let ?hay = "d @ drop (length d) buf"
  have "unat (of_nat (length d) - of_nat (length crlf2) + 1 :: u32) > length ?hay"
    using assms(1,2) by (auto simp: crlf2_def unsigned_minus_1_eq_mask mask_eq_exp_minus_1)
  then have "client_http_header ?hay (length d) = None"
    using strnpos_loop_overrun [OF _ assms(3)] by (simp add: client_http_header_def client_strnpos_def crlf2_def del: strnpos_loop.simps)
  moreover have "mem_copy buf 0 d (length d) = Some ?hay" using assms(1,2) by (auto simp: mem_copy_def)
  ultimately have "recv_websocket_header_response buf (Got d # s) = Undefined"
    using assms(1) by (subst recv_websocket_header_response_def, subst header_loop.simps) (auto simp: CACHE_SIZE_def)
  then show ?thesis using assms(4) by (simp add: lconnect_def)
qed

lemma length_client_header: "length WEBSOCKET_CLIENT_HEADER = 222"
  by (simp add: WEBSOCKET_CLIENT_HEADER_def crlf_def)

lemma common_block_send_once: "length bs \<le> k \<Longrightarrow> bs \<noteq> [] \<Longrightarrow> common_block_send bs [Sent k] = Ret (0, bs, [])"
  by (cases bs) simp_all

theorem client_short_answer_overrun_witness:
  "lconnect [] 80 3 True (replicate 4096 0) [Sent 300] [Got [72]] = Undefined"
proof -
  have "find_sub crlf2 (replicate n 0) = None" for n by (induction n) (auto simp: crlf2_def prefix_def)
  then have "find_sub crlf2 ([72] @ drop (length [72]) (replicate 4096 0)) = None" by (simp add: crlf2_def)
  moreover have "common_block_send WEBSOCKET_CLIENT_HEADER [Sent 300] = Ret (0, WEBSOCKET_CLIENT_HEADER, [])"
    using length_client_header by (intro common_block_send_once) auto
  ultimately show ?thesis by (intro client_short_answer_overrun) simp_all
qed

end
