(* ===== verification/Client_Gate.thy ===== *)
theory Client_Gate
  imports Client_Props Ws_Props
begin

text \<open>
  The websocket client and the gate together: what the client sends, in whatever pieces the kernel takes and delivers
  it, comes out of the gate's filter; what the gate packs is received by the client.
\<close>

fun lsend_all :: "bytes \<Rightarrow> bytes list \<Rightarrow> send_answer list \<Rightarrow> (bytes \<times> send_answer list) run" where
  "lsend_all cache [] s = Ret ([], s)"
| "lsend_all cache (m # ms) s =
     run_bind (lsend cache m s) (\<lambda>(o1, s1). run_bind (lsend_all cache ms s1) (\<lambda>(o2, s2). Ret (o1 @ o2, s2)))"

lemma client_frame_length: "length msg \<le> 4092 \<Longrightarrow> length (frame_enc (client_frame msg)) \<le> length msg + 4"
  by (simp add: frame_enc_def frame_head_def client_frame_def server_frame_def len_ext_def mask_bytes_def)

lemma lsend_all_stream:
  assumes "length cache = CACHE_SIZE" "\<forall>m \<in> set msgs. length m \<le> 4092" "SendFailed \<notin> set s"
    "sum_list (map (\<lambda>m. length m + 4) msgs) \<le> length (filter progress s)"
  shows "\<exists>s'. lsend_all cache msgs s = Ret (stream (map client_frame msgs), s')"
  using assms(2-4)
proof (induction msgs arbitrary: s)
  case (Cons m ms)
  let ?e = "frame_enc (client_frame m)"
  have l: "length ?e \<le> length m + 4" "length m \<le> 4092" using client_frame_length [of m] Cons.prems by auto
  obtain s1 where s1: "common_block_send ?e s = Ret (0, ?e, s1)" "SendFailed \<notin> set s1"
    "length (filter progress s) \<le> length (filter progress s1) + length ?e"
    using common_block_send_all [of s ?e] Cons.prems l by fastforce
  moreover from this obtain s2 where "lsend_all cache ms s1 = Ret (stream (map client_frame ms), s2)"
    using Cons.IH [of s1] Cons.prems l by auto
  ultimately show ?case using lsend_frame [OF assms(1) l(2), of s] by simp
qed simp

lemma np_of_one_connection:
  assumes "\<forall>fd'. fd' \<noteq> fd \<longrightarrow> filter (\<lambda>x. np_id x = fd') out = []"
  shows "filter (\<lambda>x. np_id x = fd) out = out"
  using assms by (auto simp: filter_empty_conv intro!: filter_True)

text \<open>
  C21: messages of at most 4092 bytes that the client sends to the gate arrive: as long as the kernel keeps taking bytes,
  every \<^verbatim>\<open>send\<close> returns, and however the bytes are cut into socket messages on the way, the gate hands out exactly
  these messages, in order.
\<close>

theorem client_messages_reach_gate:
  assumes "length cache = 4096" "\<forall>m \<in> set msgs. length m \<le> 4092" "SendFailed \<notin> set snds"
    "sum_list (map (\<lambda>m. length m + 4) msgs) \<le> length (filter progress snds)"
  shows "\<exists>out s'. lsend_all cache msgs snds = Ret (out, s') \<and>
    (\<forall>chunks. concat chunks = out \<and> [] \<notin> set chunks \<longrightarrow>
      (\<exists>q'. ws_run None (map (Pair fd) chunks) =
        Some (map (\<lambda>m. \<lparr>np_id = fd, np_size = int (length m), np_buffer = m\<rparr>) msgs, q')))"
proof -
  let ?fs = "map client_frame msgs"
  obtain s' where s': "lsend_all cache msgs snds = Ret (stream ?fs, s')"
    using lsend_all_stream [of cache msgs snds] assms by (auto simp: CACHE_SIZE_def)
  have fits: "\<forall>g \<in> set ?fs. frame_fits g"
  proof (clarsimp simp: frame_fits_def, intro conjI)
    fix m assume "m \<in> set msgs"
    then have "length m \<le> 4092" using assms(2) by blast
    then show "frame_ok (client_frame m)" "int (length (payload (client_frame m))) \<le> MAX_PACKSIZE"
      using client_frame_ok [of m] by (simp_all add: MAX_PACKSIZE_def client_frame_def server_frame_def)
  qed
  have "\<exists>q'. ws_run None (map (Pair fd) chunks) = Some (map (np fd) ?fs, q')"
    if c: "concat chunks = stream ?fs" "[] \<notin> set chunks" for chunks
  proof -
    let ?ms = "map (Pair fd) chunks" and ?fr = "\<lambda>x. if x = fd then ?fs else []"
    have sent: "sent x ?ms = stream (?fr x)" for x using c(1) by (simp add: sent_def filter_map comp_def)
    have "\<exists>out q'. ws_run None ?ms = Some (out, q') \<and>
        (\<forall>x. filter (\<lambda>y. np_id y = x) out = map (np x) (fst (advance (?fr x) (0 + length (sent x ?ms)))))"
      using fits c(2) sent fresh_queue frame_enc_pos by (intro ws_run_spec) (auto simp: conn_at_def)
    then obtain out q' where o: "ws_run None ?ms = Some (out, q')"
      "\<And>x. filter (\<lambda>y. np_id y = x) out = map (np x) (?fr x)"
      by (auto simp: sent advance_all)
    have "filter (\<lambda>y. np_id y = fd) out = out" using o(2) by (intro np_of_one_connection) simp
    then show ?thesis using o(1) o(2) [of fd] by simp
  qed
  note deliver = this
  have "map (np fd) ?fs = map (\<lambda>m. \<lparr>np_id = fd, np_size = int (length m), np_buffer = m\<rparr>) msgs"
    by (simp add: np_def client_frame_def server_frame_def)
  from deliver [unfolded this] s' show ?thesis by blast
qed

theorem client_messages_reach_gate_witness:
  "\<exists>out s'. lsend_all (replicate 4096 0) [[104, 105], []] (replicate 20 (Sent 1)) = Ret (out, s') \<and>
    (\<exists>q'. ws_run None [(7, out)] =
      Some ([\<lparr>np_id = 7, np_size = 2, np_buffer = [104, 105]\<rparr>, \<lparr>np_id = 7, np_size = 0, np_buffer = []\<rparr>], q'))"
proof -
  let ?msgs = "[[104, 105], []] :: bytes list" and ?snds = "replicate 20 (Sent 1)" and ?cache = "replicate 4096 0 :: bytes"
  have h: "length ?cache = 4096" "\<forall>m \<in> set ?msgs. length m \<le> 4092" "SendFailed \<notin> set ?snds"
    "sum_list (map (\<lambda>m. length m + 4) ?msgs) \<le> length (filter progress ?snds)"
    by (simp_all add: progress_def)
  obtain out s' where o: "lsend_all ?cache ?msgs ?snds = Ret (out, s')" and
    q: "\<And>chunks. concat chunks = out \<Longrightarrow> [] \<notin> set chunks \<Longrightarrow> \<exists>q'. ws_run None (map (Pair 7) chunks) =
        Some (map (\<lambda>m. \<lparr>np_id = 7, np_size = int (length m), np_buffer = m\<rparr>) ?msgs, q')"
    using client_messages_reach_gate [OF h, of 7] by blast
  have "out \<noteq> []" using lsend_all_stream [of ?cache ?msgs ?snds] h o by (auto simp: CACHE_SIZE_def frame_enc_def frame_head_def)
  then have "\<exists>q'. ws_run None (map (Pair 7) [out]) =
        Some (map (\<lambda>m. \<lparr>np_id = 7, np_size = int (length m), np_buffer = m\<rparr>) ?msgs, q')" by (intro q) simp_all
  then have "\<exists>q'. ws_run None [(7, out)] =
      Some ([\<lparr>np_id = 7, np_size = 2, np_buffer = [104, 105]\<rparr>, \<lparr>np_id = 7, np_size = 0, np_buffer = []\<rparr>], q')"
    by (simp del: ws_run.simps)
  then show ?thesis using o by blast
qed

end
