(* ===== verification/Client_Lines.thy ===== *)
theory Client_Lines
  imports Client_Ws Ring_Queue
begin

text \<open>
  The input lines of the websocket client: the bounded ring meets the queue contract, and the reader thread and the
  Lua side, which take the lock in turns, are a step relation over the input, the ring and the lines handed out.
\<close>

definition line_ring :: "line_queue \<Rightarrow> bytes queue" where
  "line_ring q = \<lparr>cap = QUEUE_SIZE, sz = 1, head = lhead q, tail = ltail q, buffer = lines q\<rparr>"

definition line_inv :: "line_queue \<Rightarrow> bool" where
  "line_inv q \<longleftrightarrow> queue_inv (line_ring q)"

definition line_list :: "line_queue \<Rightarrow> bytes list" where
  "line_list q = queue_list (line_ring q)"

definition line_add :: "line_queue \<Rightarrow> bytes \<Rightarrow> line_queue option" where
  "line_add q l = (case line_push q l of Ret (Go q') \<Rightarrow> Some q' | _ \<Rightarrow> None)"

definition line_take :: "line_queue \<Rightarrow> (bytes \<times> line_queue) option" where
  "line_take q = (case lreadstdin q of Ret (Some l, q') \<Rightarrow> Some (l, q') | _ \<Rightarrow> None)"

lemma line_queue_new_inv: "line_inv line_queue_new" "line_list line_queue_new = []"
  by (simp_all add: line_inv_def line_list_def line_ring_def line_queue_new_def ring_simps QUEUE_SIZE_def)

lemma line_push_ok:
  assumes inv: "line_inv q"
  shows "if length (line_list q) < QUEUE_SIZE - 1
    then \<exists>q'. line_push q l = Ret (Go q') \<and> line_inv q' \<and> line_list q' = line_list q @ [l]
    else line_push q l = Ret Exit"
proof -
  let ?r = "line_ring q" and ?t = "(ltail q + 1) mod QUEUE_SIZE"
  have r: "queue_inv ?r" using inv by (simp add: line_inv_def)
  then have b: "lhead q < QUEUE_SIZE" "ltail q < QUEUE_SIZE" "length (lines q) = QUEUE_SIZE"
    by (auto simp: queue_inv_def line_ring_def)
  have push: "line_push q l = (if lhead q = ?t then Ret Exit else Ret (Go (q\<lparr>ltail := ?t, lines := (lines q)[ltail q := Some l]\<rparr>)))"
    unfolding line_push_def Let_def ring_wrap [OF b(2)] using b by (simp add: arr_set_def)
  have full: "length (line_list q) < QUEUE_SIZE - 1 \<longleftrightarrow> lhead q \<noteq> ?t"
    using b by (auto simp: line_list_def length_queue_list queue_size_def line_ring_def mod_Suc QUEUE_SIZE_def split: if_splits)
  show ?thesis
  proof (cases "lhead q = ?t")
    case False
    then have "head ?r \<noteq> (tail ?r + 1) mod cap ?r" by (simp add: line_ring_def)
    from queue_push_slot [OF r refl this, of l] push False full show ?thesis
      by (simp add: line_inv_def line_list_def line_ring_def)
  qed (use push full in simp)
qed

lemma lreadstdin_empty: "line_inv q \<Longrightarrow> line_list q = [] \<Longrightarrow> lreadstdin q = Ret (None, q)"
  using queue_empty_iff [of "line_ring q"] by (simp add: line_inv_def line_list_def lreadstdin_def queue_empty_def line_ring_def)

lemma lreadstdin_ok:
  assumes inv: "line_inv q" and ne: "line_list q = x # xs"
  shows "\<exists>q'. lreadstdin q = Ret (Some x, q') \<and> line_inv q' \<and> line_list q' = xs"
proof -
  let ?h = "if lhead q + 1 \<ge> QUEUE_SIZE then 0 else lhead q + 1"
  have q: "queue_inv (line_ring q)" "queue_list (line_ring q) = x # xs" using assms by (simp_all add: line_inv_def line_list_def)
  from queue_pop_ok [OF q] obtain q' where q': "queue_pop (line_ring q) = (0, Some x, q')" "queue_inv q'" "queue_list q' = xs" by blast
  then have eq: "q' = line_ring (q\<lparr>lhead := ?h\<rparr>)" and slot: "arr_get (lines q) (lhead q) = Some (Some x)" "lhead q \<noteq> ltail q"
    by (auto simp: queue_pop_def line_ring_def Let_def split: if_splits option.splits)
  have "lreadstdin q = Ret (Some x, q\<lparr>lhead := ?h\<rparr>)"
    unfolding lreadstdin_def slot(1) using slot(2) by simp
  then show ?thesis using q'(2,3) eq by (simp add: line_inv_def line_list_def)
qed

interpretation lq: fifo line_inv line_list line_add line_take "\<lambda>q. length (line_list q) < QUEUE_SIZE - 1"
proof unfold_locales
  fix q x xs
  show "line_inv q \<Longrightarrow> length (line_list q) < QUEUE_SIZE - 1 \<Longrightarrow>
      \<exists>q'. line_add q x = Some q' \<and> line_inv q' \<and> line_list q' = line_list q @ [x]"
    using line_push_ok [of q x] by (auto simp: line_add_def)
  show "line_inv q \<Longrightarrow> line_list q = x # xs \<Longrightarrow> \<exists>q'. line_take q = Some (x, q') \<and> line_inv q' \<and> line_list q' = xs"
    using lreadstdin_ok [of q x xs] by (auto simp: line_take_def)
  show "line_inv q \<Longrightarrow> line_list q = [] \<Longrightarrow> line_take q = None"
    by (simp add: line_take_def lreadstdin_empty)
qed

subsection \<open>Reader and Lua side in turns\<close>

text \<open>
  A state: whether the reader thread runs, the input it has not read, the ring, and the lines Lua took. The process
  ends when the reader meets the end of the input or a full ring, so those rounds have no successor.
\<close>

type_synonym stdin_state = "bool \<times> bytes \<times> line_queue \<times> bytes list"

inductive stdin_step :: "stdin_state \<Rightarrow> stdin_state \<Rightarrow> bool" where
  reader: "readline_round q inp = Ret (Go (q', rest, eof)) \<Longrightarrow> stdin_step (True, inp, q, out) (\<not> eof, rest, q', out)"
| taken: "line_take q = Some (l, q') \<Longrightarrow> stdin_step (a, inp, q, out) (a, inp, q', out @ [l])"
| idle: "line_take q = None \<Longrightarrow> stdin_step (a, inp, q, out) (a, inp, q, out)"

inductive_cases stdin_step_elim: "stdin_step s s'"

definition input_line :: "bytes \<Rightarrow> bool" where
  "input_line l \<longleftrightarrow> length l < 1023 \<and> 0 \<notin> set l \<and> 10 \<notin> set l"

definition input_text :: "bytes list \<Rightarrow> bytes" where
  "input_text ls = concat (map (\<lambda>l. l @ [10]) ls)"

lemma fgets_line: "10 \<notin> set l \<Longrightarrow> length l < n \<Longrightarrow> fgets n (l @ 10 # rest) = (l @ [10], rest, False)"
proof (induction l arbitrary: n)
  case Nil
  then show ?case by (cases n) simp_all
next
  case (Cons c l)
  then show ?case by (cases n) simp_all
qed

lemma readline_round_line:
  assumes "input_line l" "line_inv q"
  shows "readline_round q (input_text (l # ls)) =
    run_bind (line_push q l) (\<lambda>p. case p of Exit \<Rightarrow> Ret Exit | Go q' \<Rightarrow> Ret (Go (q', input_text ls, False)))"
proof -
  have "fgets 1023 (input_text (l # ls)) = (l @ [10], input_text ls, False)"
    using assms(1) fgets_line [of l 1023 "input_text ls"] by (simp add: input_line_def input_text_def)
  moreover have "cstr (l @ [10]) = l @ [10]"
    using assms(1) by (auto simp: cstr_def input_line_def takeWhile_append_all)
  ultimately show ?thesis by (simp add: readline_round_def)
qed

text \<open>The lines Lua took and those in the ring are a prefix of the input lines, and the rest is not yet read.\<close>

definition stdin_inv :: "bytes list \<Rightarrow> stdin_state \<Rightarrow> bool" where
  "stdin_inv ls = (\<lambda>(a, inp, q, out). a \<and> line_inv q \<and>
     (\<exists>rest. ls = out @ line_list q @ rest \<and> inp = input_text rest))"

lemma stdin_step_inv:
  assumes "\<forall>l \<in> set ls. input_line l" "stdin_inv ls s" "stdin_step s s'"
  shows "stdin_inv ls s'"
  using assms(3,2)
proof (cases rule: stdin_step.cases)
  case (reader q inp q' rest eof out)
  with assms(2) obtain more where m: "line_inv q" "ls = out @ line_list q @ more" "inp = input_text more" by (auto simp: stdin_inv_def)
  show ?thesis
  proof (cases more)
    case Nil
    have "fgets 1023 [] = ([], [], True)" using fgets.simps(2) [of 1022] by (simp only: eval_nat_numeral)
    then show ?thesis using reader m Nil by (simp add: readline_round_def input_text_def)
  next
    case (Cons l more')
    then have "input_line l" using assms(1) m by simp
    from readline_round_line [OF this m(1), of more'] reader m Cons
    have "run_bind (line_push q l) (\<lambda>p. case p of Exit \<Rightarrow> Ret Exit | Go q' \<Rightarrow> Ret (Go (q', input_text more', False))) = Ret (Go (q', rest, eof))"
      by simp
    then have "line_push q l = Ret (Go q')" "rest = input_text more'" "\<not> eof"
      by (cases "line_push q l"; auto split: proc.splits)+
    then show ?thesis using line_push_ok [OF m(1), of l] m Cons reader by (auto simp: stdin_inv_def split: if_splits)
  qed
next
  case (taken q l q' a inp out)
  with assms(2) lq.pop_Some_iff [of q l q'] show ?thesis by (auto simp: stdin_inv_def)
qed (use assms in auto)

lemma stdin_reach_inv:
  assumes "\<forall>l \<in> set ls. input_line l" "stdin_step\<^sup>*\<^sup>* (True, input_text ls, line_queue_new, []) s"
  shows "stdin_inv ls s"
  using assms(2)
proof (induction rule: rtranclp_induct)
  case base
  show ?case by (simp add: stdin_inv_def line_queue_new_inv)
next
  case (step s s')
  then show ?case using stdin_step_inv [OF assms(1)] by blast
qed

text \<open>
  C24: as long as the process runs, whatever the interleaving of the reader thread and the Lua side, the lines handed to
  Lua followed by those in the ring are exactly the first lines of the input, in order and complete; nothing is lost,
  repeated or reordered, and the ring never holds more than 1023 lines. (Lines of less than 1023 bytes without zeros.)
\<close>

theorem client_lines_in_order:
  assumes "\<forall>l \<in> set ls. input_line l"
    and "stdin_step\<^sup>*\<^sup>* (True, input_text ls, line_queue_new, []) (a, inp, q, out)"
  shows "take (length out + length (line_list q)) ls = out @ line_list q \<and>
    inp = input_text (drop (length out + length (line_list q)) ls) \<and> length (line_list q) < QUEUE_SIZE"
proof -
  from stdin_reach_inv [OF assms] obtain rest
    where "line_inv q" "ls = out @ line_list q @ rest" "inp = input_text rest" by (auto simp: stdin_inv_def)
  moreover have "length (line_list q) < QUEUE_SIZE"
    using ring_size_bound [of "line_ring q"] \<open>line_inv q\<close>
    by (simp add: line_inv_def line_list_def length_queue_list) (simp add: line_ring_def)
  ultimately show ?thesis by simp
qed

theorem client_lines_in_order_witness:
  "\<exists>q. stdin_step\<^sup>*\<^sup>* (True, input_text [[104, 105], []], line_queue_new, []) (True, input_text [[]], q, [[104, 105]]) \<and>
     take (Suc (length (line_list q))) [[104, 105], []] = [104, 105] # line_list q"
proof -
  let ?ls = "[[104, 105], []] :: bytes list"
  have ok: "\<forall>l \<in> set ?ls. input_line l" by (simp add: input_line_def)
  obtain q1 where q1: "line_push line_queue_new [104, 105] = Ret (Go q1)" "line_inv q1" "line_list q1 = [[104, 105]]"
    using line_push_ok [OF line_queue_new_inv(1), of "[104, 105]"] by (auto simp: line_queue_new_inv QUEUE_SIZE_def)
  obtain q2 where q2: "line_take q1 = Some ([104, 105], q2)" using lq.pop_ok [OF q1(2,3)] by blast
  have "readline_round line_queue_new (input_text ?ls) = Ret (Go (q1, input_text [[]], False))"
    using readline_round_line [OF _ line_queue_new_inv(1), of "[104, 105]" "[[]]"] ok q1 by simp
  then have "stdin_step (True, input_text ?ls, line_queue_new, []) (True, input_text [[]], q1, [])"
    using stdin_step.reader by fastforce
  moreover have "stdin_step (True, input_text [[]], q1, []) (True, input_text [[]], q2, [[104, 105]])"
    using stdin_step.taken [OF q2, of True _ "[]"] by simp
  ultimately have r: "stdin_step\<^sup>*\<^sup>* (True, input_text ?ls, line_queue_new, []) (True, input_text [[]], q2, [[104, 105]])" by simp
  from client_lines_in_order [OF ok r] r show ?thesis by auto
qed

end
