(* ===== verification/Busilogger.thy ===== *)
theory Busilogger
  imports Skynet_Prelude
begin

text \<open>
  The business logger of server/lualib-src/service_busilogger.c, which starts a new file every day.

  Outside the code are the clock, the file system and the time zone. The clock is read twice on the way to a new file, by
  \<^verbatim>\<open>busi_update_name\<close> and again by \<^verbatim>\<open>busi_open_file\<close>: these are the arguments \<open>now\<close> and \<open>now2\<close>. The file system is the record
  \<open>disk\<close>: what \<^verbatim>\<open>access\<close>, \<^verbatim>\<open>mkdir\<close> and \<^verbatim>\<open>fopen\<close> answer (\<open>None\<close>: success, \<open>Some e\<close>: the error number \<open>e\<close>), what the files
  hold, the calls that open, flush and close a stream in their order, and what was written to the standard streams. Using
  a stream that is not open is undefined. The time zone is
  the parameter \<open>datestr\<close>: \<^verbatim>\<open>strftime\<close> with \<^verbatim>\<open>%Y%m%d\<close> of \<^verbatim>\<open>localtime\<close>; \<^verbatim>\<open>mktime\<close> of \<^verbatim>\<open>localtime\<close> is the parameter \<open>mktm\<close>.
\<close>

datatype handle = NullHandle | StdoutHandle | FileHandle bytes

datatype stream_call = Fopen bytes | Fflush handle | Fclose handle

record disk =
  acc :: "bytes \<Rightarrow> nat option"
  mkdirs :: "bytes \<Rightarrow> nat option"
  opens :: "bytes \<Rightarrow> nat option"
  files :: "bytes \<Rightarrow> bytes"
  stdout_text :: bytes
  stderr_text :: bytes
  calls :: "stream_call list"

text \<open>The streams of files that are open after the calls made so far, the latest first.\<close>

definition open_streams :: "disk \<Rightarrow> handle list" where
  "open_streams d =
     fold (\<lambda>c hs. case c of Fopen f \<Rightarrow> FileHandle f # hs | Fclose h \<Rightarrow> remove1 h hs | Fflush _ \<Rightarrow> hs) (calls d) []"

definition usable :: "handle \<Rightarrow> disk \<Rightarrow> bool" where
  "usable h d \<longleftrightarrow> h = StdoutHandle \<or> h \<in> set (open_streams d)"

definition flush_stream :: "handle \<Rightarrow> disk \<Rightarrow> disk option" where
  "flush_stream h d = (if usable h d then Some (d\<lparr>calls := calls d @ [Fflush h]\<rparr>) else None)"

definition close_stream :: "handle \<Rightarrow> disk \<Rightarrow> disk option" where
  "close_stream h d = (if usable h d then Some (d\<lparr>calls := calls d @ [Fclose h]\<rparr>) else None)"

text \<open>\<open>log_create_time\<close> is not set by \<^verbatim>\<open>busilogger_create\<close>; the two arrays hold C strings once \<^verbatim>\<open>busilogger_init\<close> ran.\<close>

record busilogger =
  bhandle :: handle
  bclose :: int
  log_create_time :: "int option"
  log_dir :: bytes
  log_prefix :: bytes

definition busilogger_create :: "bytes \<Rightarrow> bytes \<Rightarrow> busilogger" where
  "busilogger_create dir0 prefix0 =
     \<lparr>bhandle = NullHandle, bclose = 0, log_create_time = None, log_dir = dir0, log_prefix = prefix0\<rparr>"

text \<open>The division of C truncates towards zero.\<close>

definition c_div :: "int \<Rightarrow> int \<Rightarrow> int" where
  "c_div a b = (if a \<ge> 0 then a div b else - ((- a) div b))"

definition sameday :: "int \<Rightarrow> int \<Rightarrow> int" where
  "sameday t1 t2 = (if c_div (t1 + 8 * 3600) 86400 = c_div (t2 + 8 * 3600) 86400 then 1 else 0)"

text \<open>\<^verbatim>\<open>busilogger_release\<close>: the disk after the stream was closed, if it is, and the record that is freed.\<close>

definition busilogger_release :: "busilogger \<Rightarrow> disk \<Rightarrow> (disk \<times> busilogger) option" where
  "busilogger_release inst d =
     do { d1 \<leftarrow> (if bclose inst \<noteq> 0 then close_stream (bhandle inst) d else Some d);
          Some (d1, inst) }"

definition ENOENT :: nat where "ENOENT = 2"

definition say_err :: "disk \<Rightarrow> bytes \<Rightarrow> disk" where
  "say_err d s = d\<lparr>stderr_text := stderr_text d @ s\<rparr>"

definition busi_create_dir :: "bytes \<Rightarrow> disk \<Rightarrow> int \<times> disk" where
  "busi_create_dir dir d =
     (case acc d dir of
        None \<Rightarrow> (0, d)
      | Some e \<Rightarrow>
          if e = ENOENT then
            (case mkdirs d dir of
               None \<Rightarrow> (0, d\<lparr>acc := (acc d)(dir := None)\<rparr>)
             | Some e' \<Rightarrow> (-1, say_err d (str ''busi_create_dir mkdir error: '' @ fmt_d (int e') @ [10])))
          else (-1, say_err d (str ''busi_create_dir access dir error: '' @ fmt_d (int e) @ [10])))"

text \<open>\<^verbatim>\<open>snprintf\<close> into 512 bytes.\<close>

definition log_filename :: "bytes \<Rightarrow> bytes \<Rightarrow> bytes \<Rightarrow> bytes" where
  "log_filename dir pre date = take 511 (dir @ str ''/'' @ pre @ str ''.log.'' @ date)"

text \<open>
  \<^verbatim>\<open>busi_open_file\<close>: when the file cannot be opened, its name is written to the standard error as a format, which is
  undefined when it has a percent sign. The array \<^verbatim>\<open>prefix\<close> that line 89 fills is not used.
\<close>

definition busi_open_file :: "(int \<Rightarrow> bytes) \<Rightarrow> int \<Rightarrow> busilogger \<Rightarrow> disk \<Rightarrow> (busilogger \<times> disk) option" where
  "busi_open_file datestr now2 inst d =
     (let (_, d1) = busi_create_dir (log_dir inst) d;
          filename = log_filename (log_dir inst) (log_prefix inst) (datestr now2)
      in case opens d1 filename of
           None \<Rightarrow> Some (inst\<lparr>bhandle := FileHandle filename\<rparr>, d1\<lparr>calls := calls d1 @ [Fopen filename]\<rparr>)
         | Some e \<Rightarrow>
             if 37 \<in> set filename then None
             else Some (inst\<lparr>bhandle := StdoutHandle\<rparr>,
                        say_err d1 (str ''busi_open_file open file error: '' @ fmt_d (int e) @ [10] @ filename)))"

text \<open>\<^verbatim>\<open>busi_update_name\<close>: the result is always 0. Comparing with a creation time that was never set is undefined.\<close>

definition busi_update_name :: "(int \<Rightarrow> bytes) \<Rightarrow> (int \<Rightarrow> int) \<Rightarrow> int \<Rightarrow> int \<Rightarrow> busilogger \<Rightarrow> disk \<Rightarrow> (int \<times> busilogger \<times> disk) option" where
  "busi_update_name datestr mktm now now2 inst d =
     (let now_local = mktm now
      in do { (need_create, inst1) \<leftarrow>
                (if bhandle inst = NullHandle then Some (True, inst\<lparr>log_create_time := Some now_local\<rparr>)
                 else
                   (case log_create_time inst of None \<Rightarrow> None
                    | Some t \<Rightarrow>
                        if sameday now_local t = 0 then Some (True, inst\<lparr>log_create_time := Some now_local\<rparr>)
                        else Some (False, inst)));
              if \<not> need_create then Some (0, inst1, d)
              else if bhandle inst1 = StdoutHandle then Some (0, inst1, d)
              else do { d1 \<leftarrow> (if bhandle inst1 \<noteq> NullHandle
                              then do { d0 \<leftarrow> flush_stream (bhandle inst1) d; close_stream (bhandle inst1) d0 }
                              else Some d);
                        (inst2, d2) \<leftarrow> busi_open_file datestr now2 inst1 d1;
                        Some (0, inst2, d2) } })"

definition write_out :: "handle \<Rightarrow> bytes \<Rightarrow> disk \<Rightarrow> disk option" where
  "write_out h s d =
     (if \<not> usable h d then None
      else case h of
        NullHandle \<Rightarrow> None
      | StdoutHandle \<Rightarrow> Some (d\<lparr>stdout_text := stdout_text d @ s\<rparr>)
      | FileHandle f \<Rightarrow> Some (d\<lparr>files := (files d)(f := files d f @ s)\<rparr>))"

definition busilogger_cb :: "(int \<Rightarrow> bytes) \<Rightarrow> (int \<Rightarrow> int) \<Rightarrow> int \<Rightarrow> int \<Rightarrow> bytes \<Rightarrow> busilogger \<Rightarrow> disk \<Rightarrow> (busilogger \<times> disk) option" where
  "busilogger_cb datestr mktm now now2 msg inst d =
     do { (_, inst1, d1) \<leftarrow> busi_update_name datestr mktm now now2 inst d;
          d2 \<leftarrow> write_out (bhandle inst1) msg d1;
          d3 \<leftarrow> write_out (bhandle inst1) [10] d2;
          d4 \<leftarrow> flush_stream (bhandle inst1) d3;
          Some (inst1, d4) }"

text \<open>\<^verbatim>\<open>sscanf\<close> with \<^verbatim>\<open>%s\<close>: a word and what follows it; \<open>None\<close> when there is none.\<close>

definition scan_word :: "bytes \<Rightarrow> (bytes \<times> bytes) option" where
  "scan_word s =
     (let s1 = dropWhile is_space s
      in if s1 = [] then None else Some (takeWhile (\<lambda>c. \<not> is_space c) s1, dropWhile (\<lambda>c. \<not> is_space c) s1))"

text \<open>
  \<^verbatim>\<open>busilogger_init\<close>: the return value, the service name that is registered together with the callback, the logger and
  the disk. A word that does not fit its array (128, 256 and 256 bytes) is undefined.
\<close>

definition busilogger_init :: "(int \<Rightarrow> bytes) \<Rightarrow> (int \<Rightarrow> int) \<Rightarrow> int \<Rightarrow> int \<Rightarrow> bytes option \<Rightarrow> busilogger \<Rightarrow> disk \<Rightarrow>
    (int \<times> bytes option \<times> busilogger \<times> disk) option" where
  "busilogger_init datestr mktm now now2 parm inst d =
     (case parm of None \<Rightarrow> Some (1, None, inst, d)
      | Some p \<Rightarrow>
          (case scan_word p of None \<Rightarrow> Some (1, None, inst, d)
           | Some (name, p1) \<Rightarrow>
               if length name \<ge> 128 then None
               else (case scan_word p1 of None \<Rightarrow> Some (1, None, inst, d)
                     | Some (dir, p2) \<Rightarrow>
                         if length dir \<ge> 256 then None
                         else (case scan_word p2 of None \<Rightarrow> Some (1, None, inst\<lparr>log_dir := dir\<rparr>, d)
                               | Some (pre, p3) \<Rightarrow>
                                   if length pre \<ge> 256 then None
                                   else do { (r, inst1, d1) \<leftarrow> busi_update_name datestr mktm now now2 (inst\<lparr>log_dir := dir, log_prefix := pre\<rparr>) d;
                                             let inst2 = (if r = -1 then inst1\<lparr>bclose := 1\<rparr> else inst1);
                                             if bhandle inst2 = NullHandle then Some (1, None, inst2, d1)
                                             else Some (0, Some name, inst2, d1) }))))"

subsection \<open>Daily files\<close>

text \<open>
  The hypotheses on the environment: \<^verbatim>\<open>mktime\<close> inverts \<^verbatim>\<open>localtime\<close>, the local date changes exactly with the day of
  \<^verbatim>\<open>sameday\<close> (the time zone is eight hours east of Greenwich), every file can be opened and the names fit. They are asked for the times \<open>T\<close> at which messages are logged.
\<close>

definition calm :: "int set \<Rightarrow> (int \<Rightarrow> bytes) \<Rightarrow> (int \<Rightarrow> int) \<Rightarrow> bytes \<Rightarrow> bytes \<Rightarrow> disk \<Rightarrow> bool" where
  "calm T datestr mktm dir pre d \<longleftrightarrow>
     (\<forall>t \<in> T. mktm t = t) \<and> (\<forall>t \<in> T. \<forall>u \<in> T. datestr t = datestr u \<longleftrightarrow> sameday t u = 1) \<and>
     (\<forall>t \<in> T. length dir + length pre + length (datestr t) \<le> 505) \<and> (\<forall>f. opens d f = None)"

text \<open>A message with the two readings of the clock of its call. The name without the cut, and what a list of messages appends to a file.\<close>

type_synonym entry = "int \<times> int \<times> bytes"

definition day_file :: "bytes \<Rightarrow> bytes \<Rightarrow> bytes \<Rightarrow> bytes" where
  "day_file dir pre date = dir @ str ''/'' @ pre @ str ''.log.'' @ date"

definition day_text :: "(int \<Rightarrow> bytes) \<Rightarrow> int \<Rightarrow> entry list \<Rightarrow> bytes" where
  "day_text datestr t ms = concat (map (\<lambda>m. snd (snd m) @ [10]) (filter (\<lambda>m. datestr (fst m) = datestr t) ms))"

text \<open>Two readings of the clock on the same day, both at the times that are considered.\<close>

definition one_day :: "int set \<Rightarrow> int \<Rightarrow> int \<Rightarrow> bool" where
  "one_day T now now2 \<longleftrightarrow> now \<in> T \<and> now2 \<in> T \<and> sameday now now2 = 1"

fun log_all :: "(int \<Rightarrow> bytes) \<Rightarrow> (int \<Rightarrow> int) \<Rightarrow> entry list \<Rightarrow> busilogger \<Rightarrow> disk \<Rightarrow> (busilogger \<times> disk) option" where
  "log_all datestr mktm [] inst d = Some (inst, d)"
| "log_all datestr mktm ((now, now2, msg) # ms) inst d =
     (case busilogger_cb datestr mktm now now2 msg inst d of None \<Rightarrow> None | Some (inst1, d1) \<Rightarrow> log_all datestr mktm ms inst1 d1)"

lemma log_filename_day:
  "calm T datestr mktm dir pre d \<Longrightarrow> t \<in> T \<Longrightarrow> log_filename dir pre (datestr t) = day_file dir pre (datestr t)"
  unfolding log_filename_def day_file_def by (rule take_all) (auto simp: calm_def)

lemma day_file_inj [simp]: "day_file dir pre a = day_file dir pre b \<longleftrightarrow> a = b"
  by (simp add: day_file_def)

lemma calm_disk: "opens d' = opens d \<Longrightarrow> calm T datestr mktm dir pre d' = calm T datestr mktm dir pre d"
  by (simp add: calm_def)

text \<open>A logger whose open file is that of its creation day, and whose stream is the only one that is open.\<close>

definition logger_inv :: "int set \<Rightarrow> (int \<Rightarrow> bytes) \<Rightarrow> bytes \<Rightarrow> bytes \<Rightarrow> busilogger \<Rightarrow> disk \<Rightarrow> bool" where
  "logger_inv T datestr dir pre inst d \<longleftrightarrow> log_dir inst = dir \<and> log_prefix inst = pre \<and>
     (bhandle inst = NullHandle \<and> open_streams d = [] \<or>
      (\<exists>t \<in> T. log_create_time inst = Some t \<and> bhandle inst = FileHandle (day_file dir pre (datestr t)) \<and>
        open_streams d = [bhandle inst]))"

lemma busi_create_dir_keeps:
  "busi_create_dir dir d = (r, d1) \<Longrightarrow> opens d1 = opens d \<and> files d1 = files d \<and> calls d1 = calls d"
  by (auto simp: busi_create_dir_def say_err_def split: option.splits if_splits)

text \<open>Opening the file of the day when no stream is open.\<close>

lemma busi_open_file_calm:
  assumes c: "calm T datestr mktm dir pre d" and i: "log_dir inst = dir" "log_prefix inst = pre" and n: "now2 \<in> T"
    and e: "open_streams d = []"
  shows "\<exists>d1. busi_open_file datestr now2 inst d = Some (inst\<lparr>bhandle := FileHandle (day_file dir pre (datestr now2))\<rparr>, d1) \<and>
    files d1 = files d \<and> opens d1 = opens d \<and> open_streams d1 = [FileHandle (day_file dir pre (datestr now2))]"
proof -
  obtain r d1 where cd: "busi_create_dir dir d = (r, d1)" by fastforce
  note k = busi_create_dir_keeps [OF cd]
  have "opens d1 f = None" for f using c k by (simp add: calm_def)
  then show ?thesis
    using i cd k e log_filename_day [OF c n] by (simp add: busi_open_file_def open_streams_def Let_def)
qed

lemma busi_update_name_calm:
  assumes c: "calm T datestr mktm dir pre d" and i: "logger_inv T datestr dir pre inst d" and n: "one_day T now now2"
  shows "\<exists>inst1 d1. busi_update_name datestr mktm now now2 inst d = Some (0, inst1, d1) \<and> logger_inv T datestr dir pre inst1 d1 \<and>
    bhandle inst1 = FileHandle (day_file dir pre (datestr now)) \<and> files d1 = files d \<and> opens d1 = opens d"
proof -
  have o: "mktm now = now" "now \<in> T" "now2 \<in> T" using c n by (simp_all add: calm_def one_day_def)
  have sd: "sameday now t = 0 \<longleftrightarrow> datestr now \<noteq> datestr t" if "t \<in> T" for t using c o that by (auto simp: calm_def sameday_def)
  have d2: "datestr now2 = datestr now" using n sd [OF o(3)] by (simp add: one_day_def)
  note l = i [unfolded logger_inv_def]
  show ?thesis
  proof (cases "bhandle inst = NullHandle")
    case True
    then show ?thesis using l o d2 busi_open_file_calm [OF c _ _ o(3), of "inst\<lparr>log_create_time := Some now\<rparr>"]
      by (auto simp: busi_update_name_def logger_inv_def)
  next
    case False
    then obtain t where t: "t \<in> T" "log_create_time inst = Some t" "bhandle inst = FileHandle (day_file dir pre (datestr t))"
      "open_streams d = [bhandle inst]" using l by auto
    show ?thesis
    proof (cases "sameday now t = 0")
      case True
      let ?d = "d\<lparr>calls := calls d @ [Fflush (bhandle inst), Fclose (bhandle inst)]\<rparr>"
      have cl: "do { d0 \<leftarrow> flush_stream (bhandle inst) d; close_stream (bhandle inst) d0 } = Some ?d" "open_streams ?d = []"
        using t(4) by (simp_all add: flush_stream_def close_stream_def usable_def open_streams_def)
      have "calm T datestr mktm dir pre ?d" using c calm_disk [of ?d d] by simp
      from busi_open_file_calm [OF this _ _ o(3) cl(2), of "inst\<lparr>log_create_time := Some now\<rparr>"] show ?thesis
        using l o d2 True t cl(1) by (auto simp: busi_update_name_def logger_inv_def)
    next
      case False
      then show ?thesis using i o t sd [OF t(1)] by (simp add: busi_update_name_def)
    qed
  qed
qed

lemma busilogger_cb_calm:
  assumes "calm T datestr mktm dir pre d" "logger_inv T datestr dir pre inst d" "one_day T now now2"
  shows "\<exists>inst1 d1. busilogger_cb datestr mktm now now2 msg inst d = Some (inst1, d1) \<and> logger_inv T datestr dir pre inst1 d1 \<and>
    opens d1 = opens d \<and> (let f = day_file dir pre (datestr now) in files d1 = (files d)(f := files d f @ msg @ [10]))"
proof -
  obtain inst1 d1 where u: "busi_update_name datestr mktm now now2 inst d = Some (0, inst1, d1)" "logger_inv T datestr dir pre inst1 d1"
    "bhandle inst1 = FileHandle (day_file dir pre (datestr now))" "files d1 = files d" "opens d1 = opens d"
    using busi_update_name_calm [OF assms] by blast
  then have "open_streams d1 = [bhandle inst1]" by (auto simp: logger_inv_def)
  with u show ?thesis
    by (auto simp: busilogger_cb_def write_out_def flush_stream_def usable_def logger_inv_def open_streams_def Let_def)
qed

lemma log_all_calm:
  assumes "calm T datestr mktm dir pre d" "logger_inv T datestr dir pre inst d" "\<forall>(now, now2, _) \<in> set ms. one_day T now now2"
  shows "\<exists>inst1 d1. log_all datestr mktm ms inst d = Some (inst1, d1) \<and> logger_inv T datestr dir pre inst1 d1 \<and>
    (\<forall>t \<in> T. files d1 (day_file dir pre (datestr t)) = files d (day_file dir pre (datestr t)) @ day_text datestr t ms) \<and>
    (\<forall>f. f \<notin> (\<lambda>m. day_file dir pre (datestr (fst m))) ` set ms \<longrightarrow> files d1 f = files d f)"
  using assms
proof (induction ms arbitrary: inst d)
  case Nil
  then show ?case by (simp add: day_text_def)
next
  case (Cons m ms)
  obtain now now2 msg where m: "m = (now, now2, msg)" by (cases m) auto
  let ?f = "day_file dir pre (datestr now)"
  obtain inst1 d1 where c: "busilogger_cb datestr mktm now now2 msg inst d = Some (inst1, d1)" "logger_inv T datestr dir pre inst1 d1"
    "opens d1 = opens d" "files d1 = (files d)(?f := files d ?f @ msg @ [10])"
    using busilogger_cb_calm [OF Cons.prems(1,2), of now now2 msg] Cons.prems(3) m by (auto simp: Let_def)
  have "calm T datestr mktm dir pre d1" using Cons.prems(1) calm_disk [OF c(3)] by simp
  from Cons.IH [OF this c(2)] Cons.prems(3) obtain inst2 d2 where "log_all datestr mktm ms inst1 d1 = Some (inst2, d2)" "logger_inv T datestr dir pre inst2 d2"
    "\<forall>t \<in> T. files d2 (day_file dir pre (datestr t)) = files d1 (day_file dir pre (datestr t)) @ day_text datestr t ms"
    "\<forall>f. f \<notin> (\<lambda>m. day_file dir pre (datestr (fst m))) ` set ms \<longrightarrow> files d2 f = files d1 f" by auto
  then show ?case using c(1,4) by (auto simp: m day_text_def)
qed

lemma log_all_keeps_open:
  "log_all datestr mktm ms inst d = Some (inst1, d1) \<Longrightarrow> bhandle inst \<noteq> NullHandle \<Longrightarrow> bhandle inst1 \<noteq> NullHandle"
proof (induction ms arbitrary: inst d)
  case (Cons m ms)
  obtain now now2 msg where m: "m = (now, now2, msg)" by (cases m) auto
  from Cons.prems(1) obtain i1 e1 where c: "busilogger_cb datestr mktm now now2 msg inst d = Some (i1, e1)"
    "log_all datestr mktm ms i1 e1 = Some (inst1, d1)" by (auto simp: m split: option.splits)
  have "bhandle i1 \<noteq> NullHandle" using c(1)
    by (auto simp: busilogger_cb_def write_out_def split: handle.splits bind_splits if_splits)
  with Cons.IH c(2) show ?case by blast
qed simp

lemma busi_update_name_keeps:
  "busi_update_name datestr mktm now now2 inst d = Some (r, inst1, d1) \<Longrightarrow> log_dir inst1 = log_dir inst \<and> log_prefix inst1 = log_prefix inst"
  by (auto simp: busi_update_name_def busi_open_file_def Let_def split: if_splits option.splits prod.splits bind_splits)

text \<open>The state a successful \<^verbatim>\<open>busilogger_init\<close> leaves: the file of the day is open.\<close>

lemma busilogger_init_calm:
  assumes i: "busilogger_init datestr mktm now now2 parm (busilogger_create dir0 prefix0) d0 = Some (0, name, inst, d)"
    and c: "calm T datestr mktm (log_dir inst) (log_prefix inst) d0" and n: "one_day T now now2" and e: "calls d0 = []"
  shows "logger_inv T datestr (log_dir inst) (log_prefix inst) inst d \<and> bhandle inst \<noteq> NullHandle \<and>
    files d = files d0 \<and> opens d = opens d0"
proof -
  obtain dir pre r inst1 d1 where
    u: "busi_update_name datestr mktm now now2 ((busilogger_create dir0 prefix0)\<lparr>log_dir := dir, log_prefix := pre\<rparr>) d0 = Some (r, inst1, d1)"
    and inst: "inst = (if r = -1 then inst1\<lparr>bclose := 1\<rparr> else inst1)" and d: "d = d1"
    using i by (auto simp: busilogger_init_def Let_def split: option.splits prod.splits if_splits bind_splits)
  let ?l = "(busilogger_create dir0 prefix0)\<lparr>log_dir := dir, log_prefix := pre\<rparr>"
  have k: "log_dir inst = dir" "log_prefix inst = pre" using busi_update_name_keeps [OF u] inst by (auto split: if_splits)
  have "logger_inv T datestr dir pre ?l d0" using e by (simp add: logger_inv_def busilogger_create_def open_streams_def)
  moreover have "calm T datestr mktm dir pre d0" using c k by simp
  ultimately have "r = 0" "logger_inv T datestr dir pre inst1 d1"
    "bhandle inst1 \<noteq> NullHandle" "files d1 = files d0" "opens d1 = opens d0"
    using busi_update_name_calm [of T datestr mktm dir pre d0 ?l now now2] n u by auto
  then show ?thesis using inst d k by simp
qed

text \<open>
  C30: after a successful \<^verbatim>\<open>busilogger_init\<close>, when files can be opened, the time zone is the one \<^verbatim>\<open>sameday\<close> assumes and the two
  readings of the clock of one call fall on the same day, every message is appended, with a line feed, to the file of the
  day it was logged on, after what the file held before and in the order of the messages; no other file changes. The
  stream of the last file is the only one left open: each earlier one was flushed and closed before the next was opened.
  This holds across any number of changes of the day, also when the clock goes back.
\<close>

theorem busilogger_daily_files:
  assumes "busilogger_init datestr mktm n0 n0' parm (busilogger_create dir0 prefix0) d0 = Some (0, name, inst, d)" and "calls d0 = []"
    and "dir = log_dir inst" "pre = log_prefix inst" and "calm T datestr mktm dir pre d0"
    and "one_day T n0 n0'" "\<forall>(now, now2, _) \<in> set ms. one_day T now now2"
  shows "\<exists>inst1 d1. log_all datestr mktm ms inst d = Some (inst1, d1) \<and>
    (\<forall>t \<in> T. files d1 (day_file dir pre (datestr t)) = files d0 (day_file dir pre (datestr t)) @ day_text datestr t ms) \<and>
    (\<forall>f. f \<notin> (\<lambda>m. day_file dir pre (datestr (fst m))) ` set ms \<longrightarrow> files d1 f = files d0 f) \<and>
    open_streams d1 = [bhandle inst1]"
proof -
  have i: "logger_inv T datestr dir pre inst d" "bhandle inst \<noteq> NullHandle" "files d = files d0" "opens d = opens d0"
    using busilogger_init_calm [OF assms(1) _ assms(6,2)] assms(3-5) by auto
  have "calm T datestr mktm dir pre d" using assms(5) calm_disk [OF i(4)] by simp
  from log_all_calm [OF this i(1) assms(7)] obtain inst1 d1 where r: "log_all datestr mktm ms inst d = Some (inst1, d1)"
    "logger_inv T datestr dir pre inst1 d1"
    "\<forall>t \<in> T. files d1 (day_file dir pre (datestr t)) = files d (day_file dir pre (datestr t)) @ day_text datestr t ms"
    "\<forall>f. f \<notin> (\<lambda>m. day_file dir pre (datestr (fst m))) ` set ms \<longrightarrow> files d1 f = files d f" by blast
  moreover have "bhandle inst1 \<noteq> NullHandle" using log_all_keeps_open [OF r(1) i(2)] .
  ultimately show ?thesis using i(3) by (auto simp: logger_inv_def)
qed

definition two_days :: "int \<Rightarrow> bytes" where
  "two_days t = (if t < 57600 then str ''19700101'' else str ''19700102'')"

definition empty_disk :: disk where
  "empty_disk = \<lparr>acc = (\<lambda>_. None), mkdirs = (\<lambda>_. None), opens = (\<lambda>_. None), files = (\<lambda>_. []), stdout_text = [], stderr_text = [], calls = []\<rparr>"

text \<open>Started on the first day as \<^verbatim>\<open>log / x\<close>.\<close>

definition started :: busilogger where
  "started = \<lparr>bhandle = FileHandle (day_file [47] [120] (str ''19700101'')), bclose = 0, log_create_time = Some 0, log_dir = [47], log_prefix = [120]\<rparr>"

definition started_disk :: disk where
  "started_disk = empty_disk\<lparr>calls := [Fopen (day_file [47] [120] (str ''19700101''))]\<rparr>"

lemma started_init:
  "busilogger_init two_days (\<lambda>t. t) 0 1 (Some (str ''log / x'')) (busilogger_create [] []) empty_disk =
     Some (0, Some (str ''log''), started, started_disk)"
proof -
  have w: "scan_word (str ''log / x'') = Some (str ''log'', str '' / x'')" "scan_word (str '' / x'') = Some ([47], str '' x'')"
    "scan_word (str '' x'') = Some ([120], [])" by code_simp+
  have l: "length (str ''log'') < 128" by (simp add: str_def)
  have f: "log_filename [47] [120] (str ''19700101'') = day_file [47] [120] (str ''19700101'')" by code_simp
  show ?thesis using l
    by (simp add: busilogger_init_def Let_def w f busi_update_name_def busi_open_file_def busi_create_dir_def busilogger_create_def
        empty_disk_def two_days_def started_def started_disk_def)
qed

theorem busilogger_daily_files_witness:
  "\<exists>inst1 d1. log_all two_days (\<lambda>t. t) [(10, 10, [97]), (57600, 57601, [98]), (100, 100, [99])] started started_disk = Some (inst1, d1) \<and>
    files d1 (day_file [47] [120] (str ''19700101'')) = [97, 10, 99, 10] \<and> files d1 (day_file [47] [120] (str ''19700102'')) = [98, 10]"
proof -
  let ?T = "{0, 1, 10, 100, 57600, 57601}" and ?ms = "[(10, 10, [97]), (57600, 57601, [98]), (100, 100, [99])] :: entry list"
  have ne: "str ''19700101'' \<noteq> str ''19700102''" by (simp add: str_def chr_def)
  have s: "sameday t u = (if (t < 57600) = (u < 57600) then 1 else 0)" if "t \<in> ?T" "u \<in> ?T" for t u
    using that by (auto simp: sameday_def c_div_def)
  have l: "length (str ''19700101'') = 8" "length (str ''19700102'') = 8" by (simp_all add: str_def)
  have c: "calm ?T two_days (\<lambda>t. t) [47] [120] empty_disk"
    using l unfolding calm_def by (intro conjI ballI) (simp_all add: s two_days_def empty_disk_def ne ne [symmetric])
  have m: "one_day ?T 0 1" "\<forall>(now, now2, _) \<in> set ?ms. one_day ?T now now2" by (simp_all add: one_day_def s)
  have i: "calls empty_disk = []" "[47] = log_dir started" "[120] = log_prefix started" by (simp_all add: empty_disk_def started_def)
  from busilogger_daily_files [OF started_init i c m] obtain inst1 d1 where
    r: "log_all two_days (\<lambda>t. t) ?ms started started_disk = Some (inst1, d1)"
    "\<forall>t \<in> ?T. files d1 (day_file [47] [120] (two_days t)) = files empty_disk (day_file [47] [120] (two_days t)) @ day_text two_days t ?ms"
    by blast
  have "files d1 (day_file [47] [120] (two_days 0)) = day_text two_days 0 ?ms"
    "files d1 (day_file [47] [120] (two_days 57600)) = day_text two_days 57600 ?ms" using r(2) by (simp_all add: empty_disk_def)
  then show ?thesis using r(1) ne ne [symmetric] by (simp add: two_days_def day_text_def)
qed

text \<open>
  Why the two readings matter: a logger that was started on an earlier day gets a message whose first reading is in the last
  second of a day and whose second one is after midnight. The creation time is that of the old day, the file that of the
  new one, and the message of the old day is in the file of the new day.
\<close>

definition three_days :: "int \<Rightarrow> bytes" where
  "three_days t = (if t < 57600 then str ''19700101'' else if t < 144000 then str ''19700102'' else str ''19700103'')"

lemma busilogger_midnight_split:
  "\<exists>inst1 d1. log_all three_days (\<lambda>t. t) [(143999, 144000, [97])] started started_disk = Some (inst1, d1) \<and>
     log_create_time inst1 = Some 143999 \<and>
     files d1 (day_file [47] [120] (three_days 143999)) = [] \<and> files d1 (day_file [47] [120] (three_days 144000)) = [97, 10]"
proof -
  have f: "log_filename [47] [120] (str ''19700103'') = day_file [47] [120] (str ''19700103'')" by code_simp
  have ne: "str ''19700102'' \<noteq> str ''19700103''" by (simp add: str_def chr_def)
  show ?thesis
    by (simp add: busilogger_cb_def busi_update_name_def Let_def started_def started_disk_def sameday_def c_div_def three_days_def
        flush_stream_def close_stream_def usable_def open_streams_def busi_open_file_def busi_create_dir_def empty_disk_def f write_out_def ne)
qed

end
