(* ===== verification/Lua_Value.thy ===== *)
theory Lua_Value
  imports Skynet_Prelude "HOL-Library.Log_Nat"
begin

text \<open>
  The Lua values that the C functions get and give. A table is the list of its pairs in the order in which \<^verbatim>\<open>next\<close> visits
  them (for the table hash, also the iterator of a \<^verbatim>\<open>__pairs\<close> metamethod); no key occurs twice. An integer is its 64 bits,
  a float the bits of its double. \<open>LNull\<close> is the light userdata of the null pointer; \<open>LOther\<close> any other value, with the name
  of its type.
\<close>

datatype lua_value =
    LNil
  | LBool bool
  | LInteger u64
  | LNumber double
  | LString bytes
  | LTable "(lua_value \<times> lua_value) list"
  | LNull
  | LOther bytes

fun lua_typename :: "lua_value \<Rightarrow> bytes" where
  "lua_typename LNil = str ''nil''"
| "lua_typename (LBool b) = str ''boolean''"
| "lua_typename (LInteger i) = str ''number''"
| "lua_typename (LNumber d) = str ''number''"
| "lua_typename (LString s) = str ''string''"
| "lua_typename (LTable ps) = str ''table''"
| "lua_typename LNull = str ''userdata''"
| "lua_typename (LOther n) = n"

text \<open>
  \<open>lua_tolstring\<close> gives the text of a string or a number, for a number through the argument \<open>ns\<close>, and NULL for any other
  value. A C string ends at the first zero byte of that text.
\<close>

definition lua_tolstring :: "(lua_value \<Rightarrow> bytes) \<Rightarrow> lua_value \<Rightarrow> bytes option" where
  "lua_tolstring ns v = (case v of LString s \<Rightarrow> Some s | LInteger _ \<Rightarrow> Some (ns v) | LNumber _ \<Rightarrow> Some (ns v) | _ \<Rightarrow> None)"

definition c_text :: "bytes \<Rightarrow> bytes" where
  "c_text s = takeWhile (\<lambda>c. c \<noteq> 0) s"

text \<open>\<^verbatim>\<open>lua_rawgeti\<close>: the value of an integer key, nil when it is absent.\<close>

definition rawgeti :: "(lua_value \<times> lua_value) list \<Rightarrow> int \<Rightarrow> lua_value" where
  "rawgeti ps i = (case find (\<lambda>p. fst p = LInteger (word_of_int i)) ps of None \<Rightarrow> LNil | Some p \<Rightarrow> snd p)"

lemma rawgeti_cases: "rawgeti ps i = LNil \<or> (\<exists>k. (k, rawgeti ps i) \<in> set ps)"
proof (cases "find (\<lambda>p. fst p = LInteger (word_of_int i)) ps")
  case (Some p)
  then have "p \<in> set ps" using find_Some_iff [of _ ps p] nth_mem by metis
  then show ?thesis using Some by (metis option.simps(5) prod.collapse rawgeti_def)
qed (simp add: rawgeti_def)

text \<open>\<^verbatim>\<open>lua_rawset\<close>: an existing key keeps its place; nil removes it.\<close>

fun rawset :: "(lua_value \<times> lua_value) list \<Rightarrow> lua_value \<Rightarrow> lua_value \<Rightarrow> (lua_value \<times> lua_value) list" where
  "rawset [] k v = (if v = LNil then [] else [(k, v)])"
| "rawset ((k', v') # ps) k v = (if k' = k then (if v = LNil then ps else (k, v) # ps) else (k', v') # rawset ps k v)"

lemma rawset_new: "k \<notin> fst ` set ps \<Longrightarrow> v \<noteq> LNil \<Longrightarrow> rawset ps k v = ps @ [(k, v)]"
  by (induction ps k v rule: rawset.induct) auto

lemma size_pair_list: "(k, v) \<in> set ps \<Longrightarrow> size v < size_list (size_prod size size) ps"
  by (induction ps) auto

subsection \<open>Doubles that are whole numbers\<close>

text \<open>The value of a finite double that is a whole number.\<close>

definition d_int :: "double \<Rightarrow> int option" where
  "d_int d =
     (let e = dmag d div 2 ^ 52; f = dmag d mod 2 ^ 52; m = (if e = 0 then f else f + 2 ^ 52); x = (if e = 0 then 1 else e)
      in if e = 2047 then None
         else if x \<ge> 1075 then Some ((if dneg d then -1 else 1) * int (m * 2 ^ (x - 1075)))
         else if m mod 2 ^ (1075 - x) = 0 then Some ((if dneg d then -1 else 1) * int (m div 2 ^ (1075 - x)))
         else None)"

text \<open>A positive number below 2 to the 53 as a double.\<close>

definition double_of_nat :: "nat \<Rightarrow> double" where
  "double_of_nat n =
     (if n = 0 then 0 else let e = floorlog 2 n - 1 in of_nat ((1023 + e) * 2 ^ 52 + (n * 2 ^ (52 - e) - 2 ^ 52)))"

lemma d_int_double_of_nat:
  assumes "1 \<le> n" "n < 2 ^ 53"
  shows "d_int (double_of_nat n) = Some (int n)" "dmag (double_of_nat n) < 2047 * 2 ^ 52"
proof -
  define e where "e = floorlog 2 n - 1"
  have f: "2 ^ e \<le> n" "n < 2 ^ (e + 1)" "0 < floorlog 2 n"
    using floorlog_bounds [of n 2] assms(1) by (auto simp: e_def floorlog_def)
  have e: "e \<le> 52"
  proof (rule ccontr)
    assume "\<not> e \<le> 52"
    then have "(2::nat) ^ 53 \<le> 2 ^ e" by (intro power_increasing) auto
    then show False using f(1) assms(2) by simp
  qed
  let ?m = "n * 2 ^ (52 - e)"
  have s: "(2::nat) ^ e * 2 ^ (52 - e) = 2 ^ 52" using e by (simp flip: power_add)
  have "?m < 2 ^ (e + 1) * 2 ^ (52 - e)" using f(2) by (rule mult_less_mono1) simp
  also have "2 ^ (e + 1) * 2 ^ (52 - e) = (2::nat) ^ 53" using s by simp
  finally have m: "2 ^ 52 \<le> ?m" "?m < 2 ^ 53" using mult_le_mono1 [OF f(1), of "2 ^ (52 - e)"] s by auto
  have b: "(1023 + e) * 2 ^ 52 + (?m - 2 ^ 52) < 2047 * 2 ^ 52" using e m by simp
  let ?b = "(1023 + e) * 2 ^ 52 + (?m - 2 ^ 52)"
  have d: "double_of_nat n = of_nat ?b" using assms(1) by (simp add: double_of_nat_def e_def Let_def)
  have "x < 2047 * 2 ^ 52 \<Longrightarrow> unat (of_nat x :: double) = x" for x by (simp add: unat_of_nat take_bit_nat_eq_self)
  from this [OF b] have u: "unat (double_of_nat n) = ?b" unfolding d .
  have g: "dmag (double_of_nat n) = ?b" "\<not> dneg (double_of_nat n)" using u b by (simp_all add: dmag_def dneg_def)
  have q: "r < k \<Longrightarrow> (x * k + r) div k = x" "r < k \<Longrightarrow> (x * k + r) mod k = r" for x r k :: nat by simp_all
  have "?m - 2 ^ 52 < 2 ^ 52" using m by simp
  from q [OF this, of "1023 + e"] have "?b div 2 ^ 52 = 1023 + e" "?b mod 2 ^ 52 = ?m - 2 ^ 52" .
  then show "d_int (double_of_nat n) = Some (int n)" using e m g by (cases "e = 52") (simp_all add: d_int_def Let_def)
  show "dmag (double_of_nat n) < 2047 * 2 ^ 52" using g b by simp
qed

lemma d_int_one: "d_int 0x3FF0000000000000 = Some 1"
  by (simp add: d_int_def dmag_def dneg_def)

end
