(* ===== verification/Lua_Hash.thy ===== *)
theory Lua_Hash
  imports Lua_Value "HOL-Library.Multiset"
begin

text \<open>
  The table hash of server/lualib-src/lua-hash.c and the session numbers of server/lualib-src/lua-uuid.c.

  A Lua table is the list of its pairs in the order in which \<^verbatim>\<open>next\<close>, or the iterator that a \<^verbatim>\<open>__pairs\<close> metamethod gives,
  visits them; the two loops of \<^verbatim>\<open>_hash_table\<close> do the same with them. An \<^verbatim>\<open>int\<close> is 32 bits wide and its arithmetic wraps,
  as the compilers the server is built with do it: by the C standard the sums and products of the hash overflow, so that
  this theory, unlike the others, does not take a signed overflow for undefined.
\<close>

datatype hash_error = TooDeep | WrongType bytes | NotTable

definition MAX_DEPTH :: nat where "MAX_DEPTH = 16"

text \<open>\<^verbatim>\<open>(int)(value ^ (value >> 32))\<close>.\<close>

definition fold_u64 :: "u64 \<Rightarrow> u32" where
  "fold_u64 v = ucast (v XOR drop_bit 32 v)"

definition hash_integer :: "u64 \<Rightarrow> u32" where
  "hash_integer v = (if v \<noteq> scast (ucast v :: u32) then fold_u64 v else ucast v)"

definition hash_boolean :: "bool \<Rightarrow> u32" where
  "hash_boolean b = (if b then 1231 else 1237)"

text \<open>\<^verbatim>\<open>char\<close> is signed.\<close>

definition hash_string :: "bytes \<Rightarrow> u32" where
  "hash_string s = foldl (\<lambda>h c. 31 * h + scast c) 0 s"

function hash_one :: "lua_value \<Rightarrow> nat \<Rightarrow> hash_error + u32"
  and hash_table :: "(lua_value \<times> lua_value) list \<Rightarrow> nat \<Rightarrow> u32 \<Rightarrow> hash_error + u32" where
  "hash_one v depth =
     (if depth > MAX_DEPTH then Inl TooDeep
      else
        case v of
          LInteger i \<Rightarrow> Inr (hash_integer i)
        | LNumber n \<Rightarrow> Inr (fold_u64 n)
        | LBool b \<Rightarrow> Inr (hash_boolean b)
        | LString s \<Rightarrow> Inr (hash_string s)
        | LTable ps \<Rightarrow> hash_table ps (depth + 1) 0
        | _ \<Rightarrow> Inl (WrongType (lua_typename v)))"
| "hash_table [] depth h = Inr (h * of_nat depth)"
| "hash_table ((k, v) # ps) depth h =
     (case hash_one k depth of Inl e \<Rightarrow> Inl e
      | Inr kh \<Rightarrow> (case hash_one v depth of Inl e \<Rightarrow> Inl e | Inr vh \<Rightarrow> hash_table ps depth (h + (kh XOR vh))))"
  by pat_completeness auto
termination
  by (relation "measure (case_sum (\<lambda>(v, _). size v) (\<lambda>(ps, _, _). size_list (size_prod size size) ps))") auto

declare hash_one.simps [simp del]

definition lhash_table :: "lua_value \<Rightarrow> hash_error + u32" where
  "lhash_table v = (case v of LTable ps \<Rightarrow> hash_table ps 1 0 | _ \<Rightarrow> Inl NotTable)"

subsection \<open>Independence of the order\<close>

text \<open>What one pair adds.\<close>

definition pair_hash :: "nat \<Rightarrow> lua_value \<times> lua_value \<Rightarrow> u32 option" where
  "pair_hash depth p =
     (case hash_one (fst p) depth of Inl e \<Rightarrow> None
      | Inr kh \<Rightarrow> (case hash_one (snd p) depth of Inl e \<Rightarrow> None | Inr vh \<Rightarrow> Some (kh XOR vh)))"

definition right :: "'e + 'a \<Rightarrow> 'a option" where
  "right r = (case r of Inl e \<Rightarrow> None | Inr x \<Rightarrow> Some x)"

lemma hash_table_step:
  "right (hash_table (p # ps) depth h) = (case pair_hash depth p of None \<Rightarrow> None | Some x \<Rightarrow> right (hash_table ps depth (h + x)))"
  by (cases p) (auto simp: right_def pair_hash_def split: sum.splits)

lemma hash_table_sum:
  "right (hash_table ps depth h) =
     (if \<forall>p \<in> set ps. pair_hash depth p \<noteq> None then Some ((h + sum_list (map (the \<circ> pair_hash depth) ps)) * of_nat depth) else None)"
proof (induction ps arbitrary: h)
  case (Cons p ps)
  then show ?case by (cases "pair_hash depth p") (simp_all add: hash_table_step add.assoc comp_def del: hash_table.simps)
qed (simp add: right_def)

text \<open>The same table up to the order of its pairs, at every level.\<close>

inductive same_table :: "lua_value \<Rightarrow> lua_value \<Rightarrow> bool" where
  same: "same_table v v"
| pairs: "list_all2 (\<lambda>p q. same_table (fst p) (fst q) \<and> same_table (snd p) (snd q)) ps rs \<Longrightarrow> mset rs = mset qs \<Longrightarrow>
    same_table (LTable ps) (LTable qs)"

lemma hash_table_mset: "mset ps = mset qs \<Longrightarrow> right (hash_table ps depth h) = right (hash_table qs depth h)"
proof -
  assume m: "mset ps = mset qs"
  then have "set ps = set qs" by (metis set_mset_mset)
  moreover have "sum_list (map f ps) = sum_list (map f qs)" for f :: "lua_value \<times> lua_value \<Rightarrow> u32"
    using m by (metis mset_map sum_mset_sum_list)
  ultimately show ?thesis by (simp add: hash_table_sum)
qed

lemma hash_table_all2:
  assumes "list_all2 (\<lambda>p q. pair_hash depth p = pair_hash depth q) ps qs"
  shows "right (hash_table ps depth h) = right (hash_table qs depth h)"
  using assms
proof (induction ps qs arbitrary: h rule: list_all2_induct)
  case (Cons p ps q qs)
  then show ?case by (auto simp: hash_table_step simp del: hash_table.simps split: option.splits)
qed simp

lemma same_table_hash: "same_table v w \<Longrightarrow> right (hash_one v depth) = right (hash_one w depth)"
proof (induction arbitrary: depth rule: same_table.induct)
  case (pairs ps rs qs)
  have h: "list_all2 (\<lambda>p q. pair_hash d p = pair_hash d q) ps rs" for d
    using pairs(1)
  proof (rule list_all2_mono)
    fix p q
    assume "(same_table (fst p) (fst q) \<and> (\<forall>x. right (hash_one (fst p) x) = right (hash_one (fst q) x))) \<and>
      same_table (snd p) (snd q) \<and> (\<forall>x. right (hash_one (snd p) x) = right (hash_one (snd q) x))"
    then have "right (hash_one (fst p) d) = right (hash_one (fst q) d)" "right (hash_one (snd p) d) = right (hash_one (snd q) d)" by blast+
    then show "pair_hash d p = pair_hash d q" by (auto simp: pair_hash_def right_def split: sum.splits)
  qed
  have "right (hash_table ps (depth + 1) 0) = right (hash_table qs (depth + 1) 0)"
    using hash_table_all2 [OF h] hash_table_mset [OF pairs(2)] by simp
  then show ?case by (simp add: hash_one.simps [of "LTable _"])
qed simp

text \<open>
  C31: the hash of a table does not depend on the order in which its pairs, or those of the tables in it, are visited:
  two tables that are equal up to order both have no hash (too deep or with a value of a wrong type) or have the same one.
  When both fail the errors may differ, since the one that is reported is the first that is met.
\<close>

theorem hash_order_independent:
  assumes "same_table (LTable ps) (LTable qs)"
  shows "right (lhash_table (LTable ps)) = right (lhash_table (LTable qs))"
  using same_table_hash [OF assms, of 0] by (simp add: lhash_table_def hash_one.simps)

theorem hash_order_independent_witness:
  "right (lhash_table (LTable [(LInteger 1, LString [97]), (LBool True, LTable [(LInteger 2, LInteger 3), (LInteger 4, LInteger 5)])])) =
   right (lhash_table (LTable [(LBool True, LTable [(LInteger 4, LInteger 5), (LInteger 2, LInteger 3)]), (LInteger 1, LString [97])]))"
proof -
  let ?a = "LTable [(LInteger 2, LInteger 3), (LInteger 4, LInteger 5)]" and ?b = "LTable [(LInteger 4, LInteger 5), (LInteger 2, LInteger 3)]"
  let ?x = "(LInteger 1, LString [97])"
  have "same_table ?a ?b"
    by (rule same_table.pairs [of _ "[(LInteger 2, LInteger 3), (LInteger 4, LInteger 5)]"]) (auto intro: same_table.same)
  then have "same_table (LTable [?x, (LBool True, ?a)]) (LTable [(LBool True, ?b), ?x])"
    by (intro same_table.pairs [of _ "[?x, (LBool True, ?b)]"]) (auto intro: same_table.same)
  then show ?thesis by (rule hash_order_independent)
qed

subsection \<open>Session numbers\<close>

text \<open>\<^verbatim>\<open>lsid\<close>: the number, or nothing once 65535 was given; the new value of the static variable.\<close>

definition lsid :: "u32 \<Rightarrow> int option \<times> u32" where
  "lsid sid = (if sid \<ge> 0xffff then (None, sid) else (Some (uint (sid + 1)), sid + 1))"

fun lsid_calls :: "nat \<Rightarrow> u32 \<Rightarrow> int option list" where
  "lsid_calls 0 sid = []"
| "lsid_calls (Suc n) sid = (let (r, sid') = lsid sid in r # lsid_calls n sid')"

lemma lsid_calls_nth:
  assumes "k \<le> 65535" "i < n"
  shows "lsid_calls n (of_nat k) ! i = (if k + i < 65535 then Some (int (k + i) + 1) else None)"
  using assms
proof (induction n arbitrary: k i)
  case (Suc n)
  have "unat (of_nat k :: u32) = k" using Suc.prems by (simp add: unat_of_nat)
  then have le: "(0xffff \<le> (of_nat k :: u32)) = (65535 \<le> k)" by (simp add: word_le_nat_alt)
  show ?case
  proof (cases "k = 65535")
    case True
    have "lsid (of_nat k) = (None, of_nat k)" unfolding lsid_def le using True by simp
    then show ?thesis using Suc.IH [of k "i - 1"] Suc.prems True by (cases i) simp_all
  next
    case False
    then have k: "k < 65535" using Suc.prems by simp
    then have "uint (of_nat (Suc k) :: u32) = int k + 1" by (subst uint_nat, subst unat_of_nat) simp
    then have "lsid (of_nat k) = (Some (int k + 1), of_nat (Suc k))" unfolding lsid_def le using k by (simp add: add.commute)
    then show ?thesis using Suc.IH [of "Suc k" "i - 1"] Suc.prems k by (cases i) (simp_all del: of_nat_Suc)
  qed
qed simp

text \<open>
  After loading, the k-th call of \<^verbatim>\<open>sid\<close> gives k for the first 65535 calls and nothing afterwards: the numbers fit 16
  bits, none is given twice and the counter never wraps.
\<close>

theorem sid_calls_distinct:
  "length (lsid_calls n 0) = n \<and> (\<forall>i \<in> {0..<n}. lsid_calls n 0 ! i = (if i < 65535 then Some (int i + 1) else None))"
proof -
  have "length (lsid_calls n s) = n" for s by (induction n arbitrary: s) (simp_all add: case_prod_unfold Let_def)
  then show ?thesis using lsid_calls_nth [of 0 _ n] by simp
qed

theorem sid_calls_distinct_witness: "lsid_calls 3 0 ! 2 = Some 3"
  using sid_calls_distinct [of 3] by auto

end
