(* ===== verification/Syslog_Service.thy ===== *)
theory Syslog_Service
  imports Skynet_Prelude
begin

text \<open>
  The logger service of server/service-src/service_syslog.c. A message is the memory behind \<^verbatim>\<open>msg\<close>, of which \<^verbatim>\<open>sz\<close> bytes
  belong to it; \<^verbatim>\<open>%s\<close> reads on until it meets a zero, and outside the memory that is undefined.
\<close>

datatype priority = LOG_ERR | LOG_WARNING | LOG_NOTICE | LOG_INFO | LOG_DEBUG

definition level_of :: "byte \<Rightarrow> priority option" where
  "level_of c =
     (if c = chr (CHR ''D'') then Some LOG_DEBUG
      else if c = chr (CHR ''I'') then Some LOG_INFO
      else if c = chr (CHR ''N'') then Some LOG_NOTICE
      else if c = chr (CHR ''W'') then Some LOG_WARNING
      else if c = chr (CHR ''E'') then Some LOG_ERR
      else None)"

text \<open>The priority and how many bytes of the message are skipped.\<close>

definition check_msg :: "bytes \<Rightarrow> nat \<Rightarrow> priority \<Rightarrow> (priority \<times> nat) option" where
  "check_msg mem n p =
     (if n < 2 then Some (p, 0)
      else do { c \<leftarrow> arr_get mem 1;
                if c \<noteq> chr (CHR ''|'') then Some (p, 0)
                else do { l \<leftarrow> arr_get mem 0;
                          case level_of l of None \<Rightarrow> Some (p, 0) | Some q \<Rightarrow> Some (q, 2) } })"

definition read_cstr :: "bytes \<Rightarrow> bytes option" where
  "read_cstr mem = (if 0 \<in> set mem then Some (takeWhile (\<lambda>c. c \<noteq> 0) mem) else None)"

text \<open>What is handed to \<^verbatim>\<open>syslog\<close>: the priority and the formatted line.\<close>

definition syslog_cb :: "u32 \<Rightarrow> bytes \<Rightarrow> nat \<Rightarrow> (priority \<times> bytes) option" where
  "syslog_cb source mem n =
     do { (p, k) \<leftarrow> check_msg mem n LOG_WARNING;
          s \<leftarrow> read_cstr (drop k mem);
          Some (p, str ''[:'' @ fmt_08x source @ str ''] '' @ s) }"

datatype syslog_effect = OpenLog bytes | SetCallback | RegisterName bytes

definition syslog_init :: "bytes \<Rightarrow> int \<times> syslog_effect list" where
  "syslog_init ident = (0, [OpenLog ident, SetCallback, RegisterName (str ''.logger'')])"

text \<open>A message that ends with a zero is logged whole, without its level mark and at the level it names.\<close>

lemma read_cstr_zero: "0 \<notin> set s \<Longrightarrow> read_cstr (s @ 0 # rest) = Some s"
  by (induction s) (auto simp: read_cstr_def)

lemma syslog_cb_marked:
  assumes "level_of l = Some p" "0 \<notin> set s"
  shows "syslog_cb source (l # chr (CHR ''|'') # s @ 0 # rest) (length s + 2) =
    Some (p, str ''[:'' @ fmt_08x source @ str ''] '' @ s)"
  using assms by (simp add: syslog_cb_def check_msg_def arr_get_def read_cstr_zero)

lemma syslog_cb_plain:
  assumes "0 \<notin> set s" "length s < 2 \<or> s ! 1 \<noteq> chr (CHR ''|'') \<or> level_of (s ! 0) = None"
  shows "syslog_cb source (s @ 0 # rest) (length s) = Some (LOG_WARNING, str ''[:'' @ fmt_08x source @ str ''] '' @ s)"
  using assms by (auto simp: syslog_cb_def check_msg_def arr_get_def read_cstr_zero nth_append)

end
