(* ===== verification/Appender.thy ===== *)
theory Appender
  imports Skynet_Prelude
begin

text \<open>
  The contract the encoder relies on: a way of appending keeps the invariant and adds exactly its argument, as long as the
  text stays below a limit. The ways of appending are used one after the other, so that the client lemma is about a
  sequence of them.
\<close>

locale appender =
  fixes inv :: "'s \<Rightarrow> bool"
    and contents :: "'s \<Rightarrow> 'a list"
    and put :: "'s \<Rightarrow> 'a list \<Rightarrow> 's option"
    and limit :: nat
  assumes put_ok: "inv s \<Longrightarrow> length (contents s) + length xs < limit \<Longrightarrow> \<exists>s'. put s xs = Some s' \<and> inv s' \<and> contents s' = contents s @ xs"
begin

lemma put_all:
  "inv s \<Longrightarrow> length (contents s) + length (concat xss) < limit \<Longrightarrow>
     \<exists>s'. fold_opt put s xss = Some s' \<and> inv s' \<and> contents s' = contents s @ concat xss"
proof (induction xss arbitrary: s)
  case (Cons xs xss)
  then obtain s1 where "put s xs = Some s1" "inv s1" "contents s1 = contents s @ xs" using put_ok [of s xs] by auto
  with Cons.IH [of s1] Cons.prems show ?case by auto
qed simp

lemma put_split:
  assumes "inv s" "length (contents s) + length (xs @ ys) < limit"
  shows "\<exists>s1 s2 s3. put s xs = Some s1 \<and> put s1 ys = Some s2 \<and> put s (xs @ ys) = Some s3 \<and> contents s2 = contents s3"
proof -
  obtain s1 where "put s xs = Some s1" "inv s1" "contents s1 = contents s @ xs" using put_ok [of s xs] assms by auto
  moreover from this obtain s2 where "put s1 ys = Some s2" "contents s2 = contents s @ xs @ ys" using put_ok [of s1 ys] assms by auto
  moreover obtain s3 where "put s (xs @ ys) = Some s3" "contents s3 = contents s @ xs @ ys" using put_ok [OF assms] by auto
  ultimately show ?thesis by auto
qed

end

end
