(* ===== verification/Strbuf.thy ===== *)
theory Strbuf
  imports Appender
begin

text \<open>
  The growing string buffer of server/lualib-src/lua-cjson/strbuf.c and strbuf.h.

  The memory behind \<^verbatim>\<open>buf\<close> is a list of \<open>size\<close> bytes, \<open>None\<close> where nothing was written yet; a null pointer is the empty
  list with \<open>allocated\<close> false. The \<^verbatim>\<open>int\<close> fields that cannot be negative are natural numbers; where the C code computes with
  them, an overflow of 31 bits is undefined. \<^verbatim>\<open>die\<close> ends the process, which is \<open>None\<close> as well. \<^verbatim>\<open>malloc\<close> and \<^verbatim>\<open>realloc\<close>
  succeed.
\<close>

record strbuf =
  sbuf :: "byte option list"
  allocated :: bool
  ssize :: nat
  slength :: nat
  increment :: int
  dynamic :: bool
  reallocs :: nat

definition STRBUF_DEFAULT_SIZE :: nat where "STRBUF_DEFAULT_SIZE = 1023"
definition STRBUF_DEFAULT_INCREMENT :: int where "STRBUF_DEFAULT_INCREMENT = -2"

text \<open>Writing a byte and a block at an offset of the memory.\<close>

definition put_byte :: "strbuf \<Rightarrow> nat \<Rightarrow> byte \<Rightarrow> strbuf option" where
  "put_byte s i c = map_option (\<lambda>m. s\<lparr>sbuf := m\<rparr>) (arr_set (sbuf s) i (Some c))"

definition strbuf_ensure_null :: "strbuf \<Rightarrow> strbuf option" where
  "strbuf_ensure_null s = put_byte s (slength s) 0"

definition strbuf_init :: "int \<Rightarrow> strbuf option" where
  "strbuf_init len =
     (let n = (if len \<le> 0 then STRBUF_DEFAULT_SIZE else nat len + 1)
      in if n \<ge> 2 ^ 31 then None
         else strbuf_ensure_null
           \<lparr>sbuf = replicate n None, allocated = True, ssize = n, slength = 0, increment = STRBUF_DEFAULT_INCREMENT,
            dynamic = False, reallocs = 0\<rparr>)"

definition strbuf_new :: "int \<Rightarrow> strbuf option" where
  "strbuf_new len = map_option (\<lambda>s. s\<lparr>dynamic := True\<rparr>) (strbuf_init len)"

definition strbuf_set_increment :: "strbuf \<Rightarrow> int \<Rightarrow> strbuf option" where
  "strbuf_set_increment s inc = (if inc = 0 \<or> inc = -1 then None else Some (s\<lparr>increment := inc\<rparr>))"

text \<open>The buffer after \<^verbatim>\<open>strbuf_free\<close>, if it was not allocated by \<^verbatim>\<open>strbuf_new\<close>.\<close>

definition strbuf_free :: "strbuf \<Rightarrow> strbuf option" where
  "strbuf_free s =
     (let s1 = (if allocated s then s\<lparr>sbuf := [], allocated := False\<rparr> else s) in if dynamic s then None else Some s1)"

definition strbuf_free_to_string :: "strbuf \<Rightarrow> (byte option list \<times> nat) option" where
  "strbuf_free_to_string s = map_option (\<lambda>s1. (sbuf s1, slength s1)) (strbuf_ensure_null s)"

text \<open>The loop of the exponential sizing; a factor below two or a size of zero would never get there.\<close>

function grow_size :: "nat \<Rightarrow> nat \<Rightarrow> nat \<Rightarrow> nat option" where
  "grow_size k n req =
     (if req \<le> n then Some n
      else if k < 2 \<or> n = 0 \<or> n * k \<ge> 2 ^ 31 then None
      else grow_size k (n * k) req)"
  by pat_completeness auto
termination
  by (relation "measure (\<lambda>(k, n, req). req - n)") (auto intro!: diff_less_mono2)

declare grow_size.simps [simp del]

definition calculate_new_size :: "strbuf \<Rightarrow> int \<Rightarrow> nat option" where
  "calculate_new_size s len =
     (if len \<le> 0 then None
      else if len + 1 \<ge> 2 ^ 31 then None
      else
        let reqsize = nat len + 1
        in if ssize s > reqsize then Some reqsize
           else if increment s < 0 then grow_size (nat (- increment s)) (ssize s) reqsize
           else if int (ssize s) + increment s - 1 \<ge> 2 ^ 31 then None
           else Some (nat ((int (ssize s) + increment s - 1) div increment s * increment s)))"

text \<open>\<^verbatim>\<open>realloc\<close> keeps what fits; new memory is not written yet.\<close>

definition strbuf_resize :: "strbuf \<Rightarrow> int \<Rightarrow> strbuf option" where
  "strbuf_resize s len =
     map_option (\<lambda>n. s\<lparr>ssize := n, sbuf := take n (sbuf s) @ replicate (n - length (sbuf s)) None, allocated := True,
                       reallocs := reallocs s + 1\<rparr>)
       (calculate_new_size s len)"

definition strbuf_reset :: "strbuf \<Rightarrow> strbuf" where
  "strbuf_reset s = s\<lparr>slength := 0\<rparr>"

definition strbuf_allocated :: "strbuf \<Rightarrow> bool" where
  "strbuf_allocated s = allocated s"

definition strbuf_empty_length :: "strbuf \<Rightarrow> int" where
  "strbuf_empty_length s = int (ssize s) - int (slength s) - 1"

definition strbuf_ensure_empty_length :: "strbuf \<Rightarrow> int \<Rightarrow> strbuf option" where
  "strbuf_ensure_empty_length s len =
     (if len > strbuf_empty_length s then strbuf_resize s (int (slength s) + len) else Some s)"

definition strbuf_append_char_unsafe :: "strbuf \<Rightarrow> byte \<Rightarrow> strbuf option" where
  "strbuf_append_char_unsafe s c = map_option (\<lambda>s1. s1\<lparr>slength := slength s + 1\<rparr>) (put_byte s (slength s) c)"

definition strbuf_append_char :: "strbuf \<Rightarrow> byte \<Rightarrow> strbuf option" where
  "strbuf_append_char s c = do { s1 \<leftarrow> strbuf_ensure_empty_length s 1; strbuf_append_char_unsafe s1 c }"

definition strbuf_append_mem_unsafe :: "strbuf \<Rightarrow> bytes \<Rightarrow> strbuf option" where
  "strbuf_append_mem_unsafe s c =
     map_option (\<lambda>m. s\<lparr>sbuf := m, slength := slength s + length c\<rparr>) (mem_copy (sbuf s) (slength s) (map Some c) (length c))"

definition strbuf_append_mem :: "strbuf \<Rightarrow> bytes \<Rightarrow> strbuf option" where
  "strbuf_append_mem s c = do { s1 \<leftarrow> strbuf_ensure_empty_length s (int (length c)); strbuf_append_mem_unsafe s1 c }"

text \<open>\<^verbatim>\<open>strbuf_string\<close>: the bytes up to \<open>length\<close>; reading one that was not written is undefined.\<close>

definition strbuf_string :: "strbuf \<Rightarrow> bytes option" where
  "strbuf_string s =
     (if slength s \<le> length (sbuf s) \<and> None \<notin> set (take (slength s) (sbuf s)) then Some (map the (take (slength s) (sbuf s))) else None)"

text \<open>\<^verbatim>\<open>strbuf_append_string\<close>: the loop over the characters with the space that is left.\<close>

fun append_string_loop :: "strbuf \<Rightarrow> int \<Rightarrow> bytes \<Rightarrow> strbuf option" where
  "append_string_loop s space [] = Some s"
| "append_string_loop s space (c # cs) =
     do { (s1, space1) \<leftarrow> (if space < 1 then map_option (\<lambda>s1. (s1, strbuf_empty_length s1)) (strbuf_resize s (int (slength s) + 1))
                           else Some (s, space));
          s2 \<leftarrow> strbuf_append_char_unsafe s1 c;
          append_string_loop s2 (space1 - 1) cs }"

definition strbuf_append_string :: "strbuf \<Rightarrow> bytes \<Rightarrow> strbuf option" where
  "strbuf_append_string s cs = append_string_loop s (strbuf_empty_length s) cs"

text \<open>
  What \<^verbatim>\<open>vsnprintf\<close> leaves in the memory from \<open>off\<close> on: at most \<open>n - 1\<close> bytes of the text and a zero; nothing when \<open>n = 0\<close>.
\<close>

definition vsnprintf_at :: "strbuf \<Rightarrow> nat \<Rightarrow> nat \<Rightarrow> bytes \<Rightarrow> strbuf option" where
  "vsnprintf_at s off n txt =
     (if n = 0 then Some s
      else let t = take (n - 1) txt @ [0]
           in map_option (\<lambda>m. s\<lparr>sbuf := m\<rparr>) (mem_copy (sbuf s) off (map Some t) (length t)))"

definition strbuf_append_fmt :: "strbuf \<Rightarrow> nat \<Rightarrow> bytes \<Rightarrow> strbuf option" where
  "strbuf_append_fmt s len txt =
     do { s1 \<leftarrow> strbuf_ensure_empty_length s (int len);
          s2 \<leftarrow> vsnprintf_at s1 (slength s1) len txt;
          Some (s2\<lparr>slength := slength s2 + length txt\<rparr>) }"

text \<open>\<^verbatim>\<open>strbuf_append_fmt_retry\<close>: a second try after the buffer was resized; the text is the same both times.\<close>

definition strbuf_append_fmt_retry :: "strbuf \<Rightarrow> bytes \<Rightarrow> strbuf option" where
  "strbuf_append_fmt_retry s txt =
     do { s1 \<leftarrow> vsnprintf_at s (slength s) (nat (strbuf_empty_length s + 1)) txt;
          if int (length txt) \<le> strbuf_empty_length s then Some (s1\<lparr>slength := slength s1 + length txt\<rparr>)
          else do { s2 \<leftarrow> strbuf_resize s1 (int (slength s1) + int (length txt));
                    s3 \<leftarrow> vsnprintf_at s2 (slength s2) (nat (strbuf_empty_length s2 + 1)) txt;
                    if int (length txt) \<le> strbuf_empty_length s2 then Some (s3\<lparr>slength := slength s3 + length txt\<rparr>) else None } }"

subsection \<open>Invariant and contents\<close>

definition sb_inv :: "strbuf \<Rightarrow> bool" where
  "sb_inv s \<longleftrightarrow> allocated s \<and> length (sbuf s) = ssize s \<and> slength s < ssize s \<and> ssize s < 2 ^ 31 \<and> increment s = -2 \<and>
     None \<notin> set (take (slength s) (sbuf s))"

definition sb_text :: "strbuf \<Rightarrow> bytes" where
  "sb_text s = map the (take (slength s) (sbuf s))"

text \<open>The texts the buffer can hold without an overflow of its size.\<close>

definition SB_LIMIT :: nat where "SB_LIMIT = 2 ^ 30"

lemma length_sb_text: "sb_inv s \<Longrightarrow> length (sb_text s) = slength s"
  by (simp add: sb_inv_def sb_text_def)

lemma strbuf_string_ok: "sb_inv s \<Longrightarrow> strbuf_string s = Some (sb_text s)"
  by (simp add: sb_inv_def strbuf_string_def sb_text_def)

lemma strbuf_init_ok: "len + 1 < 2 ^ 31 \<Longrightarrow> \<exists>s. strbuf_init len = Some s \<and> sb_inv s \<and> sb_text s = [] \<and>
    ssize s = (if len \<le> 0 then 1023 else nat len + 1) \<and> \<not> dynamic s"
  using nat_less_iff [of len "2 ^ 31 - 1"]
  by (cases "len \<le> 0") (simp_all add: strbuf_init_def Let_def strbuf_ensure_null_def put_byte_def arr_set_def sb_inv_def sb_text_def
      STRBUF_DEFAULT_SIZE_def STRBUF_DEFAULT_INCREMENT_def nat_less_iff)

lemma strbuf_reset_ok: "sb_inv s \<Longrightarrow> sb_inv (strbuf_reset s) \<and> sb_text (strbuf_reset s) = []"
  by (simp add: sb_inv_def sb_text_def strbuf_reset_def)

lemma grow_size_ok:
  assumes "0 < n" "req \<le> 2 ^ 30" "n < 2 ^ 31"
  shows "\<exists>m. grow_size 2 n req = Some m \<and> req \<le> m \<and> n \<le> m \<and> m < 2 ^ 31"
  using assms
proof (induction "req - n" arbitrary: n rule: less_induct)
  case less
  show ?case
  proof (cases "req \<le> n")
    case True
    then show ?thesis using less.prems by (simp add: grow_size.simps)
  next
    case False
    then have "n * 2 < 2 ^ 31" "req - n * 2 < req - n" "0 < n * 2" using less.prems by auto
    with less.hyps [of "n * 2"] less.prems obtain m where "grow_size 2 (n * 2) req = Some m" "req \<le> m" "n * 2 \<le> m" "m < 2 ^ 31" by blast
    then show ?thesis using False \<open>n * 2 < 2 ^ 31\<close> less.prems by (simp add: grow_size.simps [of 2 n])
  qed
qed

lemma strbuf_resize_ok:
  assumes "sb_inv s" "int (ssize s) - 1 < len" "len < int SB_LIMIT"
  shows "\<exists>s'. strbuf_resize s len = Some s' \<and> sb_inv s' \<and> sb_text s' = sb_text s \<and> len < int (ssize s') \<and> dynamic s' = dynamic s"
proof -
  have len: "0 < len" "len + 1 < 2 ^ 31" "\<not> ssize s > nat len + 1" using assms by (auto simp: sb_inv_def SB_LIMIT_def)
  have req: "nat len + 1 \<le> 2 ^ 30" using assms(3) len(1) unfolding SB_LIMIT_def by arith
  obtain n where n: "grow_size 2 (ssize s) (nat len + 1) = Some n" "nat len + 1 \<le> n" "ssize s \<le> n" "n < 2 ^ 31"
    using grow_size_ok [of "ssize s" "nat len + 1"] req assms(1) by (auto simp: sb_inv_def)
  have "calculate_new_size s len = Some n"
    using len n assms(1) by (simp add: calculate_new_size_def Let_def sb_inv_def)
  then show ?thesis
    using n assms(1) by (auto simp: strbuf_resize_def sb_inv_def sb_text_def)
qed

lemma ensure_ok:
  assumes "sb_inv s" "length (sb_text s) + n < SB_LIMIT"
  shows "\<exists>s'. strbuf_ensure_empty_length s (int n) = Some s' \<and> sb_inv s' \<and> sb_text s' = sb_text s \<and>
    slength s' + n < ssize s' \<and> dynamic s' = dynamic s"
proof (cases "int n > strbuf_empty_length s")
  case True
  have l: "slength s + n < SB_LIMIT" using assms length_sb_text by simp
  obtain s' where s': "strbuf_resize s (int (slength s) + int n) = Some s'" "sb_inv s'" "sb_text s' = sb_text s"
    "int (slength s) + int n < int (ssize s')" "dynamic s' = dynamic s"
    using strbuf_resize_ok [OF assms(1), of "int (slength s) + int n"] True l by (auto simp: strbuf_empty_length_def)
  have "slength s' = slength s" using s'(2,3) assms(1) length_sb_text by metis
  then show ?thesis using True s' by (auto simp: strbuf_ensure_empty_length_def)
next
  case False
  then show ?thesis using assms by (auto simp: strbuf_ensure_empty_length_def strbuf_empty_length_def)
qed

lemma append_char_unsafe_ok:
  assumes "sb_inv s" "slength s + 1 < ssize s"
  shows "\<exists>s'. strbuf_append_char_unsafe s c = Some s' \<and> sb_inv s' \<and> sb_text s' = sb_text s @ [c] \<and> ssize s' = ssize s \<and>
    slength s' = slength s + 1 \<and> dynamic s' = dynamic s"
  using assms
  by (auto simp: strbuf_append_char_unsafe_def put_byte_def arr_set_def sb_inv_def sb_text_def take_Suc_conv_app_nth)

lemma append_mem_unsafe_ok:
  assumes "sb_inv s" "slength s + length c < ssize s"
  shows "\<exists>s'. strbuf_append_mem_unsafe s c = Some s' \<and> sb_inv s' \<and> sb_text s' = sb_text s @ c \<and> ssize s' = ssize s \<and>
    slength s' = slength s + length c \<and> dynamic s' = dynamic s"
  using assms by (auto simp: strbuf_append_mem_unsafe_def mem_copy_def sb_inv_def sb_text_def comp_def)

lemma append_char_ok:
  assumes "sb_inv s" "length (sb_text s) + 1 < SB_LIMIT"
  shows "\<exists>s'. strbuf_append_char s c = Some s' \<and> sb_inv s' \<and> sb_text s' = sb_text s @ [c] \<and> dynamic s' = dynamic s"
  using ensure_ok [OF assms] append_char_unsafe_ok by (fastforce simp: strbuf_append_char_def)

lemma append_mem_ok:
  assumes "sb_inv s" "length (sb_text s) + length c < SB_LIMIT"
  shows "\<exists>s'. strbuf_append_mem s c = Some s' \<and> sb_inv s' \<and> sb_text s' = sb_text s @ c \<and> dynamic s' = dynamic s"
  using ensure_ok [OF assms] append_mem_unsafe_ok by (fastforce simp: strbuf_append_mem_def)

lemma append_string_loop_ok:
  assumes "sb_inv s" "length (sb_text s) + length cs < SB_LIMIT" "space = strbuf_empty_length s"
  shows "\<exists>s'. append_string_loop s space cs = Some s' \<and> sb_inv s' \<and> sb_text s' = sb_text s @ cs \<and> ssize s \<le> ssize s' \<and> dynamic s' = dynamic s"
  using assms
proof (induction cs arbitrary: s space)
  case (Cons c cs)
  have l: "slength s + 1 < SB_LIMIT" using Cons.prems length_sb_text by simp
  obtain s1 where s1: "(if space < 1 then map_option (\<lambda>s1. (s1, strbuf_empty_length s1)) (strbuf_resize s (int (slength s) + 1)) else Some (s, space))
      = Some (s1, strbuf_empty_length s1)" "sb_inv s1" "sb_text s1 = sb_text s" "slength s1 + 1 < ssize s1" "ssize s \<le> ssize s1" "dynamic s1 = dynamic s"
  proof (cases "space < 1")
    case True
    then have "int (ssize s) - 1 < int (slength s) + 1" using Cons.prems(3) by (simp add: strbuf_empty_length_def)
    from strbuf_resize_ok [OF Cons.prems(1) this] l obtain s' where s': "strbuf_resize s (int (slength s) + 1) = Some s'" "sb_inv s'"
      "sb_text s' = sb_text s" "int (slength s) + 1 < int (ssize s')" "dynamic s' = dynamic s" by auto
    moreover have "slength s' = slength s" using s'(2,3) Cons.prems(1) length_sb_text by metis
    moreover have "ssize s \<le> slength s + 1" using True Cons.prems(3) by (simp add: strbuf_empty_length_def)
    ultimately show ?thesis using that [of s'] True by simp
  qed (use that [of s] Cons.prems in \<open>simp add: strbuf_empty_length_def\<close>)
  obtain s2 where s2: "strbuf_append_char_unsafe s1 c = Some s2" "sb_inv s2" "sb_text s2 = sb_text s1 @ [c]" "ssize s2 = ssize s1"
    "slength s2 = slength s1 + 1" "dynamic s2 = dynamic s1" using append_char_unsafe_ok [OF s1(2,4)] by blast
  then have "strbuf_empty_length s1 - 1 = strbuf_empty_length s2" by (simp add: strbuf_empty_length_def)
  then obtain s3 where "append_string_loop s2 (strbuf_empty_length s1 - 1) cs = Some s3" "sb_inv s3" "sb_text s3 = sb_text s2 @ cs"
    "ssize s2 \<le> ssize s3" "dynamic s3 = dynamic s2" using Cons.IH [of s2] Cons.prems(2) s1 s2 by auto
  then show ?case using s1 s2 by auto
qed simp

lemma append_string_ok:
  assumes "sb_inv s" "length (sb_text s) + length cs < SB_LIMIT"
  shows "\<exists>s'. strbuf_append_string s cs = Some s' \<and> sb_inv s' \<and> sb_text s' = sb_text s @ cs \<and> ssize s \<le> ssize s' \<and> dynamic s' = dynamic s"
  using append_string_loop_ok [OF assms] by (simp add: strbuf_append_string_def)

subsection \<open>The buffer as its users see it\<close>

interpretation mem: appender sb_inv sb_text strbuf_append_mem SB_LIMIT
  by unfold_locales (use append_mem_ok in blast)

interpretation cstring: appender sb_inv sb_text strbuf_append_string SB_LIMIT
  by unfold_locales (use append_string_ok in blast)

text \<open>Both ways of appending give the same text.\<close>

lemma append_string_mem:
  assumes "sb_inv s" "length (sb_text s) + length cs < SB_LIMIT"
  shows "\<exists>s1 s2. strbuf_append_string s cs = Some s1 \<and> strbuf_append_mem s cs = Some s2 \<and> sb_text s1 = sb_text s2"
  using mem.put_ok [OF assms] cstring.put_ok [OF assms] by auto

text \<open>
  Linear sizing, which \<^verbatim>\<open>strbuf_set_increment\<close> allows and no caller uses, rounds the old size up instead of the size that
  is needed.
\<close>

lemma linear_sizing_does_not_grow:
  "sb_inv s \<Longrightarrow> ssize s = 1023 \<Longrightarrow> calculate_new_size (s\<lparr>increment := 1024\<rparr>) 5000 = Some 1024"
  by (simp add: calculate_new_size_def)

end
