(* ===== verification/Cjson_Config.thy ===== *)
theory Cjson_Config
  imports Strbuf Lua_Value
begin

text \<open>
  The configuration of lua-cjson (server/lualib-src/lua-cjson/lua_cjson.c) and the number conversions of fpconv.c.

  The Lua runtime and the C library are outside: \<open>toint\<close> is \<^verbatim>\<open>lua_tointegerx\<close>, and the record \<open>num_env\<close> holds
  \<^verbatim>\<open>lua_tonumber\<close> of an integer, \<^verbatim>\<open>snprintf\<close> of a double with a format, \<^verbatim>\<open>strtod\<close> (the value and the number of characters it
  takes) and the decimal point of the locale, which \<^verbatim>\<open>fpconv_init\<close> finds out.
\<close>

record json_config =
  encode_buf :: strbuf
  encode_sparse_convert :: int
  encode_sparse_ratio :: int
  encode_sparse_safe :: int
  encode_max_depth :: int
  encode_invalid_numbers :: int
  encode_number_precision :: int
  encode_keep_buffer :: int
  decode_invalid_numbers :: int
  decode_max_depth :: int

datatype cfg_error = ArgCheck nat bytes | NotInteger nat | BadOption nat

datatype 'a cfg_result = COk 'a | CErr cfg_error | CBad

definition INT_MAX :: int where "INT_MAX = 2 ^ 31 - 1"

subsection \<open>Options\<close>

text \<open>
  \<^verbatim>\<open>json_arg_init\<close>: too many arguments are refused, missing ones are nil. Argument \<open>i\<close> of the padded list.
\<close>

definition json_arg_init :: "lua_value list \<Rightarrow> nat \<Rightarrow> lua_value list cfg_result" where
  "json_arg_init args n =
     (if length args \<le> n then COk (args @ replicate (n - length args) LNil)
      else CErr (ArgCheck (n + 1) (str ''found too many arguments'')))"

text \<open>The new setting, which is also the value that is pushed. The integer is cut to 32 bits.\<close>

definition json_integer_option :: "(lua_value \<Rightarrow> int option) \<Rightarrow> lua_value \<Rightarrow> nat \<Rightarrow> int \<Rightarrow> int \<Rightarrow> int \<Rightarrow> int cfg_result" where
  "json_integer_option toint arg optindex setting mn mx =
     (if arg = LNil then COk setting
      else
        case toint arg of None \<Rightarrow> CErr (NotInteger optindex)
        | Some n \<Rightarrow>
            let v = sint (word_of_int n :: 32 word)
            in if mn \<le> v \<and> v \<le> mx then COk v
               else CErr (ArgCheck 1 (take 63 (str ''expected integer between '' @ fmt_d mn @ str '' and '' @ fmt_d mx))))"

fun option_index :: "bytes \<Rightarrow> bytes list \<Rightarrow> int \<Rightarrow> int option" where
  "option_index s [] i = None"
| "option_index s (x # xs) i = (if x = s then Some i else option_index s xs (i + 1))"

text \<open>
  \<^verbatim>\<open>json_enum_option\<close>: the new setting and the value that is pushed. \<^verbatim>\<open>luaL_checkoption\<close> takes strings only here: a number
  is never the text of an option.
\<close>

definition bool_options :: "bytes list" where
  "bool_options = [str ''off'', str ''on'']"

definition json_enum_option :: "lua_value \<Rightarrow> nat \<Rightarrow> int \<Rightarrow> bytes list option \<Rightarrow> int \<Rightarrow> (int \<times> lua_value) cfg_result" where
  "json_enum_option arg optindex setting options bool_true =
     (let (opts, bt) = (case options of None \<Rightarrow> (bool_options, 1) | Some os \<Rightarrow> (os, bool_true));
          new = (if arg = LNil then COk setting
                 else
                   case arg of
                     LBool b \<Rightarrow> if bt \<noteq> 0 then COk (if b then bt else 0) else CErr (BadOption optindex)
                   | LString s \<Rightarrow> (case option_index s opts 0 of None \<Rightarrow> CErr (BadOption optindex) | Some i \<Rightarrow> COk i)
                   | _ \<Rightarrow> CErr (BadOption optindex))
      in case new of CErr e \<Rightarrow> CErr e | CBad \<Rightarrow> CBad
         | COk v \<Rightarrow>
             if bt \<noteq> 0 \<and> (v = 0 \<or> v = bt) then COk (v, LBool (v \<noteq> 0))
             else if 0 \<le> v \<and> nat v < length opts then COk (v, LString (opts ! nat v))
             else CBad)"

primrec cfg_bind :: "'a cfg_result \<Rightarrow> ('a \<Rightarrow> 'b cfg_result) \<Rightarrow> 'b cfg_result" where
  "cfg_bind (COk x) f = f x"
| "cfg_bind (CErr e) f = CErr e"
| "cfg_bind CBad f = CBad"

definition lua_int :: "int \<Rightarrow> lua_value" where
  "lua_int i = LInteger (word_of_int i)"

text \<open>
  The configuration functions: the values they return, and the configuration. When a later argument is refused, the
  settings of the earlier ones are already stored; the result of a failing call is the configuration with them.
\<close>

definition json_cfg_encode_sparse_array :: "(lua_value \<Rightarrow> int option) \<Rightarrow> lua_value list \<Rightarrow> json_config \<Rightarrow>
    (lua_value list) cfg_result \<times> json_config" where
  "json_cfg_encode_sparse_array toint args cfg =
     (case json_arg_init args 3 of CErr e \<Rightarrow> (CErr e, cfg) | CBad \<Rightarrow> (CBad, cfg)
      | COk as \<Rightarrow>
          (case json_enum_option (as ! 0) 1 (encode_sparse_convert cfg) None 1 of CErr e \<Rightarrow> (CErr e, cfg) | CBad \<Rightarrow> (CBad, cfg)
           | COk (c, r1) \<Rightarrow>
               let cfg1 = cfg\<lparr>encode_sparse_convert := c\<rparr>
               in case json_integer_option toint (as ! 1) 2 (encode_sparse_ratio cfg1) 0 INT_MAX of CErr e \<Rightarrow> (CErr e, cfg1) | CBad \<Rightarrow> (CBad, cfg1)
                  | COk ratio \<Rightarrow>
                      let cfg2 = cfg1\<lparr>encode_sparse_ratio := ratio\<rparr>
                      in case json_integer_option toint (as ! 2) 3 (encode_sparse_safe cfg2) 0 INT_MAX of CErr e \<Rightarrow> (CErr e, cfg2) | CBad \<Rightarrow> (CBad, cfg2)
                         | COk safe \<Rightarrow> (COk [r1, lua_int ratio, lua_int safe], cfg2\<lparr>encode_sparse_safe := safe\<rparr>)))"

definition int_setting :: "(lua_value \<Rightarrow> int option) \<Rightarrow> lua_value list \<Rightarrow> (json_config \<Rightarrow> int) \<Rightarrow> (int \<Rightarrow> json_config \<Rightarrow> json_config) \<Rightarrow>
    int \<Rightarrow> int \<Rightarrow> json_config \<Rightarrow> (lua_value list) cfg_result \<times> json_config" where
  "int_setting toint args getv setv mn mx cfg =
     (case json_arg_init args 1 of CErr e \<Rightarrow> (CErr e, cfg) | CBad \<Rightarrow> (CBad, cfg)
      | COk as \<Rightarrow>
          (case json_integer_option toint (as ! 0) 1 (getv cfg) mn mx of CErr e \<Rightarrow> (CErr e, cfg) | CBad \<Rightarrow> (CBad, cfg)
           | COk v \<Rightarrow> (COk [lua_int v], setv v cfg)))"

definition json_cfg_encode_max_depth :: "(lua_value \<Rightarrow> int option) \<Rightarrow> lua_value list \<Rightarrow> json_config \<Rightarrow>
    (lua_value list) cfg_result \<times> json_config" where
  "json_cfg_encode_max_depth toint args cfg =
     int_setting toint args encode_max_depth (\<lambda>v c. c\<lparr>encode_max_depth := v\<rparr>) 1 INT_MAX cfg"

definition json_cfg_decode_max_depth :: "(lua_value \<Rightarrow> int option) \<Rightarrow> lua_value list \<Rightarrow> json_config \<Rightarrow>
    (lua_value list) cfg_result \<times> json_config" where
  "json_cfg_decode_max_depth toint args cfg =
     int_setting toint args decode_max_depth (\<lambda>v c. c\<lparr>decode_max_depth := v\<rparr>) 1 INT_MAX cfg"

definition json_cfg_encode_number_precision :: "(lua_value \<Rightarrow> int option) \<Rightarrow> lua_value list \<Rightarrow> json_config \<Rightarrow>
    (lua_value list) cfg_result \<times> json_config" where
  "json_cfg_encode_number_precision toint args cfg =
     int_setting toint args encode_number_precision (\<lambda>v c. c\<lparr>encode_number_precision := v\<rparr>) 1 14 cfg"

definition enum_setting :: "lua_value list \<Rightarrow> (json_config \<Rightarrow> int) \<Rightarrow> (int \<Rightarrow> json_config \<Rightarrow> json_config option) \<Rightarrow>
    bytes list option \<Rightarrow> json_config \<Rightarrow> (lua_value list) cfg_result \<times> json_config" where
  "enum_setting args getv setv options cfg =
     (case json_arg_init args 1 of CErr e \<Rightarrow> (CErr e, cfg) | CBad \<Rightarrow> (CBad, cfg)
      | COk as \<Rightarrow>
          (case json_enum_option (as ! 0) 1 (getv cfg) options 1 of CErr e \<Rightarrow> (CErr e, cfg) | CBad \<Rightarrow> (CBad, cfg)
           | COk (v, r) \<Rightarrow> (case setv v cfg of None \<Rightarrow> (CBad, cfg) | Some cfg' \<Rightarrow> (COk [r], cfg'))))"

text \<open>Turning the buffer off frees it, turning it on allocates it.\<close>

definition set_keep_buffer :: "int \<Rightarrow> json_config \<Rightarrow> json_config option" where
  "set_keep_buffer v cfg =
     (let cfg1 = cfg\<lparr>encode_keep_buffer := v\<rparr>
      in if encode_keep_buffer cfg \<noteq> v then
           (if v \<noteq> 0 then map_option (\<lambda>b. cfg1\<lparr>encode_buf := b\<rparr>) (strbuf_init 0)
            else map_option (\<lambda>b. cfg1\<lparr>encode_buf := b\<rparr>) (strbuf_free (encode_buf cfg)))
         else Some cfg1)"

definition json_cfg_encode_keep_buffer :: "lua_value list \<Rightarrow> json_config \<Rightarrow> (lua_value list) cfg_result \<times> json_config" where
  "json_cfg_encode_keep_buffer args cfg = enum_setting args encode_keep_buffer set_keep_buffer None cfg"

definition json_cfg_encode_invalid_numbers :: "lua_value list \<Rightarrow> json_config \<Rightarrow> (lua_value list) cfg_result \<times> json_config" where
  "json_cfg_encode_invalid_numbers args cfg =
     enum_setting args encode_invalid_numbers (\<lambda>v c. Some (c\<lparr>encode_invalid_numbers := v\<rparr>)) (Some [str ''off'', str ''on'', str ''null'']) cfg"

definition json_cfg_decode_invalid_numbers :: "lua_value list \<Rightarrow> json_config \<Rightarrow> (lua_value list) cfg_result \<times> json_config" where
  "json_cfg_decode_invalid_numbers args cfg =
     enum_setting args decode_invalid_numbers (\<lambda>v c. Some (c\<lparr>decode_invalid_numbers := v\<rparr>)) None cfg"

definition json_destroy_config :: "json_config \<Rightarrow> json_config option" where
  "json_destroy_config cfg = map_option (\<lambda>b. cfg\<lparr>encode_buf := b\<rparr>) (strbuf_free (encode_buf cfg))"

definition json_create_config :: "json_config option" where
  "json_create_config =
     map_option (\<lambda>b. \<lparr>encode_buf = b, encode_sparse_convert = 0, encode_sparse_ratio = 2, encode_sparse_safe = 10,
                       encode_max_depth = 1000, encode_invalid_numbers = 0, encode_number_precision = 14,
                       encode_keep_buffer = 1, decode_invalid_numbers = 1, decode_max_depth = 1000\<rparr>)
       (strbuf_init 0)"

subsection \<open>The lookup tables\<close>

datatype token_type =
  T_OBJ_BEGIN | T_OBJ_END | T_ARR_BEGIN | T_ARR_END | T_STRING | T_NUMBER | T_BOOLEAN | T_NULL | T_COLON | T_COMMA | T_END
| T_WHITESPACE | T_ERROR | T_UNKNOWN

definition ch2token :: "byte \<Rightarrow> token_type" where
  "ch2token c =
     (if c = 0x7B then T_OBJ_BEGIN else if c = 0x7D then T_OBJ_END else if c = 0x5B then T_ARR_BEGIN
      else if c = 0x5D then T_ARR_END else if c = 0x2C then T_COMMA else if c = 0x3A then T_COLON
      else if c = 0 then T_END else if c = 32 \<or> c = 9 \<or> c = 10 \<or> c = 13 then T_WHITESPACE
      else if c \<in> {chr (CHR ''f''), chr (CHR ''i''), chr (CHR ''I''), chr (CHR ''n''), chr (CHR ''N''), chr (CHR ''t''), 0x22, 0x2B, 0x2D}
              \<or> 48 \<le> c \<and> c \<le> 57 then T_UNKNOWN
      else T_ERROR)"

definition escape2char :: "byte \<Rightarrow> byte" where
  "escape2char c =
     (if c = 0x22 then 0x22 else if c = 0x5C then 0x5C else if c = 0x2F then 0x2F
      else if c = chr (CHR ''b'') then 8 else if c = chr (CHR ''t'') then 9 else if c = chr (CHR ''n'') then 10
      else if c = chr (CHR ''f'') then 12 else if c = chr (CHR ''r'') then 13 else if c = chr (CHR ''u'') then chr (CHR ''u'')
      else 0)"

text \<open>The table \<^verbatim>\<open>char2escape\<close>: how a byte of a string is escaped; \<open>None\<close> for a null pointer.\<close>

definition char2escape :: "byte \<Rightarrow> bytes option" where
  "char2escape c =
     (if c = 8 then Some [0x5C, chr (CHR ''b'')] else if c = 9 then Some [0x5C, chr (CHR ''t'')]
      else if c = 10 then Some [0x5C, chr (CHR ''n'')] else if c = 12 then Some [0x5C, chr (CHR ''f'')]
      else if c = 13 then Some [0x5C, chr (CHR ''r'')]
      else if c < 32 \<or> c = 0x7F then
        Some [0x5C, chr (CHR ''u''), 48, 48, hex_digit (unat c div 16), hex_digit (unat c mod 16)]
      else if c = 0x22 then Some [0x5C, 0x22] else if c = 0x2F then Some [0x5C, 0x2F] else if c = 0x5C then Some [0x5C, 0x5C]
      else None)"

definition token_type_name :: "token_type \<Rightarrow> bytes" where
  "token_type_name t =
     (case t of T_OBJ_BEGIN \<Rightarrow> str ''T_OBJ_BEGIN'' | T_OBJ_END \<Rightarrow> str ''T_OBJ_END'' | T_ARR_BEGIN \<Rightarrow> str ''T_ARR_BEGIN''
      | T_ARR_END \<Rightarrow> str ''T_ARR_END'' | T_STRING \<Rightarrow> str ''T_STRING'' | T_NUMBER \<Rightarrow> str ''T_NUMBER'' | T_BOOLEAN \<Rightarrow> str ''T_BOOLEAN''
      | T_NULL \<Rightarrow> str ''T_NULL'' | T_COLON \<Rightarrow> str ''T_COLON'' | T_COMMA \<Rightarrow> str ''T_COMMA'' | T_END \<Rightarrow> str ''T_END''
      | T_WHITESPACE \<Rightarrow> str ''T_WHITESPACE'' | T_ERROR \<Rightarrow> str ''T_ERROR'' | T_UNKNOWN \<Rightarrow> str ''T_UNKNOWN'')"

subsection \<open>The invariant of the configuration\<close>

definition cfg_inv :: "json_config \<Rightarrow> bool" where
  "cfg_inv cfg \<longleftrightarrow>
     encode_sparse_convert cfg \<in> {0, 1} \<and> 0 \<le> encode_sparse_ratio cfg \<and> 0 \<le> encode_sparse_safe cfg \<and>
     1 \<le> encode_max_depth cfg \<and> encode_invalid_numbers cfg \<in> {0, 1, 2} \<and>
     1 \<le> encode_number_precision cfg \<and> encode_number_precision cfg \<le> 14 \<and>
     encode_keep_buffer cfg \<in> {0, 1} \<and> decode_invalid_numbers cfg \<in> {0, 1} \<and> 1 \<le> decode_max_depth cfg \<and>
     \<not> dynamic (encode_buf cfg) \<and> (if encode_keep_buffer cfg = 1 then sb_inv (encode_buf cfg) else \<not> allocated (encode_buf cfg))"

lemma integer_option_range:
  "json_integer_option toint arg i setting mn mx = COk v \<Longrightarrow> v = setting \<or> mn \<le> v \<and> v \<le> mx"
  by (auto simp: json_integer_option_def Let_def split: if_splits option.splits)

lemma option_index_range: "option_index s xs i = Some j \<Longrightarrow> i \<le> j \<and> j < i + int (length xs)"
  by (induction s xs i rule: option_index.induct) (auto split: if_splits)

lemma enum_option_range:
  assumes "0 \<le> setting" "setting < int (length (case options of None \<Rightarrow> bool_options | Some os \<Rightarrow> os))"
    "2 \<le> length (case options of None \<Rightarrow> bool_options | Some os \<Rightarrow> os)"
  shows "case json_enum_option arg i setting options 1 of
      COk (v, r) \<Rightarrow> 0 \<le> v \<and> v < int (length (case options of None \<Rightarrow> bool_options | Some os \<Rightarrow> os))
    | CErr e \<Rightarrow> True | CBad \<Rightarrow> False"
  using assms
  by (auto simp: json_enum_option_def split: option.splits lua_value.splits cfg_result.splits if_splits dest!: option_index_range)

text \<open>The bounds of a setting and that the configuration functions keep them, whatever their arguments are.\<close>

datatype cfg_op =
    SparseArray "lua_value list" | EncodeDepth "lua_value list" | DecodeDepth "lua_value list" | Precision "lua_value list"
  | KeepBuffer "lua_value list" | EncodeInvalid "lua_value list" | DecodeInvalid "lua_value list"

fun cfg_call :: "(lua_value \<Rightarrow> int option) \<Rightarrow> json_config \<Rightarrow> cfg_op \<Rightarrow> (lua_value list) cfg_result \<times> json_config" where
  "cfg_call toint cfg (SparseArray as) = json_cfg_encode_sparse_array toint as cfg"
| "cfg_call toint cfg (EncodeDepth as) = json_cfg_encode_max_depth toint as cfg"
| "cfg_call toint cfg (DecodeDepth as) = json_cfg_decode_max_depth toint as cfg"
| "cfg_call toint cfg (Precision as) = json_cfg_encode_number_precision toint as cfg"
| "cfg_call toint cfg (KeepBuffer as) = json_cfg_encode_keep_buffer as cfg"
| "cfg_call toint cfg (EncodeInvalid as) = json_cfg_encode_invalid_numbers as cfg"
| "cfg_call toint cfg (DecodeInvalid as) = json_cfg_decode_invalid_numbers as cfg"

lemma int_setting_inv:
  assumes "cfg_inv cfg" "\<And>v. v = getv cfg \<or> mn \<le> v \<and> v \<le> mx \<Longrightarrow> cfg_inv (setv v cfg)"
  shows "fst (int_setting toint args getv setv mn mx cfg) \<noteq> CBad \<and> cfg_inv (snd (int_setting toint args getv setv mn mx cfg))"
  using assms
  by (auto simp: int_setting_def json_arg_init_def json_integer_option_def Let_def split: cfg_result.splits if_splits option.splits)

lemma enum_setting_inv:
  assumes "cfg_inv cfg" "0 \<le> getv cfg" "getv cfg < int (length (case options of None \<Rightarrow> bool_options | Some os \<Rightarrow> os))"
    "2 \<le> length (case options of None \<Rightarrow> bool_options | Some os \<Rightarrow> os)"
    "\<And>v. 0 \<le> v \<Longrightarrow> v < int (length (case options of None \<Rightarrow> bool_options | Some os \<Rightarrow> os)) \<Longrightarrow> \<exists>c. setv v cfg = Some c \<and> cfg_inv c"
  shows "fst (enum_setting args getv setv options cfg) \<noteq> CBad \<and> cfg_inv (snd (enum_setting args getv setv options cfg))"
proof -
  have "case json_enum_option a 1 (getv cfg) options 1 of
      COk (v, r) \<Rightarrow> \<exists>c. setv v cfg = Some c \<and> cfg_inv c | CErr e \<Rightarrow> True | CBad \<Rightarrow> False" for a
    using enum_option_range [OF assms(2-4), of a 1] assms(5) by (auto split: cfg_result.splits)
  note enum = this
  show ?thesis
  proof (cases "json_arg_init args 1")
    case (COk as)
    show ?thesis
    proof (cases "json_enum_option (as ! 0) 1 (getv cfg) options 1")
      case e: (COk p)
      obtain v r where p: "p = (v, r)" by fastforce
      then obtain c where "setv v cfg = Some c" "cfg_inv c" using enum [of "as ! 0"] e by auto
      then show ?thesis using COk e p by (simp add: enum_setting_def)
    qed (use COk assms(1) enum [of "as ! 0"] in \<open>simp_all add: enum_setting_def\<close>)
  qed (use assms(1) in \<open>simp_all add: enum_setting_def json_arg_init_def split: if_splits\<close>)
qed

lemma set_keep_buffer_inv:
  assumes "cfg_inv cfg" "v = 0 \<or> v = 1"
  shows "\<exists>c. set_keep_buffer v cfg = Some c \<and> cfg_inv c"
proof (cases "encode_keep_buffer cfg = v")
  case True
  then show ?thesis using assms(1) by (simp add: set_keep_buffer_def Let_def cfg_inv_def)
next
  case False
  show ?thesis
  proof (cases "v = 0")
    case True
    let ?b = "if allocated (encode_buf cfg) then encode_buf cfg\<lparr>sbuf := [], allocated := False\<rparr> else encode_buf cfg"
    have "set_keep_buffer v cfg = Some (cfg\<lparr>encode_keep_buffer := v, encode_buf := ?b\<rparr>)"
      using False True assms(1) by (simp add: set_keep_buffer_def Let_def strbuf_free_def cfg_inv_def)
    then show ?thesis using True assms(1) by (simp add: cfg_inv_def)
  next
    case v: False
    obtain b where b: "strbuf_init 0 = Some b" "sb_inv b" "\<not> dynamic b" using strbuf_init_ok [of 0] by auto
    have "set_keep_buffer v cfg = Some (cfg\<lparr>encode_keep_buffer := v, encode_buf := b\<rparr>)"
      using False v b(1) by (simp add: set_keep_buffer_def Let_def)
    then show ?thesis using v b assms by (simp add: cfg_inv_def)
  qed
qed

lemma cfg_inv_sparse:
  assumes "cfg_inv cfg"
  shows "c \<in> {0, 1} \<Longrightarrow> cfg_inv (cfg\<lparr>encode_sparse_convert := c\<rparr>)"
    and "0 \<le> r \<Longrightarrow> cfg_inv (cfg\<lparr>encode_sparse_ratio := r\<rparr>)" and "0 \<le> r \<Longrightarrow> cfg_inv (cfg\<lparr>encode_sparse_safe := r\<rparr>)"
  using assms by (simp_all add: cfg_inv_def)

lemma sparse_array_inv:
  assumes i: "cfg_inv cfg"
  shows "fst (json_cfg_encode_sparse_array toint args cfg) \<noteq> CBad \<and> cfg_inv (snd (json_cfg_encode_sparse_array toint args cfg))"
proof -
  let ?k = "encode_sparse_convert cfg"
  have pos: "0 \<le> encode_sparse_ratio cfg" "0 \<le> encode_sparse_safe cfg" "?k \<in> {0, 1}" using i by (simp_all add: cfg_inv_def)
  have nb: "json_integer_option toint a n st 0 INT_MAX \<noteq> CBad" for a n st
    by (simp add: json_integer_option_def Let_def split: option.splits)
  show ?thesis
  proof (cases "json_arg_init args 3")
    case (COk as)
    show ?thesis
    proof (cases "json_enum_option (as ! 0) 1 ?k None 1")
      case (COk p)
      obtain c r where p: "p = (c, r)" by fastforce
      have c: "c \<in> {0, 1}" using enum_option_range [of ?k None "as ! 0" 1] pos COk p by (auto simp: bool_options_def)
      let ?c1 = "cfg\<lparr>encode_sparse_convert := c\<rparr>"
      have i1: "cfg_inv ?c1" using cfg_inv_sparse(1) [OF i c] .
      note init = \<open>json_arg_init args 3 = COk as\<close> and enum = COk [unfolded p]
      show ?thesis
      proof (cases "json_integer_option toint (as ! 1) 2 (encode_sparse_ratio cfg) 0 INT_MAX")
        case (COk ratio)
        have i2: "cfg_inv (?c1\<lparr>encode_sparse_ratio := ratio\<rparr>)"
          using integer_option_range [OF COk] pos by (intro cfg_inv_sparse(2) [OF i1]) auto
        show ?thesis
        proof (cases "json_integer_option toint (as ! 2) 3 (encode_sparse_safe cfg) 0 INT_MAX")
          case (COk safe)
          then have "cfg_inv (?c1\<lparr>encode_sparse_ratio := ratio, encode_sparse_safe := safe\<rparr>)"
            using integer_option_range [OF COk] pos by (intro cfg_inv_sparse(3) [OF i2]) auto
          then show ?thesis using init enum COk \<open>json_integer_option toint (as ! 1) 2 (encode_sparse_ratio cfg) 0 INT_MAX = COk ratio\<close>
            by (simp add: json_cfg_encode_sparse_array_def Let_def)
        qed (use init enum COk i2 nb in \<open>simp_all add: json_cfg_encode_sparse_array_def Let_def\<close>)
      qed (use init enum i1 nb in \<open>simp_all add: json_cfg_encode_sparse_array_def Let_def\<close>)
    next
      case CBad
      then show ?thesis using enum_option_range [of ?k None "as ! 0" 1] pos by (auto simp: bool_options_def)
    qed (use COk i in \<open>simp_all add: json_cfg_encode_sparse_array_def\<close>)
  qed (use i in \<open>simp_all add: json_cfg_encode_sparse_array_def json_arg_init_def split: if_splits\<close>)
qed

lemma cfg_call_inv: "cfg_inv cfg \<Longrightarrow> fst (cfg_call toint cfg c) \<noteq> CBad \<and> cfg_inv (snd (cfg_call toint cfg c))"
proof (cases c)
  case (KeepBuffer as)
  assume i: "cfg_inv cfg"
  then have "encode_keep_buffer cfg \<in> {0, 1}" by (simp add: cfg_inv_def)
  then show ?thesis unfolding KeepBuffer cfg_call.simps json_cfg_encode_keep_buffer_def
    by (intro enum_setting_inv [OF i] set_keep_buffer_inv [OF i]) (auto simp: bool_options_def)
next
  case (EncodeInvalid as)
  assume i: "cfg_inv cfg"
  then show ?thesis unfolding EncodeInvalid cfg_call.simps json_cfg_encode_invalid_numbers_def
    by (intro enum_setting_inv) (auto simp: cfg_inv_def)
next
  case (DecodeInvalid as)
  assume i: "cfg_inv cfg"
  then show ?thesis unfolding DecodeInvalid cfg_call.simps json_cfg_decode_invalid_numbers_def
    by (intro enum_setting_inv) (auto simp: cfg_inv_def bool_options_def)
next
  case (EncodeDepth as)
  assume i: "cfg_inv cfg"
  then show ?thesis unfolding EncodeDepth cfg_call.simps json_cfg_encode_max_depth_def
    by (intro int_setting_inv [OF i]) (auto simp: cfg_inv_def)
next
  case (DecodeDepth as)
  assume i: "cfg_inv cfg"
  then show ?thesis unfolding DecodeDepth cfg_call.simps json_cfg_decode_max_depth_def
    by (intro int_setting_inv [OF i]) (auto simp: cfg_inv_def)
next
  case (Precision as)
  assume i: "cfg_inv cfg"
  then show ?thesis unfolding Precision cfg_call.simps json_cfg_encode_number_precision_def
    by (intro int_setting_inv [OF i]) (auto simp: cfg_inv_def)
qed (simp add: sparse_array_inv)

lemma json_create_config_inv: "\<exists>cfg. json_create_config = Some cfg \<and> cfg_inv cfg"
  using strbuf_init_ok [of 0] by (auto simp: json_create_config_def cfg_inv_def)

text \<open>
  C29: from a new configuration no sequence of configuration calls, with whatever arguments, leaves the ranges the encoder
  and the decoder rely on: depths are at least 1, the precision lies between 1 and 14 (which \<^verbatim>\<open>set_number_format\<close> asserts),
  the enumerated settings have a name, and the kept buffer is allocated exactly when it is switched on.
\<close>

theorem cjson_config_ranges:
  "\<exists>cfg. json_create_config = Some cfg \<and>
     (let cfg' = foldl (\<lambda>c call. snd (cfg_call toint c call)) cfg calls
      in cfg_inv cfg' \<and> fst (cfg_call toint cfg' call) \<noteq> CBad)"
proof -
  obtain cfg where cfg: "json_create_config = Some cfg" "cfg_inv cfg" using json_create_config_inv by blast
  have "cfg_inv (foldl (\<lambda>c call. snd (cfg_call toint c call)) cfg calls)"
    using cfg(2) cfg_call_inv by (induction calls arbitrary: cfg) auto
  then show ?thesis unfolding Let_def using cfg(1) cfg_call_inv by blast
qed

end
