(* ===== verification/Cjson_Encode.thy ===== *)
theory Cjson_Encode
  imports Cjson_Config
begin

text \<open>
  The encoder of lua-cjson: fpconv.c and the section ENCODING of lua_cjson.c. Every function appends to the buffer; an
  error carries its message and the buffer as it is then. \<^verbatim>\<open>lua_checkstack\<close> succeeds.
\<close>

record num_env =
  lua_tonumber :: "u64 \<Rightarrow> double"
  snprintf :: "bytes \<Rightarrow> double \<Rightarrow> bytes"
  strtod :: "bytes \<Rightarrow> double \<times> nat"
  locale_decimal_point :: byte

text \<open>A C library that prints and reads the numbers from 0 to 9, used to show that what is assumed of one can hold.\<close>

definition digit_env :: num_env where
  "digit_env = \<lparr>
     lua_tonumber = (\<lambda>i. double_of_nat (unat i)),
     snprintf = (\<lambda>fmt d. case d_int d of None \<Rightarrow> [48] | Some n \<Rightarrow> [48 + word_of_int n]),
     strtod = (\<lambda>t. case t of [] \<Rightarrow> (0, 0)
                     | c # _ \<Rightarrow> if 48 \<le> c \<and> c \<le> 57 then (double_of_nat (unat (c - 48)), 1) else (0, 0)),
     locale_decimal_point = 46\<rparr>"

datatype 's enc = EOk 's | EErr bytes 's | EBad

primrec enc_bind :: "'s enc \<Rightarrow> ('s \<Rightarrow> 's enc) \<Rightarrow> 's enc" where
  "enc_bind (EOk s) f = f s"
| "enc_bind (EErr e s) f = EErr e s"
| "enc_bind EBad f = EBad"

definition lift :: "'s option \<Rightarrow> 's enc" where
  "lift x = (case x of None \<Rightarrow> EBad | Some s \<Rightarrow> EOk s)"

lemma lift_simps [simp]: "lift None = EBad" "lift (Some s) = EOk s"
  by (simp_all add: lift_def)

subsection \<open>Number conversion\<close>

definition FPCONV_G_FMT_BUFSIZE :: nat where "FPCONV_G_FMT_BUFSIZE = 32"

text \<open>The decimal point that \<^verbatim>\<open>%g\<close> of one half shows; the process aborts when the text has another form.\<close>

definition fpconv_update_locale :: "(bytes \<Rightarrow> double \<Rightarrow> bytes) \<Rightarrow> byte option" where
  "fpconv_update_locale print =
     (case take 7 (print (str ''%g'') 0x3FE0000000000000) of
        [a, dp, b] \<Rightarrow> if a = 48 \<and> b = 53 then Some dp else None
      | _ \<Rightarrow> None)"

definition set_number_format :: "int \<Rightarrow> bytes option" where
  "set_number_format precision =
     (if 1 \<le> precision \<and> precision \<le> 14
      then let d1 = precision div 10; d2 = precision mod 10
           in Some (str ''%.'' @ (if d1 \<noteq> 0 then [48 + word_of_int d1] else []) @ [48 + word_of_int d2] @ str ''g'')
      else None)"

text \<open>What is written to the target, without the final zero, and the length that is returned.\<close>

definition fpconv_g_fmt :: "num_env \<Rightarrow> double \<Rightarrow> int \<Rightarrow> (bytes \<times> nat) option" where
  "fpconv_g_fmt env num precision =
     map_option (\<lambda>fmt. let txt = snprintf env fmt num; buf = take (FPCONV_G_FMT_BUFSIZE - 1) txt; dp = locale_decimal_point env
                       in if dp = 46 then (buf, length txt)
                          else (map (\<lambda>b. if b = dp then 46 else b) buf, length txt))
       (set_number_format precision)"

subsection \<open>Errors\<close>

text \<open>\<^verbatim>\<open>json_encode_exception\<close>: a buffer that is not kept is freed first.\<close>

definition drop_buffer :: "json_config \<Rightarrow> strbuf \<Rightarrow> strbuf" where
  "drop_buffer cfg s = (if encode_keep_buffer cfg = 0 then s\<lparr>sbuf := [], allocated := False\<rparr> else s)"

definition json_encode_exception :: "json_config \<Rightarrow> strbuf \<Rightarrow> lua_value \<Rightarrow> string \<Rightarrow> strbuf enc" where
  "json_encode_exception cfg s v reason =
     EErr (str ''Cannot serialise '' @ lua_typename v @ str '': '' @ str reason) (drop_buffer cfg s)"

subsection \<open>Strings and numbers\<close>

fun append_escaped :: "strbuf \<Rightarrow> bytes \<Rightarrow> strbuf option" where
  "append_escaped s [] = Some s"
| "append_escaped s (c # cs) =
     do { s1 \<leftarrow> (case char2escape c of Some e \<Rightarrow> strbuf_append_string s e | None \<Rightarrow> strbuf_append_char_unsafe s c);
          append_escaped s1 cs }"

definition json_append_string :: "strbuf \<Rightarrow> bytes \<Rightarrow> strbuf option" where
  "json_append_string s cs =
     do { s1 \<leftarrow> strbuf_ensure_empty_length s (int (length cs * 6 + 2));
          s2 \<leftarrow> strbuf_append_char_unsafe s1 0x22;
          s3 \<leftarrow> append_escaped s2 cs;
          strbuf_append_char_unsafe s3 0x22 }"

definition number_of :: "num_env \<Rightarrow> lua_value \<Rightarrow> double" where
  "number_of env v = (case v of LInteger i \<Rightarrow> lua_tonumber env i | LNumber d \<Rightarrow> d | _ \<Rightarrow> 0)"

definition append_g_fmt :: "num_env \<Rightarrow> json_config \<Rightarrow> strbuf \<Rightarrow> double \<Rightarrow> strbuf option" where
  "append_g_fmt env cfg s num =
     do { s1 \<leftarrow> strbuf_ensure_empty_length s (int FPCONV_G_FMT_BUFSIZE);
          (txt, len) \<leftarrow> fpconv_g_fmt env num (encode_number_precision cfg);
          m \<leftarrow> mem_copy (sbuf s1) (slength s1) (map Some (txt @ [0])) (length txt + 1);
          Some (s1\<lparr>sbuf := m, slength := slength s1 + len\<rparr>) }"

definition json_append_number :: "num_env \<Rightarrow> json_config \<Rightarrow> strbuf \<Rightarrow> lua_value \<Rightarrow> strbuf enc" where
  "json_append_number env cfg s v =
     (let num = number_of env v
      in if encode_invalid_numbers cfg = 0 \<and> (d_isinf num \<or> d_isnan num)
         then json_encode_exception cfg s v ''must not be NaN or Infinity''
         else if encode_invalid_numbers cfg = 1 \<and> d_isnan num then lift (strbuf_append_mem s (str ''NaN''))
         else if encode_invalid_numbers cfg = 1 \<and> d_isinf num then
           lift (strbuf_append_mem s (if dneg num then str ''-Infinity'' else str ''Infinity''))
         else if encode_invalid_numbers cfg \<notin> {0, 1} \<and> (d_isinf num \<or> d_isnan num) then lift (strbuf_append_mem s (str ''null''))
         else lift (append_g_fmt env cfg s num))"

subsection \<open>Tables\<close>

text \<open>
  What \<^verbatim>\<open>lua_array_length\<close> makes of a key: not an index, an index, or a value that does not fit the \<^verbatim>\<open>int\<close> \<^verbatim>\<open>max\<close> it is
  assigned to.
\<close>

datatype key_kind = NoIndex | Index int | HugeIndex

definition double_key :: "double \<Rightarrow> key_kind" where
  "double_key k =
     (if d_isnan k then NoIndex
      else if d_isinf k then (if dneg k then NoIndex else HugeIndex)
      else case d_int k of None \<Rightarrow> NoIndex
           | Some n \<Rightarrow> if n < 1 then NoIndex else if n \<ge> 2 ^ 31 then HugeIndex else Index n)"

definition array_key :: "num_env \<Rightarrow> lua_value \<Rightarrow> key_kind" where
  "array_key env k = (case k of LInteger i \<Rightarrow> double_key (lua_tonumber env i) | LNumber d \<Rightarrow> double_key d | _ \<Rightarrow> NoIndex)"

datatype length_result = NotArray | Counted int int | Overflow

fun array_scan :: "num_env \<Rightarrow> (lua_value \<times> lua_value) list \<Rightarrow> int \<Rightarrow> int \<Rightarrow> length_result" where
  "array_scan env [] mx items = Counted mx items"
| "array_scan env ((k, v) # ps) mx items =
     (case array_key env k of
        NoIndex \<Rightarrow> NotArray
      | HugeIndex \<Rightarrow> Overflow
      | Index n \<Rightarrow> array_scan env ps (if n > mx then n else mx) (items + 1))"

text \<open>
  \<^verbatim>\<open>lua_array_length\<close>: the length, or -1 for an object; the exception for a sparse array. The product with the ratio is
  computed in 32 bits.
\<close>

definition lua_array_length :: "num_env \<Rightarrow> json_config \<Rightarrow> strbuf \<Rightarrow> (lua_value \<times> lua_value) list \<Rightarrow> (int \<Rightarrow> strbuf enc) \<Rightarrow> strbuf enc" where
  "lua_array_length env cfg s ps k =
     (case array_scan env ps 0 0 of
        Overflow \<Rightarrow> EBad
      | NotArray \<Rightarrow> k (-1)
      | Counted mx items \<Rightarrow>
          if encode_sparse_ratio cfg > 0 \<and> items * encode_sparse_ratio cfg \<ge> 2 ^ 31 then EBad
          else if encode_sparse_ratio cfg > 0 \<and> mx > items * encode_sparse_ratio cfg \<and> mx > encode_sparse_safe cfg then
            (if encode_sparse_convert cfg = 0 then json_encode_exception cfg s (LTable ps) ''excessively sparse array'' else k (-1))
          else k mx)"

definition json_check_encode_depth :: "json_config \<Rightarrow> int \<Rightarrow> strbuf \<Rightarrow> strbuf enc" where
  "json_check_encode_depth cfg depth s =
     (if depth \<le> encode_max_depth cfg then EOk s
      else EErr (str ''Cannot serialise, excessive nesting ('' @ fmt_d depth @ str '')'') (drop_buffer cfg s))"

text \<open>The key of an object member with the colon.\<close>

definition append_key :: "num_env \<Rightarrow> json_config \<Rightarrow> strbuf \<Rightarrow> lua_value \<Rightarrow> strbuf enc" where
  "append_key env cfg s k =
     (case k of
        LInteger _ \<Rightarrow> enc_bind (lift (strbuf_append_char s 0x22)) (\<lambda>s.
                        enc_bind (json_append_number env cfg s k) (\<lambda>s. lift (strbuf_append_mem s [0x22, 0x3A])))
      | LNumber _ \<Rightarrow> enc_bind (lift (strbuf_append_char s 0x22)) (\<lambda>s.
                        enc_bind (json_append_number env cfg s k) (\<lambda>s. lift (strbuf_append_mem s [0x22, 0x3A])))
      | LString cs \<Rightarrow> enc_bind (lift (json_append_string s cs)) (\<lambda>s. lift (strbuf_append_char s 0x3A))
      | _ \<Rightarrow> json_encode_exception cfg s k ''table key must be a number or string'')"

definition append_comma :: "bool \<Rightarrow> strbuf \<Rightarrow> strbuf enc" where
  "append_comma comma s = (if comma then lift (strbuf_append_char s 0x2C) else EOk s)"

lemma rawgeti_size: "size (rawgeti ps i) \<le> size_list (size_prod size size) ps"
  using rawgeti_cases [of ps i] by (auto dest!: size_pair_list)

text \<open>
  \<^verbatim>\<open>json_append_data\<close> with the loops of \<^verbatim>\<open>json_append_array\<close> (elements \<open>i\<close> to \<open>n\<close>) and \<^verbatim>\<open>json_append_object\<close> (the pairs that
  are left).
\<close>

function json_append_data :: "num_env \<Rightarrow> json_config \<Rightarrow> int \<Rightarrow> strbuf \<Rightarrow> lua_value \<Rightarrow> strbuf enc"
  and append_array :: "num_env \<Rightarrow> json_config \<Rightarrow> int \<Rightarrow> strbuf \<Rightarrow> (lua_value \<times> lua_value) list \<Rightarrow> int \<Rightarrow> int \<Rightarrow> bool \<Rightarrow> strbuf enc"
  and append_object :: "num_env \<Rightarrow> json_config \<Rightarrow> int \<Rightarrow> strbuf \<Rightarrow> (lua_value \<times> lua_value) list \<Rightarrow> bool \<Rightarrow> strbuf enc" where
  "json_append_data env cfg depth s v =
     (case v of
        LString cs \<Rightarrow> lift (json_append_string s cs)
      | LInteger _ \<Rightarrow> json_append_number env cfg s v
      | LNumber _ \<Rightarrow> json_append_number env cfg s v
      | LBool b \<Rightarrow> lift (strbuf_append_mem s (if b then str ''true'' else str ''false''))
      | LTable ps \<Rightarrow>
          enc_bind (json_check_encode_depth cfg (depth + 1) s) (\<lambda>s.
            lua_array_length env cfg s ps (\<lambda>len.
              if len > 0 then
                enc_bind (lift (strbuf_append_char s 0x5B)) (\<lambda>s.
                  enc_bind (append_array env cfg (depth + 1) s ps 1 len False) (\<lambda>s. lift (strbuf_append_char s 0x5D)))
              else
                enc_bind (lift (strbuf_append_char s 0x7B)) (\<lambda>s.
                  enc_bind (append_object env cfg (depth + 1) s ps False) (\<lambda>s. lift (strbuf_append_char s 0x7D)))))
      | LNil \<Rightarrow> lift (strbuf_append_mem s (str ''null''))
      | LNull \<Rightarrow> lift (strbuf_append_mem s (str ''null''))
      | LOther _ \<Rightarrow> json_encode_exception cfg s v ''type not supported'')"
| "append_array env cfg depth s ps i n comma =
     (if i > n then EOk s
      else
        enc_bind (append_comma comma s) (\<lambda>s.
          enc_bind (json_append_data env cfg depth s (rawgeti ps i)) (\<lambda>s. append_array env cfg depth s ps (i + 1) n True)))"
| "append_object env cfg depth s [] comma = EOk s"
| "append_object env cfg depth s ((k, v) # ps) comma =
     enc_bind (append_comma comma s) (\<lambda>s.
       enc_bind (append_key env cfg s k) (\<lambda>s.
         enc_bind (json_append_data env cfg depth s v) (\<lambda>s. append_object env cfg depth s ps True)))"
  by pat_completeness auto

termination
proof (relation "inv_image (less_than <*lex*> less_than)
    (\<lambda>x. case x of Inl (_, _, _, _, v) \<Rightarrow> (size v, 0)
       | Inr (Inl (_, _, _, _, ps, i, n, _)) \<Rightarrow> (size_list (size_prod size size) ps, Suc (nat (n + 1 - i)))
       | Inr (Inr (_, _, _, _, ps, _)) \<Rightarrow> (size_list (size_prod size size) ps, 1))", goal_cases)
  case (4 env cfg depth s ps i n comma)
  then show ?case using rawgeti_size [of ps i] by auto
qed auto

declare json_append_data.simps [simp del] append_array.simps [simp del]

end
