(* ===== verification/Cjson_Print.thy ===== *)
theory Cjson_Print
  imports Cjson_Encode
begin

text \<open>
  JSON documents and their text as a reference: \<open>print_json\<close> is defined by the grammar, without a buffer, and the encoder
  is shown to append exactly this text. \<open>to_lua\<close> is the Lua value that stands for a document.
\<close>

definition json_encode :: "num_env \<Rightarrow> json_config \<Rightarrow> lua_value \<Rightarrow> ((bytes + bytes) \<times> json_config) option" where
  "json_encode env cfg v =
     (case (if encode_keep_buffer cfg = 0 then strbuf_init 0 else Some (strbuf_reset (encode_buf cfg))) of None \<Rightarrow> None
      | Some s \<Rightarrow>
          (case json_append_data env cfg 0 s v of
             EBad \<Rightarrow> None
           | EErr e s' \<Rightarrow> Some (Inl e, if encode_keep_buffer cfg = 0 then cfg else cfg\<lparr>encode_buf := s'\<rparr>)
           | EOk s' \<Rightarrow> map_option (\<lambda>txt. (Inr txt, if encode_keep_buffer cfg = 0 then cfg else cfg\<lparr>encode_buf := s'\<rparr>)) (strbuf_string s')))"

subsection \<open>Documents\<close>

datatype json = JNull | JBool bool | JNum double | JStr bytes | JArr "json list" | JObj "(bytes \<times> json) list"

definition esc_char :: "byte \<Rightarrow> bytes" where
  "esc_char c = (case char2escape c of Some e \<Rightarrow> e | None \<Rightarrow> [c])"

definition esc_text :: "bytes \<Rightarrow> bytes" where
  "esc_text cs = concat (map esc_char cs)"

definition str_text :: "bytes \<Rightarrow> bytes" where
  "str_text cs = 0x22 # esc_text cs @ [0x22]"

definition num_text :: "num_env \<Rightarrow> json_config \<Rightarrow> double \<Rightarrow> bytes" where
  "num_text env cfg d = (case fpconv_g_fmt env d (encode_number_precision cfg) of None \<Rightarrow> [] | Some (t, n) \<Rightarrow> t)"

fun join :: "bytes list \<Rightarrow> bytes" where
  "join [] = []"
| "join [x] = x"
| "join (x # y # xs) = x @ 0x2C # join (y # xs)"

fun print_json :: "num_env \<Rightarrow> json_config \<Rightarrow> json \<Rightarrow> bytes" where
  "print_json env cfg JNull = str ''null''"
| "print_json env cfg (JBool b) = (if b then str ''true'' else str ''false'')"
| "print_json env cfg (JNum d) = num_text env cfg d"
| "print_json env cfg (JStr cs) = str_text cs"
| "print_json env cfg (JArr js) = 0x5B # join (map (print_json env cfg) js) @ [0x5D]"
| "print_json env cfg (JObj ms) = 0x7B # join (map (\<lambda>(k, j). str_text k @ 0x3A # print_json env cfg j) ms) @ [0x7D]"

fun to_lua :: "json \<Rightarrow> lua_value" where
  "to_lua JNull = LNull"
| "to_lua (JBool b) = LBool b"
| "to_lua (JNum d) = LNumber d"
| "to_lua (JStr cs) = LString cs"
| "to_lua (JArr js) = LTable (zip (map (\<lambda>i. lua_int (int i)) [1..<length js + 1]) (map to_lua js))"
| "to_lua (JObj ms) = LTable (map (\<lambda>(k, j). (LString k, to_lua j)) ms)"

text \<open>The nesting of tables, and the room the encoder asks for.\<close>

fun jdepth :: "json \<Rightarrow> nat" where
  "jdepth (JArr js) = Suc (Max (insert 0 (jdepth ` set js)))"
| "jdepth (JObj ms) = Suc (Max (insert 0 ((\<lambda>(k, j). jdepth j) ` set ms)))"
| "jdepth _ = 0"

fun jcost :: "json \<Rightarrow> nat" where
  "jcost (JNum d) = 32"
| "jcost (JStr cs) = 6 * length cs + 2"
| "jcost (JArr js) = 2 + sum_list (map (\<lambda>j. jcost j + 1) js)"
| "jcost (JObj ms) = 2 + sum_list (map (\<lambda>(k, j). 6 * length k + 4 + jcost j) ms)"
| "jcost _ = 5"

text \<open>
  Documents that can be written: numbers are finite and their text fits the buffer of \<^verbatim>\<open>fpconv_g_fmt\<close>, arrays are not
  empty (an empty table is written as an object) and an object has no key twice.
\<close>

fun wf_json :: "(double \<Rightarrow> bool) \<Rightarrow> json \<Rightarrow> bool" where
  "wf_json N (JNum d) = N d"
| "wf_json N (JArr js) = (js \<noteq> [] \<and> (\<forall>j \<in> set js. wf_json N j))"
| "wf_json N (JObj ms) = (distinct (map fst ms) \<and> (\<forall>m \<in> set ms. wf_json N (snd m)))"
| "wf_json N _ = True"

definition num_fits :: "num_env \<Rightarrow> json_config \<Rightarrow> double \<Rightarrow> bool" where
  "num_fits env cfg d \<longleftrightarrow> \<not> d_isinf d \<and> \<not> d_isnan d \<and>
     (case fpconv_g_fmt env d (encode_number_precision cfg) of None \<Rightarrow> False | Some (t, n) \<Rightarrow> length t = n \<and> n \<le> 31)"

text \<open>Converting a small integer to a double is exact.\<close>

definition exact_ints :: "num_env \<Rightarrow> bool" where
  "exact_ints env \<longleftrightarrow> (\<forall>n. 1 \<le> n \<and> n < 2 ^ 31 \<longrightarrow> double_key (lua_tonumber env (word_of_int n)) = Index n)"

subsection \<open>Appending\<close>

definition appends :: "strbuf \<Rightarrow> strbuf enc \<Rightarrow> bytes \<Rightarrow> bool" where
  "appends s r t \<longleftrightarrow> (\<exists>s'. r = EOk s' \<and> sb_inv s' \<and> sb_text s' = sb_text s @ t \<and> dynamic s' = dynamic s)"

lemma appends_bind:
  assumes "appends s m t1" "\<And>s'. sb_inv s' \<Longrightarrow> sb_text s' = sb_text s @ t1 \<Longrightarrow> appends s' (f s') t2"
  shows "appends s (enc_bind m f) (t1 @ t2)"
  using assms by (fastforce simp: appends_def)

lemma appends_char: "sb_inv s \<Longrightarrow> length (sb_text s) + 1 < SB_LIMIT \<Longrightarrow> appends s (lift (strbuf_append_char s c)) [c]"
  using append_char_ok [of s c] by (auto simp: appends_def)

lemma appends_mem: "sb_inv s \<Longrightarrow> length (sb_text s) + length t < SB_LIMIT \<Longrightarrow> appends s (lift (strbuf_append_mem s t)) t"
  using append_mem_ok [of s t] by (auto simp: appends_def)

lemma appends_self: "sb_inv s \<Longrightarrow> appends s (EOk s) []"
  by (simp add: appends_def)

lemma length_esc_char: "length (esc_char c) \<le> 6"
  by (simp add: esc_char_def char2escape_def split: option.splits)

lemma length_esc_text: "length (esc_text cs) \<le> 6 * length cs"
proof (induction cs)
  case (Cons c cs)
  then show ?case using length_esc_char [of c] by (simp add: esc_text_def)
qed (simp add: esc_text_def)

lemma append_escaped_ok:
  assumes "sb_inv s" "slength s + 6 * length cs + 1 < ssize s" "ssize s < SB_LIMIT \<or> slength s + 6 * length cs < SB_LIMIT"
  shows "\<exists>s'. append_escaped s cs = Some s' \<and> sb_inv s' \<and> sb_text s' = sb_text s @ esc_text cs \<and> slength s' + 1 < ssize s' \<and>
    dynamic s' = dynamic s"
  using assms
proof (induction cs arbitrary: s)
  case (Cons c cs)
  obtain s1 where s1: "(case char2escape c of Some e \<Rightarrow> strbuf_append_string s e | None \<Rightarrow> strbuf_append_char_unsafe s c) = Some s1"
    "sb_inv s1" "sb_text s1 = sb_text s @ esc_char c" "ssize s \<le> ssize s1" "dynamic s1 = dynamic s"
  proof (cases "char2escape c")
    case None
    then show ?thesis using that append_char_unsafe_ok [of s c] Cons.prems by (auto simp: esc_char_def)
  next
    case (Some e)
    then have "length e \<le> 6" using length_esc_char [of c] by (simp add: esc_char_def)
    then show ?thesis using that append_string_ok [of s e] Some Cons.prems length_sb_text [of s] by (auto simp: esc_char_def)
  qed
  have l: "slength s1 \<le> slength s + 6"
    using s1(2,3) length_sb_text [of s1] length_sb_text [of s] Cons.prems(1) length_esc_char [of c] by simp
  have "\<exists>s'. append_escaped s1 cs = Some s' \<and> sb_inv s' \<and> sb_text s' = sb_text s1 @ esc_text cs \<and> slength s' + 1 < ssize s' \<and>
    dynamic s' = dynamic s1"
  proof (rule Cons.IH [OF s1(2)])
    show "slength s1 + 6 * length cs + 1 < ssize s1" using l s1(4) Cons.prems(2) by simp
    show "ssize s1 < SB_LIMIT \<or> slength s1 + 6 * length cs < SB_LIMIT" using l Cons.prems by auto
  qed
  then show ?case using s1 by (auto simp: esc_text_def)
qed (simp add: esc_text_def)

lemma appends_string:
  assumes "sb_inv s" "length (sb_text s) + (6 * length cs + 2) < SB_LIMIT"
  shows "appends s (lift (json_append_string s cs)) (str_text cs)"
proof -
  obtain s1 where s1: "strbuf_ensure_empty_length s (int (length cs * 6 + 2)) = Some s1" "sb_inv s1" "sb_text s1 = sb_text s"
    "slength s1 + (6 * length cs + 2) < ssize s1" "dynamic s1 = dynamic s"
    using ensure_ok [OF assms] by (auto simp: mult.commute)
  obtain s2 where s2: "strbuf_append_char_unsafe s1 0x22 = Some s2" "sb_inv s2" "sb_text s2 = sb_text s @ [0x22]" "ssize s2 = ssize s1"
    "slength s2 = slength s1 + 1" "dynamic s2 = dynamic s" using append_char_unsafe_ok [of s1 "0x22"] s1 by auto
  have "slength s2 + 6 * length cs < SB_LIMIT" using s1(2,3) s2(5) assms(2) length_sb_text [of s1] by simp
  then obtain s3 where s3: "append_escaped s2 cs = Some s3" "sb_inv s3" "sb_text s3 = sb_text s @ [0x22] @ esc_text cs" "slength s3 + 1 < ssize s3"
    "dynamic s3 = dynamic s" using append_escaped_ok [of s2 cs] s1 s2 by auto
  then show ?thesis
    using append_char_unsafe_ok [OF s3(2,4), of "0x22"] s1 s2 s3 by (auto simp: appends_def json_append_string_def str_text_def)
qed

lemma appends_number:
  assumes "sb_inv s" "num_fits env cfg d" "length (sb_text s) + 32 < SB_LIMIT"
  shows "appends s (json_append_number env cfg s (LNumber d)) (num_text env cfg d)"
proof -
  obtain t where t: "fpconv_g_fmt env d (encode_number_precision cfg) = Some (t, length t)" "length t \<le> 31"
    using assms(2) by (auto simp: num_fits_def split: option.splits)
  obtain s1 where s1: "strbuf_ensure_empty_length s (int FPCONV_G_FMT_BUFSIZE) = Some s1" "sb_inv s1" "sb_text s1 = sb_text s"
    "slength s1 + 32 < ssize s1" "dynamic s1 = dynamic s"
    using ensure_ok [OF assms(1,3)] by (auto simp: FPCONV_G_FMT_BUFSIZE_def)
  let ?m = "take (slength s1) (sbuf s1) @ map Some (t @ [0]) @ drop (slength s1 + (length t + 1)) (sbuf s1)"
  let ?s = "s1\<lparr>sbuf := ?m, slength := slength s1 + length t\<rparr>"
  have "append_g_fmt env cfg s d = Some ?s"
    using s1 t by (simp add: append_g_fmt_def mem_copy_def sb_inv_def)
  moreover have "sb_inv ?s" "sb_text ?s = sb_text s1 @ t"
    using s1(2,4) t(2) by (auto simp: sb_inv_def sb_text_def comp_def)
  ultimately show ?thesis
    using assms(2) s1(3,5) t by (simp add: appends_def json_append_number_def Let_def number_of_def num_fits_def num_text_def)
qed

subsection \<open>The encoder writes the reference text\<close>

lemma length_join: "length (join xs) \<le> sum_list (map (\<lambda>x. length x + 1) xs)"
  by (induction xs rule: join.induct) auto

lemma print_cost: "wf_json (num_fits env cfg) j \<Longrightarrow> length (print_json env cfg j) \<le> jcost j"
proof (induction j)
  case (JNum d)
  then show ?case by (auto simp: num_fits_def num_text_def split: option.splits)
next
  case (JStr cs)
  then show ?case using length_esc_text [of cs] by (simp add: str_text_def)
next
  case (JArr js)
  then have "sum_list (map (\<lambda>j. length (print_json env cfg j) + 1) js) \<le> sum_list (map (\<lambda>j. jcost j + 1) js)"
    by (intro sum_list_mono) auto
  then show ?case using length_join [of "map (print_json env cfg) js"] by (simp add: comp_def)
next
  case (JObj ms)
  have "length (str_text (fst m) @ 0x3A # print_json env cfg (snd m)) + 1 \<le> 6 * length (fst m) + 4 + jcost (snd m)" if "m \<in> set ms" for m
    using JObj.IH [of m "snd m"] JObj.prems that length_esc_text [of "fst m"] by (cases m) (auto simp: str_text_def)
  then have "sum_list (map (\<lambda>(k, j). length (str_text k @ 0x3A # print_json env cfg j) + 1) ms) \<le> sum_list (map (\<lambda>(k, j). 6 * length k + 4 + jcost j) ms)"
    by (intro sum_list_mono) (auto simp: case_prod_beta)
  then show ?case using length_join [of "map (\<lambda>(k, j). str_text k @ 0x3A # print_json env cfg j) ms"] by (simp add: comp_def case_prod_unfold)
qed auto

lemma rawgeti_mem: "distinct (map fst ps) \<Longrightarrow> (lua_int i, v) \<in> set ps \<Longrightarrow> rawgeti ps i = v"
  by (induction ps) (force simp: rawgeti_def lua_int_def)+

lemma lua_int_inj: "a < 2 ^ 31 \<Longrightarrow> b < 2 ^ 31 \<Longrightarrow> lua_int (int a) = lua_int (int b) \<longleftrightarrow> a = b"
  by (simp add: lua_int_def word_of_nat_eq_iff take_bit_nat_eq_self)

lemma distinct_indices:
  assumes "n < 2 ^ 31"
  shows "distinct (map (\<lambda>i. lua_int (int i)) [1..<n + 1])"
proof -
  have "inj_on (\<lambda>i. lua_int (int i)) (set [1..<n + 1])" using assms lua_int_inj by (intro inj_onI) auto
  then show ?thesis by (simp only: distinct_map distinct_upt simp_thms)
qed

definition array_pairs :: "lua_value list \<Rightarrow> (lua_value \<times> lua_value) list" where
  "array_pairs vs = zip (map (\<lambda>i. lua_int (int i)) [1..<length vs + 1]) vs"

lemma rawgeti_array:
  assumes "k < length vs" "length vs < 2 ^ 31"
  shows "rawgeti (array_pairs vs) (int k + 1) = vs ! k"
proof (rule rawgeti_mem)
  show "distinct (map fst (array_pairs vs))" using distinct_indices [OF assms(2)] by (simp add: array_pairs_def del: upt_Suc)
  have "array_pairs vs ! k = (lua_int (int k + 1), vs ! k)" "k < length (array_pairs vs)" using assms(1) by (simp_all add: array_pairs_def add.commute del: upt_Suc)
  then show "(lua_int (int k + 1), vs ! k) \<in> set (array_pairs vs)" by (metis nth_mem)
qed

lemma array_scan_indices:
  assumes "exact_ints env"
  shows "a + length vs < 2 ^ 31 \<Longrightarrow>
    array_scan env (zip (map (\<lambda>i. lua_int (int i)) [a + 1..<a + 1 + length vs]) vs) (int a) n = Counted (int (a + length vs)) (n + int (length vs))"
proof (induction vs arbitrary: a n)
  case (Cons v vs)
  have "double_key (lua_tonumber env (word_of_int (int a + 1))) = Index (int a + 1)"
    using assms [unfolded exact_ints_def, rule_format, of "int a + 1"] Cons.prems by simp
  then have "array_key env (lua_int (int a + 1)) = Index (int a + 1)" by (simp add: array_key_def lua_int_def)
  moreover have "[a + 1..<a + 1 + length (v # vs)] = (a + 1) # [Suc a + 1..<Suc a + 1 + length vs]" by (simp add: upt_conv_Cons del: upt_Suc)
  ultimately show ?case using Cons.IH [of "Suc a" "n + 1"] Cons.prems by (simp add: add.commute)
qed simp

lemma array_pairs_length:
  assumes "exact_ints env" "length vs < 2 ^ 31" "int (length vs) * encode_sparse_ratio cfg < 2 ^ 31"
  shows "lua_array_length env cfg s (array_pairs vs) k = k (int (length vs))"
  using array_scan_indices [OF assms(1), of 0 vs 0] assms(2,3)
  by (auto simp: lua_array_length_def array_pairs_def mult_less_cancel_left2)

definition sep :: "bool \<Rightarrow> bytes list \<Rightarrow> bytes" where
  "sep comma xs = (if xs = [] then [] else (if comma then [0x2C] else []) @ join xs)"

lemma sep_Cons: "sep comma (x # xs) = (if comma then [0x2C] else []) @ x @ sep True xs"
  by (cases xs) (simp_all add: sep_def)

lemma appends_comma:
  "sb_inv s \<Longrightarrow> length (sb_text s) + 1 < SB_LIMIT \<Longrightarrow> appends s (append_comma comma s) (if comma then [0x2C] else [])"
  by (simp add: append_comma_def appends_char appends_self)

lemma append_array_ok:
  assumes "length js < 2 ^ 31" "ps = array_pairs (map to_lua js)"
    and "\<And>j s. j \<in> set js \<Longrightarrow> sb_inv s \<Longrightarrow> length (sb_text s) + jcost j < SB_LIMIT \<Longrightarrow>
      appends s (json_append_data env cfg depth s (to_lua j)) (print_json env cfg j)"
    and cost: "\<And>j. j \<in> set js \<Longrightarrow> length (print_json env cfg j) \<le> jcost j"
  shows "k \<le> length js \<Longrightarrow> sb_inv s \<Longrightarrow> length (sb_text s) + sum_list (map (\<lambda>j. jcost j + 1) (drop k js)) < SB_LIMIT \<Longrightarrow>
    appends s (append_array env cfg depth s ps (int k + 1) (int (length js)) comma) (sep comma (map (print_json env cfg) (drop k js)))"
proof (induction "length js - k" arbitrary: k s comma)
  case 0
  then show ?case by (simp add: appends_self sep_def append_array.simps)
next
  case (Suc m)
  then have k: "k < length js" by simp
  let ?j = "js ! k"
  have d: "drop k js = ?j # drop (Suc k) js" using k by (simp add: Cons_nth_drop_Suc)
  have j: "?j \<in> set js" using k by simp
  have g: "rawgeti ps (int k + 1) = to_lua ?j" using rawgeti_array [of k "map to_lua js"] k assms(1,2) by simp
  have room: "length (sb_text s) + (jcost ?j + 1) + sum_list (map (\<lambda>j. jcost j + 1) (drop (Suc k) js)) < SB_LIMIT"
    using Suc.prems(3) unfolding d by simp
  have "appends s (enc_bind (append_comma comma s) (\<lambda>s. enc_bind (json_append_data env cfg depth s (to_lua ?j))
      (\<lambda>s. append_array env cfg depth s ps (int (Suc k) + 1) (int (length js)) True)))
    ((if comma then [0x2C] else []) @ print_json env cfg ?j @ sep True (map (print_json env cfg) (drop (Suc k) js)))"
    using Suc.prems(2) room k cost [OF j] Suc.hyps(2)
    by (intro appends_bind appends_comma assms(3) [OF j] Suc.hyps(1)) (auto simp: assms(3))
  then show ?case using k g by (simp add: append_array.simps [of env cfg depth s] d sep_Cons add.commute)
qed

lemma append_object_ok:
  assumes "\<And>m s. m \<in> set ms \<Longrightarrow> sb_inv s \<Longrightarrow> length (sb_text s) + jcost (snd m) < SB_LIMIT \<Longrightarrow>
      appends s (json_append_data env cfg depth s (to_lua (snd m))) (print_json env cfg (snd m))"
    and "\<And>m. m \<in> set ms \<Longrightarrow> length (print_json env cfg (snd m)) \<le> jcost (snd m)"
    and "sb_inv s" "length (sb_text s) + sum_list (map (\<lambda>(k, j). 6 * length k + 4 + jcost j) ms) < SB_LIMIT"
  shows "appends s (append_object env cfg depth s (map (\<lambda>(k, j). (LString k, to_lua j)) ms) comma)
    (sep comma (map (\<lambda>(k, j). str_text k @ 0x3A # print_json env cfg j) ms))"
  using assms
proof (induction ms arbitrary: s comma)
  case Nil
  then show ?case by (simp add: appends_self sep_def)
next
  case (Cons m ms)
  obtain k j where m: "m = (k, j)" by fastforce
  have c: "length (str_text k) \<le> 6 * length k + 2" using length_esc_text [of k] by (simp add: str_text_def)
  have cj: "length (print_json env cfg j) \<le> jcost j" using Cons.prems(2) [of m] m by simp
  have data: "sb_inv s \<Longrightarrow> length (sb_text s) + jcost j < SB_LIMIT \<Longrightarrow> appends s (json_append_data env cfg depth s (to_lua j)) (print_json env cfg j)" for s
    using Cons.prems(1) [of m s] m by simp
  have key: "appends s (append_key env cfg s (LString k)) (str_text k @ [0x3A])"
    if "sb_inv s" "length (sb_text s) + (6 * length k + 3) < SB_LIMIT" for s
    unfolding append_key_def lua_value.case using that c by (intro appends_bind appends_string appends_char) auto
  have room: "length (sb_text s) + (6 * length k + 4 + jcost j) + sum_list (map (\<lambda>(k, j). 6 * length k + 4 + jcost j) ms) < SB_LIMIT"
    using Cons.prems(4) by (simp add: m)
  have rest: "appends s (append_object env cfg depth s (map (\<lambda>(k, j). (LString k, to_lua j)) ms) True)
      (sep True (map (\<lambda>(k, j). str_text k @ 0x3A # print_json env cfg j) ms))"
    if "sb_inv s" "length (sb_text s) + sum_list (map (\<lambda>(k, j). 6 * length k + 4 + jcost j) ms) < SB_LIMIT" for s
    using that Cons.prems(1,2) by (intro Cons.IH) auto
  have "appends s (enc_bind (append_comma comma s) (\<lambda>s. enc_bind (append_key env cfg s (LString k)) (\<lambda>s.
      enc_bind (json_append_data env cfg depth s (to_lua j)) (\<lambda>s. append_object env cfg depth s (map (\<lambda>(k, j). (LString k, to_lua j)) ms) True))))
    ((if comma then [0x2C] else []) @ (str_text k @ [0x3A]) @ print_json env cfg j @ sep True (map (\<lambda>(k, j). str_text k @ 0x3A # print_json env cfg j) ms))"
    using Cons.prems(3) room c cj by (intro appends_bind appends_comma key data rest) auto
  then show ?case by (simp add: m sep_Cons)
qed

lemma jdepth_arr: "j \<in> set js \<Longrightarrow> jdepth j < jdepth (JArr js)"
  by (simp add: less_Suc_eq_le)

lemma jdepth_obj: "m \<in> set ms \<Longrightarrow> jdepth (snd m) < jdepth (JObj ms)"
  by (cases m) (force simp: less_Suc_eq_le intro!: Max_ge)

lemma jcost_pos: "2 * length js \<le> sum_list (map (\<lambda>j. jcost j + 1) js)"
proof (induction js)
  case (Cons j js)
  have "1 \<le> jcost j" by (cases j) auto
  then show ?case using Cons by simp
qed simp

lemma to_lua_array: "to_lua (JArr js) = LTable (array_pairs (map to_lua js))"
  by (simp add: array_pairs_def)

lemma encode_array:
  assumes "exact_ints env" "encode_sparse_ratio cfg \<le> 4" "wf_json (num_fits env cfg) (JArr js)" "sb_inv s"
    "length (sb_text s) + jcost (JArr js) < SB_LIMIT" "depth + int (jdepth (JArr js)) \<le> encode_max_depth cfg"
    and "\<And>j s depth. j \<in> set js \<Longrightarrow> wf_json (num_fits env cfg) j \<Longrightarrow> sb_inv s \<Longrightarrow>
      length (sb_text s) + jcost j < SB_LIMIT \<Longrightarrow> depth + int (jdepth j) \<le> encode_max_depth cfg \<Longrightarrow>
      appends s (json_append_data env cfg depth s (to_lua j)) (print_json env cfg j)"
  shows "appends s (json_append_data env cfg depth s (to_lua (JArr js))) (print_json env cfg (JArr js))"
proof -
  let ?ps = "array_pairs (map to_lua js)" and ?n = "length js" and ?sum = "sum_list (map (\<lambda>j. jcost j + 1) js)"
  have d1: "depth + 1 \<le> encode_max_depth cfg" using assms(6) by simp
  have n: "?n < 2 ^ 29" "js \<noteq> []" using jcost_pos [of js] assms(3,5) by (simp_all add: SB_LIMIT_def)
  have "int ?n * encode_sparse_ratio cfg \<le> int ?n * 4" using assms(2) by (intro mult_left_mono) auto
  then have len: "lua_array_length env cfg s ?ps k = k (int ?n)" for k
    using array_pairs_length [OF assms(1), of "map to_lua js" cfg s k] n(1) by simp
  have el: "appends s (json_append_data env cfg (depth + 1) s (to_lua j)) (print_json env cfg j)"
    if "j \<in> set js" "sb_inv s" "length (sb_text s) + jcost j < SB_LIMIT" for j s
    using that assms(3,6) jdepth_arr [OF that(1)] by (intro assms(7)) auto
  have cost: "length (print_json env cfg j) \<le> jcost j" if "j \<in> set js" for j
    using that assms(3) by (intro print_cost) auto
  have join: "length (join (map (print_json env cfg) js)) \<le> ?sum"
    using print_cost [OF assms(3)] by simp
  have arr: "appends s (append_array env cfg (depth + 1) s ?ps 1 (int ?n) False) (join (map (print_json env cfg) js))"
    if "sb_inv s" "length (sb_text s) + ?sum < SB_LIMIT" for s
    using append_array_ok [of js ?ps env cfg "depth + 1" 0 s False] el cost n that by (simp add: sep_def)
  have "appends s (enc_bind (lift (strbuf_append_char s 0x5B)) (\<lambda>s.
      enc_bind (append_array env cfg (depth + 1) s ?ps 1 (int ?n) False) (\<lambda>s. lift (strbuf_append_char s 0x5D))))
    ([0x5B] @ join (map (print_json env cfg) js) @ [0x5D])"
    using assms(4,5) join by (intro appends_bind appends_char arr) auto
  then show ?thesis
    using d1 len n unfolding to_lua_array by (simp add: json_append_data.simps [of env cfg depth s] json_check_encode_depth_def)
qed

lemma encode_object:
  assumes "exact_ints env" "encode_sparse_ratio cfg \<le> 4" "wf_json (num_fits env cfg) (JObj ms)" "sb_inv s"
    "length (sb_text s) + jcost (JObj ms) < SB_LIMIT" "depth + int (jdepth (JObj ms)) \<le> encode_max_depth cfg"
    and "\<And>m s depth. m \<in> set ms \<Longrightarrow> wf_json (num_fits env cfg) (snd m) \<Longrightarrow> sb_inv s \<Longrightarrow>
      length (sb_text s) + jcost (snd m) < SB_LIMIT \<Longrightarrow> depth + int (jdepth (snd m)) \<le> encode_max_depth cfg \<Longrightarrow>
      appends s (json_append_data env cfg depth s (to_lua (snd m))) (print_json env cfg (snd m))"
  shows "appends s (json_append_data env cfg depth s (to_lua (JObj ms))) (print_json env cfg (JObj ms))"
proof -
  let ?ps = "map (\<lambda>(k, j). (LString k, to_lua j)) ms" and ?sum = "sum_list (map (\<lambda>(k, j). 6 * length k + 4 + jcost j) ms)"
  let ?txt = "join (map (\<lambda>(k, j). str_text k @ 0x3A # print_json env cfg j) ms)"
  have d1: "depth + 1 \<le> encode_max_depth cfg" using assms(6) by simp
  have "array_scan env ?ps 0 0 = (if ms = [] then Counted 0 0 else NotArray)" by (cases ms) (auto simp: array_key_def)
  then have len: "\<exists>m \<le> 0. lua_array_length env cfg s ?ps k = k m" for k
    by (cases "ms = []") (auto simp: lua_array_length_def intro: exI [of _ "-1"])
  have el: "appends s (json_append_data env cfg (depth + 1) s (to_lua (snd m))) (print_json env cfg (snd m))"
    if "m \<in> set ms" "sb_inv s" "length (sb_text s) + jcost (snd m) < SB_LIMIT" for m s
    using that assms(3,6) jdepth_obj [OF that(1)] by (intro assms(7)) auto
  have cost: "length (print_json env cfg (snd m)) \<le> jcost (snd m)" if "m \<in> set ms" for m
    using that assms(3) by (intro print_cost) auto
  have join: "length ?txt \<le> ?sum"
    using print_cost [OF assms(3)] by simp
  have obj: "appends s (append_object env cfg (depth + 1) s ?ps False) ?txt"
    if "sb_inv s" "length (sb_text s) + ?sum < SB_LIMIT" for s
    using append_object_ok [of ms env cfg "depth + 1" s False] el cost that by (cases "ms = []") (auto simp: sep_def)
  have "appends s (enc_bind (lift (strbuf_append_char s 0x7B)) (\<lambda>s.
      enc_bind (append_object env cfg (depth + 1) s ?ps False) (\<lambda>s. lift (strbuf_append_char s 0x7D)))) ([0x7B] @ ?txt @ [0x7D])"
    using assms(4,5) join by (intro appends_bind appends_char obj) auto
  then show ?thesis
    using d1 len [of "\<lambda>len. if len > 0 then enc_bind (lift (strbuf_append_char s 0x5B)) (\<lambda>s.
                  enc_bind (append_array env cfg (depth + 1) s ?ps 1 len False) (\<lambda>s. lift (strbuf_append_char s 0x5D)))
              else enc_bind (lift (strbuf_append_char s 0x7B)) (\<lambda>s.
                  enc_bind (append_object env cfg (depth + 1) s ?ps False) (\<lambda>s. lift (strbuf_append_char s 0x7D)))"]
    by (auto simp: json_append_data.simps [of env cfg depth s] json_check_encode_depth_def)
qed

lemma encode_ok:
  assumes "exact_ints env" "encode_sparse_ratio cfg \<le> 4"
  shows "wf_json (num_fits env cfg) j \<Longrightarrow> sb_inv s \<Longrightarrow> length (sb_text s) + jcost j < SB_LIMIT \<Longrightarrow>
    depth + int (jdepth j) \<le> encode_max_depth cfg \<Longrightarrow>
    appends s (json_append_data env cfg depth s (to_lua j)) (print_json env cfg j)"
proof (induction j arbitrary: s depth)
  case (JArr js)
  show ?case by (rule encode_array [OF assms JArr.prems JArr.IH])
next
  case (JObj ms)
  show ?case by (rule encode_object [OF assms JObj.prems]) (use JObj.IH in \<open>auto simp: snds.simps\<close>)
next
  case (JNum d)
  then show ?case by (simp add: json_append_data.simps [of env cfg depth s] appends_number)
next
  case (JStr cs)
  then show ?case by (simp add: json_append_data.simps [of env cfg depth s] appends_string)
qed (auto simp: json_append_data.simps appends_mem)

text \<open>The whole encoder, with either buffer.\<close>

lemma json_encode_ok:
  assumes "cfg_inv cfg" "exact_ints env" "encode_sparse_ratio cfg \<le> 4"
    "wf_json (num_fits env cfg) j" "jcost j < SB_LIMIT" "int (jdepth j) \<le> encode_max_depth cfg"
  shows "\<exists>cfg'. json_encode env cfg (to_lua j) = Some (Inr (print_json env cfg j), cfg') \<and> cfg_inv cfg' \<and>
    (\<exists>b. cfg' = cfg\<lparr>encode_buf := b\<rparr>)"
proof -
  let ?b = "if encode_keep_buffer cfg = 0 then strbuf_init 0 else Some (strbuf_reset (encode_buf cfg))"
  have k: "encode_keep_buffer cfg = 0 \<or> encode_keep_buffer cfg = 1 \<and> sb_inv (encode_buf cfg) \<and> \<not> dynamic (encode_buf cfg)"
    using assms(1) by (auto simp: cfg_inv_def split: if_splits)
  then obtain s where s: "?b = Some s" "sb_inv s" "sb_text s = []" "\<not> dynamic s"
    using strbuf_init_ok [of 0] strbuf_reset_ok [of "encode_buf cfg"] by (auto simp: strbuf_reset_def)
  obtain s' where s': "json_append_data env cfg 0 s (to_lua j) = EOk s'" "sb_inv s'" "sb_text s' = print_json env cfg j" "\<not> dynamic s'"
    using encode_ok [OF assms(2,3,4) s(2), of 0] s assms by (auto simp: appends_def)
  have "json_encode env cfg (to_lua j) = Some (Inr (print_json env cfg j), if encode_keep_buffer cfg = 0 then cfg else cfg\<lparr>encode_buf := s'\<rparr>)"
    using s s' strbuf_string_ok [OF s'(2)] by (simp add: json_encode_def)
  moreover have "cfg_inv (if encode_keep_buffer cfg = 0 then cfg else cfg\<lparr>encode_buf := s'\<rparr>)"
    using assms(1) k s' by (auto simp: cfg_inv_def)
  moreover have "\<exists>b. cfg = cfg\<lparr>encode_buf := b\<rparr>" by (rule exI [of _ "encode_buf cfg"]) simp
  ultimately show ?thesis by auto
qed

end
