(* ===== verification/Cjson_Decode.thy ===== *)
theory Cjson_Decode
  imports Cjson_Encode
begin

text \<open>
  The decoder of lua-cjson: the section DECODING of lua_cjson.c.

  The input is the Lua string with the zero Lua puts behind it. \<^verbatim>\<open>json->ptr\<close> is the rest of the input from there on, so
  reading a character means that the rest is not empty; a position is the length of the input minus that of the rest. The
  temporary buffer \<^verbatim>\<open>json->tmp\<close> is a string buffer with its memory, because the decoder writes to it without checks.
  \<^verbatim>\<open>lua_checkstack\<close> succeeds.
\<close>

subsection \<open>Escapes\<close>

definition hexdigit2int :: "byte \<Rightarrow> int" where
  "hexdigit2int h =
     (if 48 \<le> h \<and> h \<le> 57 then uint h - 48
      else let h' = h OR 0x20 in if 97 \<le> h' \<and> h' \<le> 102 then 10 + uint h' - 97 else -1)"

text \<open>\<open>n\<close> digits from a rest; -1 at the first character that is not one.\<close>

fun hex_loop :: "nat \<Rightarrow> bytes \<Rightarrow> int \<Rightarrow> int option" where
  "hex_loop 0 h v = Some v"
| "hex_loop (Suc n) [] v = None"
| "hex_loop (Suc n) (c # h) v = (let d = hexdigit2int c in if d < 0 then Some (-1) else hex_loop n h (push_bit 4 v + d))"

definition decode_hex4 :: "bytes \<Rightarrow> int option" where
  "decode_hex4 h = hex_loop 4 h 0"

definition cont_byte :: "int \<Rightarrow> byte" where
  "cont_byte x = word_of_int ((x AND 0x3F) OR 0x80)"

definition codepoint_to_utf8 :: "int \<Rightarrow> bytes" where
  "codepoint_to_utf8 cp =
     (if cp \<le> 0x7F then [word_of_int cp]
      else if cp \<le> 0x7FF then [word_of_int (drop_bit 6 cp OR 0xC0), cont_byte cp]
      else if cp \<le> 0xFFFF then [word_of_int (drop_bit 12 cp OR 0xE0), cont_byte (drop_bit 6 cp), cont_byte cp]
      else if cp \<le> 0x1FFFFF then
        [word_of_int (drop_bit 18 cp OR 0xF0), cont_byte (drop_bit 12 cp), cont_byte (drop_bit 6 cp), cont_byte cp]
      else [])"

definition append_utf8 :: "int \<Rightarrow> nat \<Rightarrow> bytes \<Rightarrow> strbuf \<Rightarrow> (bytes \<times> strbuf) option option" where
  "append_utf8 cp n rest tmp =
     (let u = codepoint_to_utf8 cp
      in if u = [] then Some None
         else map_option (\<lambda>t. Some (drop n rest, t)) (strbuf_append_mem_unsafe tmp u))"

text \<open>
  \<^verbatim>\<open>json_append_unicode_escape\<close> at a rest that starts with the backslash: \<open>Some None\<close> for the result -1, otherwise the rest
  behind the escape and the buffer.
\<close>

definition json_append_unicode_escape :: "bytes \<Rightarrow> strbuf \<Rightarrow> (bytes \<times> strbuf) option option" where
  "json_append_unicode_escape rest tmp =
     do { cp \<leftarrow> decode_hex4 (drop 2 rest);
          if cp < 0 then Some None
          else if cp AND 0xF800 = 0xD800 then
            (if cp AND 0x400 \<noteq> 0 then Some None
             else do { c6 \<leftarrow> arr_get rest 6;
                       if c6 \<noteq> 0x5C then Some None
                       else do { c7 \<leftarrow> arr_get rest 7;
                                 if c7 \<noteq> chr (CHR ''u'') then Some None
                                 else do { low \<leftarrow> decode_hex4 (drop 8 rest);
                                           if low < 0 then Some None
                                           else if low AND 0xFC00 \<noteq> 0xDC00 then Some None
                                           else append_utf8 ((push_bit 10 (cp AND 0x3FF) OR (low AND 0x3FF)) + 0x10000) 12 rest tmp } } })
          else append_utf8 cp 6 rest tmp }"

lemma append_utf8_drop: "append_utf8 cp n rest tmp = Some (Some (rest', tmp')) \<Longrightarrow> rest' = drop n rest"
  by (auto simp: append_utf8_def Let_def split: if_splits)

lemma unicode_escape_drop:
  "json_append_unicode_escape rest tmp = Some (Some (rest', tmp')) \<Longrightarrow> rest' = drop 6 rest \<or> rest' = drop 12 rest"
  unfolding json_append_unicode_escape_def
  by (auto simp: Let_def simp del: arr_get_eq_Some split: if_splits Option.bind_splits dest!: append_utf8_drop)

subsection \<open>Tokens\<close>

text \<open>A token with its value; its type is \<open>token_of\<close>. The text of an error is that of \<^verbatim>\<open>json_set_token_error\<close>.\<close>

datatype token = TString bytes | TNumber double | TBoolean bool | TError bytes | TSymbol token_type

fun token_of :: "token \<Rightarrow> token_type" where
  "token_of (TString s) = T_STRING"
| "token_of (TNumber d) = T_NUMBER"
| "token_of (TBoolean b) = T_BOOLEAN"
| "token_of (TError e) = T_ERROR"
| "token_of (TSymbol t) = t"

record json_parse =
  rest :: bytes
  tmp :: strbuf
  current_depth :: int

text \<open>
  The loop of \<^verbatim>\<open>json_next_string_token\<close>: the token (without the string value) and rest and buffer when it ends. \<open>Inl\<close> is an
  error.
\<close>

function string_loop :: "bytes \<Rightarrow> strbuf \<Rightarrow> ((bytes + unit) \<times> bytes \<times> strbuf) option" where
  "string_loop r t =
     (case r of [] \<Rightarrow> None
      | ch # r1 \<Rightarrow>
          if ch = 0x22 then Some (Inr (), r1, t)
          else if ch = 0 then Some (Inl (str ''unexpected end of string''), r, t)
          else if ch = 0x5C then
            (case r1 of [] \<Rightarrow> None
             | c # r2 \<Rightarrow>
                 let e = escape2char c
                 in if e = chr (CHR ''u'') then
                      (case json_append_unicode_escape r t of None \<Rightarrow> None
                       | Some None \<Rightarrow> Some (Inl (str ''invalid unicode escape code''), r, t)
                       | Some (Some (r', t')) \<Rightarrow> string_loop r' t')
                    else if e = 0 then Some (Inl (str ''invalid escape code''), r, t)
                    else (case strbuf_append_char_unsafe t e of None \<Rightarrow> None | Some t' \<Rightarrow> string_loop r2 t'))
          else (case strbuf_append_char_unsafe t ch of None \<Rightarrow> None | Some t' \<Rightarrow> string_loop r1 t'))"
  by pat_completeness auto
termination
  by (relation "measure (\<lambda>(r, t). length r)") (auto dest!: unicode_escape_drop)

declare string_loop.simps [simp del]

definition position :: "nat \<Rightarrow> bytes \<Rightarrow> int" where
  "position size0 r = int size0 - int (length r)"

text \<open>The token, its index, and the state. \<open>ix\<close> is the index that \<^verbatim>\<open>json_next_token\<close> stored for the token.\<close>

definition json_next_string_token :: "nat \<Rightarrow> int \<Rightarrow> json_parse \<Rightarrow> (token \<times> int \<times> json_parse) option" where
  "json_next_string_token size0 ix st =
     (case rest st of [] \<Rightarrow> None
      | q # r \<Rightarrow>
          if q \<noteq> 0x22 then None
          else
            (case string_loop r (strbuf_reset (tmp st)) of None \<Rightarrow> None
             | Some (Inl e, r', t') \<Rightarrow> Some (TError e, position size0 r', st\<lparr>rest := r', tmp := t'\<rparr>)
             | Some (Inr _, r', t') \<Rightarrow>
                 do { t2 \<leftarrow> strbuf_ensure_null t'; s \<leftarrow> strbuf_string t2; Some (TString s, ix, st\<lparr>rest := r', tmp := t2\<rparr>) }))"

definition valid_number_character :: "byte \<Rightarrow> bool" where
  "valid_number_character c \<longleftrightarrow> 48 \<le> c \<and> c \<le> 57 \<or> c = 45 \<or> c = 43 \<or> c = 46 \<or> (let l = c OR 0x20 in 97 \<le> l \<and> l \<le> 121)"

fun replace_point :: "byte \<Rightarrow> bytes \<Rightarrow> bytes" where
  "replace_point dp [] = []"
| "replace_point dp (c # cs) = (if c = 46 then dp # cs else c # replace_point dp cs)"

definition zstr :: "bytes \<Rightarrow> bytes" where
  "zstr r = takeWhile (\<lambda>c. c \<noteq> 0) r"

text \<open>\<^verbatim>\<open>fpconv_strtod\<close>: the value and how many characters were taken.\<close>

definition fpconv_strtod :: "num_env \<Rightarrow> bytes \<Rightarrow> double \<times> nat" where
  "fpconv_strtod env r =
     (if locale_decimal_point env = 46 then strtod env (zstr r)
      else
        let buf = takeWhile valid_number_character r
        in if buf = [] then (0, 0) else strtod env (replace_point (locale_decimal_point env) buf))"

definition lower :: "byte \<Rightarrow> byte" where
  "lower c = (if 65 \<le> c \<and> c \<le> 90 then c + 32 else c)"

definition nocase_prefix :: "string \<Rightarrow> bytes \<Rightarrow> bool" where
  "nocase_prefix p r \<longleftrightarrow> map lower (take (length p) r) = str p"

definition json_is_invalid_number :: "bytes \<Rightarrow> bool option" where
  "json_is_invalid_number r =
     (case r of [] \<Rightarrow> None
      | c # r1 \<Rightarrow>
          if c = 43 then Some True
          else
            (case (if c = 45 then r1 else r) of [] \<Rightarrow> None
             | d # q \<Rightarrow>
                 if d = 48 then
                   (case q of [] \<Rightarrow> None | ch2 # _ \<Rightarrow> Some (ch2 OR 0x20 = chr (CHR ''x'') \<or> 48 \<le> ch2 \<and> ch2 \<le> 57))
                 else if sint d \<le> 57 then Some False
                 else Some (nocase_prefix ''inf'' (d # q) \<or> nocase_prefix ''nan'' (d # q))))"

definition json_next_number_token :: "num_env \<Rightarrow> nat \<Rightarrow> int \<Rightarrow> json_parse \<Rightarrow> (token \<times> int \<times> json_parse) option" where
  "json_next_number_token env size0 ix st =
     (let (v, n) = fpconv_strtod env (rest st)
      in if n = 0 then Some (TError (str ''invalid number''), position size0 (rest st), st)
         else if n \<ge> length (rest st) then None
         else Some (TNumber v, ix, st\<lparr>rest := drop n (rest st)\<rparr>))"

definition json_next_token :: "num_env \<Rightarrow> json_config \<Rightarrow> nat \<Rightarrow> json_parse \<Rightarrow> (token \<times> int \<times> json_parse) option" where
  "json_next_token env cfg size0 st0 =
     (let r = dropWhile (\<lambda>c. ch2token c = T_WHITESPACE) (rest st0); st = st0\<lparr>rest := r\<rparr>; ix = position size0 r
      in case r of [] \<Rightarrow> None
         | ch # r1 \<Rightarrow>
             let ty = ch2token ch
             in if ty = T_ERROR then Some (TError (str ''invalid token''), ix, st)
                else if ty = T_END then Some (TSymbol T_END, ix, st)
                else if ty \<noteq> T_UNKNOWN then Some (TSymbol ty, ix, st\<lparr>rest := r1\<rparr>)
                else if ch = 0x22 then json_next_string_token size0 ix st
                else if ch = 45 \<or> 48 \<le> ch \<and> ch \<le> 57 then
                  (if decode_invalid_numbers cfg = 0 then
                     do { bad \<leftarrow> json_is_invalid_number r;
                          if bad then Some (TError (str ''invalid number''), ix, st) else json_next_number_token env size0 ix st }
                   else json_next_number_token env size0 ix st)
                else if take 4 r = str ''true'' then Some (TBoolean True, ix, st\<lparr>rest := drop 4 r\<rparr>)
                else if take 5 r = str ''false'' then Some (TBoolean False, ix, st\<lparr>rest := drop 5 r\<rparr>)
                else if take 4 r = str ''null'' then Some (TSymbol T_NULL, ix, st\<lparr>rest := drop 4 r\<rparr>)
                else if decode_invalid_numbers cfg \<noteq> 0 then
                  do { bad \<leftarrow> json_is_invalid_number r;
                       if bad then json_next_number_token env size0 ix st else Some (TError (str ''invalid token''), ix, st) }
                else Some (TError (str ''invalid token''), ix, st))"

subsection \<open>Values\<close>

text \<open>The result of the parser: a value, an error with its message, undefined behaviour, or a recursion that was cut off.\<close>

datatype 'a dec = DOk 'a | DErr bytes | DBad | DFuel

primrec dec_bind :: "'a dec \<Rightarrow> ('a \<Rightarrow> 'b dec) \<Rightarrow> 'b dec" where
  "dec_bind (DOk x) f = f x"
| "dec_bind (DErr e) f = DErr e"
| "dec_bind DBad f = DBad"
| "dec_bind DFuel f = DFuel"

definition dlift :: "'a option \<Rightarrow> 'a dec" where
  "dlift x = (case x of None \<Rightarrow> DBad | Some y \<Rightarrow> DOk y)"

lemma dlift_simps [simp]: "dlift None = DBad" "dlift (Some y) = DOk y"
  by (simp_all add: dlift_def)

definition json_throw_parse_error :: "string \<Rightarrow> token \<Rightarrow> int \<Rightarrow> 'a dec" where
  "json_throw_parse_error expected tok ix =
     DErr (str ''Expected '' @ str expected @ str '' but found '' @ (case tok of TError e \<Rightarrow> e | _ \<Rightarrow> token_type_name (token_of tok))
           @ str '' at character '' @ fmt_d (ix + 1))"

definition json_decode_ascend :: "json_parse \<Rightarrow> json_parse" where
  "json_decode_ascend st = st\<lparr>current_depth := current_depth st - 1\<rparr>"

definition json_decode_descend :: "json_config \<Rightarrow> nat \<Rightarrow> json_parse \<Rightarrow> json_parse dec" where
  "json_decode_descend cfg size0 st =
     (let st1 = st\<lparr>current_depth := current_depth st + 1\<rparr>
      in if current_depth st1 \<le> decode_max_depth cfg then DOk st1
         else DErr (str ''Found too many nested data structures ('' @ fmt_d (current_depth st1) @ str '') at character ''
                    @ fmt_d (position size0 (rest st1))))"

text \<open>
  \<^verbatim>\<open>json_process_value\<close> with the loops of \<^verbatim>\<open>json_parse_object_context\<close> and \<^verbatim>\<open>json_parse_array_context\<close>, which carry the table
  as far as it is filled and, for an array, the index. The three call each other; the first argument bounds the recursion.
\<close>

datatype parse_ctx = ValueContext | ObjectContext "(lua_value \<times> lua_value) list" | ArrayContext "(lua_value \<times> lua_value) list" int

primrec parse_context :: "nat \<Rightarrow> num_env \<Rightarrow> json_config \<Rightarrow> nat \<Rightarrow> parse_ctx \<Rightarrow> token \<Rightarrow> int \<Rightarrow> json_parse \<Rightarrow> (lua_value \<times> json_parse) dec" where
  "parse_context 0 env cfg size0 c tok ix st = DFuel"
| "parse_context (Suc n) env cfg size0 c tok ix st =
     (case c of
        ValueContext \<Rightarrow>
          (case tok of
             TString s \<Rightarrow> DOk (LString s, st)
           | TNumber d \<Rightarrow> DOk (LNumber d, st)
           | TBoolean b \<Rightarrow> DOk (LBool b, st)
           | TError e \<Rightarrow> json_throw_parse_error ''value'' tok ix
           | TSymbol ty \<Rightarrow>
               if ty = T_NULL then DOk (LNull, st)
               else if ty = T_OBJ_BEGIN then
                 dec_bind (json_decode_descend cfg size0 st) (\<lambda>st.
                   dec_bind (dlift (json_next_token env cfg size0 st)) (\<lambda>(tok, ix, st).
                     if tok = TSymbol T_OBJ_END then DOk (LTable [], json_decode_ascend st)
                     else parse_context n env cfg size0 (ObjectContext []) tok ix st))
               else if ty = T_ARR_BEGIN then
                 dec_bind (json_decode_descend cfg size0 st) (\<lambda>st.
                   dec_bind (dlift (json_next_token env cfg size0 st)) (\<lambda>(tok, ix, st).
                     if tok = TSymbol T_ARR_END then DOk (LTable [], json_decode_ascend st)
                     else parse_context n env cfg size0 (ArrayContext [] 1) tok ix st))
               else json_throw_parse_error ''value'' tok ix)
      | ObjectContext ps \<Rightarrow>
          (case tok of
             TString key \<Rightarrow>
               dec_bind (dlift (json_next_token env cfg size0 st)) (\<lambda>(tok, ix, st).
                 if tok \<noteq> TSymbol T_COLON then json_throw_parse_error ''colon'' tok ix
                 else
                   dec_bind (dlift (json_next_token env cfg size0 st)) (\<lambda>(tok, ix, st).
                     dec_bind (parse_context n env cfg size0 ValueContext tok ix st) (\<lambda>(v, st).
                       dec_bind (dlift (json_next_token env cfg size0 st)) (\<lambda>(tok, ix, st).
                         if tok = TSymbol T_OBJ_END then DOk (LTable (rawset ps (LString key) v), json_decode_ascend st)
                         else if tok \<noteq> TSymbol T_COMMA then json_throw_parse_error ''comma or object end'' tok ix
                         else dec_bind (dlift (json_next_token env cfg size0 st)) (\<lambda>(tok, ix, st).
                                parse_context n env cfg size0 (ObjectContext (rawset ps (LString key) v)) tok ix st)))))
           | _ \<Rightarrow> json_throw_parse_error ''object key string'' tok ix)
      | ArrayContext ps i \<Rightarrow>
          dec_bind (parse_context n env cfg size0 ValueContext tok ix st) (\<lambda>(v, st).
            dec_bind (dlift (json_next_token env cfg size0 st)) (\<lambda>(tok, ix, st).
              if tok = TSymbol T_ARR_END then DOk (LTable (rawset ps (lua_int i) v), json_decode_ascend st)
              else if tok \<noteq> TSymbol T_COMMA then json_throw_parse_error ''comma or array end'' tok ix
              else dec_bind (dlift (json_next_token env cfg size0 st)) (\<lambda>(tok, ix, st).
                     parse_context n env cfg size0 (ArrayContext (rawset ps (lua_int i) v) (i + 1)) tok ix st))))"

declare parse_context.simps(2) [simp del]

definition json_process_value :: "nat \<Rightarrow> num_env \<Rightarrow> json_config \<Rightarrow> nat \<Rightarrow> token \<Rightarrow> int \<Rightarrow> json_parse \<Rightarrow> (lua_value \<times> json_parse) dec" where
  "json_process_value n env cfg size0 tok ix st = parse_context n env cfg size0 ValueContext tok ix st"

text \<open>
  \<^verbatim>\<open>json_decode\<close> of the Lua string \<open>s\<close>. The fuel is twice the input, which is shown to be enough.
\<close>

definition decode_fuel :: "bytes \<Rightarrow> nat" where
  "decode_fuel s = 2 * length s + 4"

definition json_decode :: "num_env \<Rightarrow> json_config \<Rightarrow> bytes \<Rightarrow> lua_value dec" where
  "json_decode env cfg s =
     (if 2 \<le> length s \<and> (s ! 0 = 0 \<or> s ! 1 = 0) then DErr (str ''JSON parser does not support UTF-16 or UTF-32'')
      else
        let size0 = length s + 1
        in dec_bind (dlift (strbuf_new (int (length s)))) (\<lambda>t.
             dec_bind (dlift (json_next_token env cfg size0 \<lparr>rest = s @ [0], tmp = t, current_depth = 0\<rparr>)) (\<lambda>(tok, ix, st).
               dec_bind (json_process_value (decode_fuel s) env cfg size0 tok ix st) (\<lambda>(v, st).
                 dec_bind (dlift (json_next_token env cfg size0 st)) (\<lambda>(tok, ix, st).
                   if tok = TSymbol T_END then DOk v else json_throw_parse_error ''the end'' tok ix)))))"

text \<open>\<^verbatim>\<open>json_protect_conversion\<close> of the safe module: the value, or nil and the message.\<close>

definition json_protect_conversion :: "lua_value dec \<Rightarrow> lua_value list option" where
  "json_protect_conversion r =
     (case r of DOk v \<Rightarrow> Some [v] | DErr e \<Rightarrow> Some [LNil, LString e] | _ \<Rightarrow> None)"

end
