(* ===== verification/Cjson_Safe.thy ===== *)
theory Cjson_Safe
  imports Cjson_Decode
begin

text \<open>
  The decoder on arbitrary input: it reads only inside the string, its unchecked writes stay inside the temporary buffer,
  and the recursion ends.
\<close>

text \<open>The rest of the input ends with a zero.\<close>

definition nul :: "bytes \<Rightarrow> bool" where
  "nul r \<longleftrightarrow> r \<noteq> [] \<and> last r = 0"

lemma nul_Cons: "nul (c # r) \<Longrightarrow> c \<noteq> 0 \<Longrightarrow> nul r"
  by (auto simp: nul_def split: if_splits)

lemma nul_drop_Suc: "nul (drop n r) \<Longrightarrow> r ! n \<noteq> 0 \<Longrightarrow> nul (drop (Suc n) r)"
  by (metis Cons_nth_drop_Suc drop_all linorder_not_less nul_Cons nul_def)

lemma nul_length: "nul (drop n r) \<Longrightarrow> n < length r"
  by (metis drop_all linorder_not_less nul_def)

lemma hexdigit_zero [simp]: "hexdigit2int 0 = -1"
  by (simp add: hexdigit2int_def)

lemma hex_loop_ok:
  "nul h \<Longrightarrow> \<exists>x. hex_loop n h v = Some x \<and> (0 \<le> x \<longrightarrow> nul (drop n h))"
proof (induction n h v rule: hex_loop.induct)
  case (3 n c h v)
  show ?case
  proof (cases "hexdigit2int c < 0")
    case False
    then have "c \<noteq> 0" by auto
    with "3.prems" have "nul h" by (rule nul_Cons)
    with "3.IH" False show ?thesis by (simp add: Let_def)
  qed simp
qed (simp_all add: nul_def)

lemma length_utf8: "length (codepoint_to_utf8 cp) \<le> 4"
  by (simp add: codepoint_to_utf8_def)

text \<open>What an unchecked write needs, and what is left of it.\<close>

definition fits :: "bytes \<Rightarrow> strbuf \<Rightarrow> bool" where
  "fits r t \<longleftrightarrow> nul r \<and> sb_inv t \<and> slength t + length r < ssize t"

lemma append_utf8_ok:
  assumes "sb_inv t" "slength t + length r < ssize t" "nul (drop n r)" "4 \<le> n"
  shows "append_utf8 cp n r t = Some None \<or>
    (\<exists>t'. append_utf8 cp n r t = Some (Some (drop n r, t')) \<and> fits (drop n r) t' \<and> ssize t' = ssize t)"
proof (cases "codepoint_to_utf8 cp = []")
  case False
  let ?u = "codepoint_to_utf8 cp"
  have n: "n < length r" using nul_length [OF assms(3)] .
  then have "slength t + length ?u < ssize t" using length_utf8 [of cp] assms(2,4) by linarith
  from append_mem_unsafe_ok [OF assms(1) this] obtain t' where t': "strbuf_append_mem_unsafe t ?u = Some t'" "sb_inv t'" "ssize t' = ssize t"
    "slength t' = slength t + length ?u" by blast
  then have "fits (drop n r) t'" using assms n length_utf8 [of cp] by (simp add: fits_def)
  then show ?thesis using t' False by (simp add: append_utf8_def)
qed (simp add: append_utf8_def)

lemma unicode_escape_ok:
  assumes f: "fits r t" and d: "nul (drop 2 r)"
  shows "json_append_unicode_escape r t = Some None \<or>
    (\<exists>r' t'. json_append_unicode_escape r t = Some (Some (r', t')) \<and> fits r' t' \<and> length r' < length r \<and> ssize t' = ssize t)"
proof -
  have t: "sb_inv t" "slength t + length r < ssize t" using f by (simp_all add: fits_def)
  obtain cp where cp: "decode_hex4 (drop 2 r) = Some cp" "0 \<le> cp \<longrightarrow> nul (drop 6 r)"
    using hex_loop_ok [OF d, of 4 0] by (auto simp: decode_hex4_def)
  show ?thesis
  proof (cases "cp < 0")
    case False
    then have n6: "nul (drop 6 r)" using cp(2) by simp
    note l6 = nul_length [OF n6]
    show ?thesis
    proof (cases "cp AND 0xF800 = 0xD800")
      case True
      show ?thesis
      proof (cases "cp AND 0x400 \<noteq> 0 \<or> r ! 6 \<noteq> 0x5C")
        case False
        then have n7: "nul (drop 7 r)" using nul_drop_Suc [OF n6] by simp
        note l7 = nul_length [OF n7]
        show ?thesis
        proof (cases "r ! 7 = chr (CHR ''u'')")
          case True
          then have "r ! 7 \<noteq> 0" by (simp add: chr_def)
          then have n8: "nul (drop 8 r)" using nul_drop_Suc [OF n7] by simp
          obtain low where low: "decode_hex4 (drop 8 r) = Some low" "0 \<le> low \<longrightarrow> nul (drop 12 r)"
            using hex_loop_ok [OF n8, of 4 0] by (auto simp: decode_hex4_def)
          have e: "json_append_unicode_escape r t = (if low < 0 \<or> low AND 0xFC00 \<noteq> 0xDC00 then Some None
              else append_utf8 ((push_bit 10 (cp AND 0x3FF) OR (low AND 0x3FF)) + 0x10000) 12 r t)"
            using cp(1) low(1) l6 l7 True \<open>\<not> cp < 0\<close> \<open>cp AND 0xF800 = 0xD800\<close> False
            by (simp add: json_append_unicode_escape_def arr_get_def)
          show ?thesis
          proof (cases "low < 0 \<or> low AND 0xFC00 \<noteq> 0xDC00")
            case False
            then have n12: "nul (drop 12 r)" using low(2) by simp
            from append_utf8_ok [OF t n12, of "(push_bit 10 (cp AND 0x3FF) OR (low AND 0x3FF)) + 0x10000"] e False nul_length [OF n12]
            show ?thesis by auto
          qed (simp add: e)
        qed (use cp l6 l7 False \<open>\<not> cp < 0\<close> \<open>cp AND 0xF800 = 0xD800\<close> in \<open>simp add: json_append_unicode_escape_def arr_get_def\<close>)
      qed (use cp l6 \<open>\<not> cp < 0\<close> True in \<open>auto simp: json_append_unicode_escape_def arr_get_def\<close>)
    next
      case False
      then have "json_append_unicode_escape r t = append_utf8 cp 6 r t" using cp(1) \<open>\<not> cp < 0\<close> by (simp add: json_append_unicode_escape_def)
      then show ?thesis using append_utf8_ok [OF t n6, of cp] l6 by auto
    qed
  qed (use cp(1) in \<open>simp add: json_append_unicode_escape_def\<close>)
qed

lemma escape_zero: "escape2char 0 = 0"
  by (simp add: escape2char_def chr_def)

lemma fits_step:
  assumes "fits (c # r) t" "c \<noteq> 0"
  shows "\<exists>t'. strbuf_append_char_unsafe t e = Some t' \<and> fits r t' \<and> ssize t' = ssize t \<and> slength t' = slength t + 1"
proof -
  have r: "nul r" using assms nul_Cons by (auto simp: fits_def)
  then have "slength t + 1 < ssize t" using assms(1) by (cases r) (auto simp: fits_def nul_def)
  from append_char_unsafe_ok [OF _ this] assms(1) r show ?thesis by (fastforce simp: fits_def)
qed

definition string_result :: "bytes \<Rightarrow> strbuf \<Rightarrow> bool" where
  "string_result r t \<longleftrightarrow> (\<exists>x r' t'. string_loop r t = Some (x, r', t') \<and> nul r' \<and> sb_inv t' \<and> ssize t' = ssize t \<and>
     length r' \<le> length r \<and> (x = Inr () \<longrightarrow> length r' < length r))"

lemma string_result_step:
  "string_loop r t = string_loop r' t' \<Longrightarrow> string_result r' t' \<Longrightarrow> length r' \<le> length r \<Longrightarrow> ssize t' = ssize t \<Longrightarrow> string_result r t"
  unfolding string_result_def by fastforce

lemma string_escape_ok:
  assumes fit: "fits r t" and r: "r = 0x5C # c # r2" and z: "escape2char c \<noteq> 0"
    and uni: "\<And>r' t'. escape2char c = chr (CHR ''u'') \<Longrightarrow> json_append_unicode_escape r t = Some (Some (r', t')) \<Longrightarrow> fits r' t' \<Longrightarrow> string_result r' t'"
    and char: "\<And>t'. escape2char c \<noteq> chr (CHR ''u'') \<Longrightarrow> strbuf_append_char_unsafe t (escape2char c) = Some t' \<Longrightarrow> fits r2 t' \<Longrightarrow> string_result r2 t'"
  shows "string_result r t"
proof -
  have tt: "sb_inv t" "nul r" using fit by (simp_all add: fits_def)
  have "c \<noteq> 0" using z escape_zero by auto
  then have n2: "nul r2" using tt(2) nul_Cons [of "0x5C" "c # r2"] nul_Cons [of c r2] unfolding r by simp
  show ?thesis
  proof (cases "escape2char c = chr (CHR ''u'')")
    case u: True
    have "nul (drop 2 r)" using n2 by (simp add: r)
    from unicode_escape_ok [OF fit this] show ?thesis
    proof
      assume "json_append_unicode_escape r t = Some None"
      then have "string_loop r t = Some (Inl (str ''invalid unicode escape code''), r, t)"
        using u z by (simp add: r string_loop.simps [of "0x5C # c # r2"])
      then show ?thesis using tt by (auto simp: string_result_def)
    next
      assume "\<exists>r' t'. json_append_unicode_escape r t = Some (Some (r', t')) \<and> fits r' t' \<and> length r' < length r \<and> ssize t' = ssize t"
      then obtain r' t' where e: "json_append_unicode_escape r t = Some (Some (r', t'))" "fits r' t'" "length r' < length r" "ssize t' = ssize t"
        by blast
      then have "string_loop r t = string_loop r' t'" using u z by (simp add: r string_loop.simps [of "0x5C # c # r2"])
      then show ?thesis using string_result_step uni [OF u e(1,2)] e(3,4) by simp
    qed
  next
    case u: False
    obtain t' where t': "strbuf_append_char_unsafe t (escape2char c) = Some t'" "fits (c # r2) t'" "ssize t' = ssize t"
      using fits_step [of "0x5C" "c # r2" t] fit r by auto
    have f2: "fits r2 t'" using t'(2) n2 by (simp add: fits_def)
    have "string_loop r t = string_loop r2 t'" using t'(1) u z by (simp add: r string_loop.simps [of "0x5C # c # r2"])
    then show ?thesis using string_result_step char [OF u t'(1) f2] t'(3) r by simp
  qed
qed

lemma string_loop_ok: "fits r t \<Longrightarrow> string_result r t"
proof (induction r t rule: string_loop.induct)
  case (1 r t)
  obtain ch r1 where r: "r = ch # r1" using "1.prems" by (cases r) (auto simp: fits_def nul_def)
  have tt: "sb_inv t" "nul r" using "1.prems" by (simp_all add: fits_def)
  consider (stop) "ch = 0x22 \<or> ch = 0" | (plain) "\<not> (ch = 0x22 \<or> ch = 0)" "ch \<noteq> 0x5C" | (escape) "ch = 0x5C" by auto
  then show ?case
  proof cases
    case stop
    then show ?thesis using tt nul_Cons [of ch r1] by (auto simp: r string_loop.simps [of "ch # r1"] string_result_def)
  next
    case plain
    then obtain t' where t': "strbuf_append_char_unsafe t ch = Some t'" "fits r1 t'" "ssize t' = ssize t"
      using fits_step [of ch r1 t ch] "1.prems" r by blast
    then have "string_loop r t = string_loop r1 t'" using plain by (simp add: r string_loop.simps [of "ch # r1"])
    then show ?thesis using string_result_step "1.IH"(3) [OF r] t' plain r by simp
  next
    case escape
    then obtain c r2 where r1: "r1 = c # r2" using tt(2) r by (cases r1) (auto simp: nul_def)
    show ?thesis
    proof (cases "escape2char c = 0")
      case True
      then show ?thesis using escape tt by (auto simp: r r1 string_loop.simps [of "0x5C # c # r2"] chr_def string_result_def)
    next
      case z: False
      show ?thesis
        by (rule string_escape_ok [OF "1.prems" _ z]) (use "1.IH"(1,2) [OF r _ _ escape r1 refl] escape r r1 z in auto)
    qed
  qed
qed

subsection \<open>Tokens\<close>

definition st_ok :: "nat \<Rightarrow> json_parse \<Rightarrow> bool" where
  "st_ok size0 st \<longleftrightarrow> nul (rest st) \<and> length (rest st) \<le> size0 \<and> sb_inv (tmp st) \<and> size0 \<le> ssize (tmp st)"

definition stuck :: "token \<Rightarrow> bool" where
  "stuck tok = (case tok of TError _ \<Rightarrow> True | TSymbol ty \<Rightarrow> ty = T_END | _ \<Rightarrow> False)"

text \<open>\<^verbatim>\<open>strtod\<close> takes no more characters than there are.\<close>

definition strtod_ok :: "num_env \<Rightarrow> bool" where
  "strtod_ok env \<longleftrightarrow> (\<forall>t. snd (strtod env t) \<le> length t)"

text \<open>The step from one state to the next that every token function makes.\<close>

definition moves :: "nat \<Rightarrow> json_parse \<Rightarrow> (token \<times> int \<times> json_parse) option \<Rightarrow> bool" where
  "moves size0 st r \<longleftrightarrow> (\<exists>tok ix st'. r = Some (tok, ix, st') \<and> st_ok size0 st' \<and> current_depth st' = current_depth st \<and>
     length (rest st') \<le> length (rest st) \<and> (\<not> stuck tok \<longrightarrow> length (rest st') < length (rest st)))"

lemma strbuf_reset_fields: "slength (strbuf_reset t) = 0" "ssize (strbuf_reset t) = ssize t"
  by (simp_all add: strbuf_reset_def)

lemma ensure_null_ok: "sb_inv t \<Longrightarrow> \<exists>t'. strbuf_ensure_null t = Some t' \<and> sb_inv t' \<and> sb_text t' = sb_text t \<and> ssize t' = ssize t"
  by (auto simp: strbuf_ensure_null_def put_byte_def arr_set_def sb_inv_def sb_text_def)

lemma string_token_moves:
  assumes "st_ok size0 st" "rest st = 0x22 # r"
  shows "moves size0 st (json_next_string_token size0 ix st)"
proof -
  have "nul r" using assms nul_Cons [of "0x22" r] by (simp add: st_ok_def)
  then have "fits r (strbuf_reset (tmp st))"
    using assms strbuf_reset_ok [of "tmp st"] by (auto simp: st_ok_def fits_def strbuf_reset_fields)
  from string_loop_ok [OF this, unfolded string_result_def] obtain x r' t' where s: "string_loop r (strbuf_reset (tmp st)) = Some (x, r', t')" "nul r'" "sb_inv t'"
    "ssize t' = ssize (tmp st)" "length r' \<le> length r" by (auto simp: strbuf_reset_fields)
  obtain t2 where "strbuf_ensure_null t' = Some t2" "sb_inv t2" "ssize t2 = ssize t'" using ensure_null_ok [OF s(3)] by blast
  then show ?thesis
    using s assms strbuf_string_ok [of t2]
    by (cases x) (auto simp: moves_def json_next_string_token_def st_ok_def stuck_def)
qed

lemma valid_zero: "\<not> valid_number_character 0"
  by (simp add: valid_number_character_def)

lemma length_replace_point [simp]: "length (replace_point dp cs) = length cs"
  by (induction cs) auto

lemma zstr_less: "nul r \<Longrightarrow> length (zstr r) < length r"
proof -
  assume "nul r"
  then have "\<exists>x \<in> set r. x = 0" by (metis last_in_set nul_def)
  then have "takeWhile (\<lambda>c. c \<noteq> 0) r \<noteq> r" by (metis (mono_tags, lifting) takeWhile_eq_all_conv)
  then show ?thesis unfolding zstr_def by (metis length_takeWhile_le nat_less_le takeWhile_eq_take take_all_iff order_refl)
qed

lemma fpconv_strtod_less:
  assumes "strtod_ok env" "nul r"
  shows "snd (fpconv_strtod env r) < length r"
proof -
  have "takeWhile valid_number_character r \<noteq> r"
    using assms(2) valid_zero by (metis last_in_set nul_def set_takeWhileD)
  then have "length (takeWhile valid_number_character r) < length r"
    by (metis length_takeWhile_le nat_less_le takeWhile_eq_take take_all_iff order_refl)
  then show ?thesis
    using assms zstr_less [OF assms(2)]
    by (auto simp: fpconv_strtod_def Let_def strtod_ok_def nul_def intro: le_less_trans
        dest: spec [of _ "zstr r"] spec [of _ "replace_point (locale_decimal_point env) (takeWhile valid_number_character r)"])
qed

lemma nul_drop: "nul r \<Longrightarrow> n < length r \<Longrightarrow> nul (drop n r)"
  by (simp add: nul_def)

lemma number_token_moves:
  assumes "strtod_ok env" "st_ok size0 st"
  shows "moves size0 st (json_next_number_token env size0 ix st)"
proof -
  obtain v n where v: "fpconv_strtod env (rest st) = (v, n)" by fastforce
  have "n < length (rest st)" using fpconv_strtod_less [OF assms(1), of "rest st"] assms(2) v by (simp add: st_ok_def)
  then show ?thesis
    using assms(2) v by (auto simp: moves_def json_next_number_token_def st_ok_def stuck_def nul_drop)
qed

lemma invalid_number_ok: "nul r \<Longrightarrow> \<exists>b. json_is_invalid_number r = Some b"
proof -
  assume n: "nul r"
  then obtain c r1 where r: "r = c # r1" by (cases r) (auto simp: nul_def)
  show ?thesis
  proof (cases "c = 43")
    case False
    let ?p = "if c = 45 then r1 else r"
    have p: "nul ?p" using n nul_Cons [of c r1] r by auto
    then obtain d q where dq: "?p = d # q" by (cases ?p) (auto simp: nul_def)
    have "nul q" if "d = 48" using p nul_Cons [of d q] dq that by simp
    then have "q \<noteq> []" if "d = 48" using that by (auto simp: nul_def)
    then show ?thesis using dq False r by (auto simp: json_is_invalid_number_def split: list.splits if_splits)
  next
    case True
    then have "json_is_invalid_number r = Some True" by (simp add: r json_is_invalid_number_def)
    then show ?thesis by blast
  qed
qed

lemma nul_keyword: "nul r \<Longrightarrow> take n r = w \<Longrightarrow> length w = n \<Longrightarrow> 0 \<notin> set w \<Longrightarrow> nul (drop n r) \<and> n < length r"
proof -
  assume a: "nul r" "take n r = w" "length w = n" "0 \<notin> set w"
  have "drop n r \<noteq> []"
  proof
    assume "drop n r = []"
    then have "take n r = r" by simp
    then show False using a by (metis last_in_set nul_def)
  qed
  then show ?thesis using a(1) by (simp add: nul_drop)
qed

lemma kw_nonzero: "0 \<notin> set (str ''true'')" "0 \<notin> set (str ''false'')" "0 \<notin> set (str ''null'')"
  by (simp_all add: str_def chr_def)

lemma skip_whitespace:
  assumes "nul r"
  shows "nul (dropWhile (\<lambda>c. ch2token c = T_WHITESPACE) r)" "dropWhile (\<lambda>c. ch2token c = T_WHITESPACE) r \<noteq> []"
proof -
  let ?r = "dropWhile (\<lambda>c. ch2token c = T_WHITESPACE) r"
  have "\<exists>x \<in> set r. ch2token x \<noteq> T_WHITESPACE"
    using assms last_in_set [of r] by (intro bexI [of _ "last r"]) (auto simp: nul_def ch2token_def)
  then show ne: "?r \<noteq> []" by (simp add: dropWhile_eq_Nil_conv)
  then show "nul ?r"
    using nul_drop [OF assms, of "length (takeWhile (\<lambda>c. ch2token c = T_WHITESPACE) r)"] unfolding dropWhile_eq_drop
    by (metis drop_all linorder_not_less)
qed

lemma next_token_moves:
  assumes e: "strtod_ok env" and ok: "st_ok size0 st"
  shows "moves size0 st (json_next_token env cfg size0 st)"
proof -
  let ?r = "dropWhile (\<lambda>c. ch2token c = T_WHITESPACE) (rest st)"
  let ?st = "st\<lparr>rest := ?r\<rparr>" and ?ix = "position size0 ?r"
  have n: "nul ?r" and ne: "?r \<noteq> []" using skip_whitespace [of "rest st"] ok by (simp_all add: st_ok_def)
  have len: "length ?r \<le> length (rest st)" by (rule length_dropWhile_le)
  have ok1: "st_ok size0 ?st" using ok n len by (simp add: st_ok_def)
  obtain ch r1 where r: "?r = ch # r1" using ne by (cases ?r) auto
  have up: "moves size0 st x" if "moves size0 ?st x" for x using that len unfolding moves_def by fastforce
  have sym: "moves size0 st (Some (tok, ?ix, st\<lparr>rest := drop k ?r\<rparr>))"
    if "nul (drop k ?r)" "0 < k \<or> stuck tok" for k tok
  proof -
    have "k < length ?r" using nul_length [OF that(1)] .
    then show ?thesis using that ok len by (auto simp: moves_def st_ok_def)
  qed
  have err: "moves size0 st (Some (TError m, ?ix, ?st))" for m using sym [of 0 "TError m"] n by (simp add: stuck_def)
  show ?thesis
  proof (cases "ch2token ch = T_ERROR \<or> ch2token ch = T_END")
    case True
    then show ?thesis using err sym [of 0 "TSymbol T_END"] n by (auto simp: json_next_token_def Let_def r stuck_def)
  next
    case False
    then have "ch \<noteq> 0" by (auto simp: ch2token_def)
    then have n1: "nul r1" using n r nul_Cons by auto
    show ?thesis
    proof (cases "ch2token ch = T_UNKNOWN")
      case False
      then show ?thesis using sym [of 1 "TSymbol (ch2token ch)"] n1 \<open>\<not> (ch2token ch = T_ERROR \<or> ch2token ch = T_END)\<close>
        by (simp add: json_next_token_def Let_def r)
    next
      case True
      obtain b where b: "json_is_invalid_number ?r = Some b" using invalid_number_ok [OF n] by blast
      have num: "moves size0 st (json_next_number_token env size0 ?ix ?st)" using up number_token_moves [OF e ok1] by blast
      have strt: "moves size0 st (json_next_string_token size0 ?ix ?st)" if "ch = 0x22" using up string_token_moves [OF ok1] r that by simp
      have kw: "moves size0 st (Some (tok, ?ix, st\<lparr>rest := drop k ?r\<rparr>))" if "take k ?r = w" "length w = k" "0 \<notin> set w" "0 < k" for k w tok
        using nul_keyword [OF n that(1,2,3)] that(4) by (intro sym) auto
      have t: "take 4 ?r = str ''true'' \<Longrightarrow> moves size0 st (Some (TBoolean True, ?ix, st\<lparr>rest := drop 4 ?r\<rparr>))"
        "take 5 ?r = str ''false'' \<Longrightarrow> moves size0 st (Some (TBoolean False, ?ix, st\<lparr>rest := drop 5 ?r\<rparr>))"
        "take 4 ?r = str ''null'' \<Longrightarrow> moves size0 st (Some (TSymbol T_NULL, ?ix, st\<lparr>rest := drop 4 ?r\<rparr>))"
        using kw_nonzero by (auto intro!: kw)
      show ?thesis
        using True num strt t err b unfolding json_next_token_def Let_def r list.case by auto
    qed
  qed
qed

subsection \<open>Values\<close>

text \<open>The fuel a call needs.\<close>

definition need :: "parse_ctx \<Rightarrow> token \<Rightarrow> json_parse \<Rightarrow> nat" where
  "need c tok st = (if stuck tok then 2 else 2 * length (rest st) + (if c = ValueContext then 1 else 2))"

definition safe_result :: "nat \<Rightarrow> json_parse \<Rightarrow> (lua_value \<times> json_parse) dec \<Rightarrow> bool" where
  "safe_result size0 st r \<longleftrightarrow> (\<exists>e. r = DErr e) \<or>
     (\<exists>v st'. r = DOk (v, st') \<and> v \<noteq> LNil \<and> st_ok size0 st' \<and> length (rest st') \<le> length (rest st))"

lemma safe_err [simp]: "safe_result size0 st (json_throw_parse_error e tok ix)"
  by (simp add: safe_result_def json_throw_parse_error_def)

lemma safe_mono: "safe_result size0 st r \<Longrightarrow> length (rest st) \<le> length (rest st1) \<Longrightarrow> safe_result size0 st1 r"
  by (fastforce simp: safe_result_def)

text \<open>Going on after a token and after a value.\<close>

lemma safe_token:
  assumes "strtod_ok env" "st_ok size0 st" "length (rest st) \<le> length (rest st0)"
    and "\<And>tok ix st'. st_ok size0 st' \<Longrightarrow> length (rest st') \<le> length (rest st) \<Longrightarrow> (\<not> stuck tok \<Longrightarrow> length (rest st') < length (rest st)) \<Longrightarrow>
      safe_result size0 st0 (f tok ix st')"
  shows "safe_result size0 st0 (dec_bind (dlift (json_next_token env cfg size0 st)) (\<lambda>(tok, ix, st). f tok ix st))"
proof -
  obtain tok ix st' where "json_next_token env cfg size0 st = Some (tok, ix, st')" "st_ok size0 st'" "length (rest st') \<le> length (rest st)"
    "\<not> stuck tok \<longrightarrow> length (rest st') < length (rest st)"
    using next_token_moves [OF assms(1,2), of cfg] unfolding moves_def by blast
  then show ?thesis using assms(4) [of st' tok ix] by simp
qed

lemma safe_value:
  assumes "safe_result size0 st r"
    and "\<And>v st'. v \<noteq> LNil \<Longrightarrow> st_ok size0 st' \<Longrightarrow> length (rest st') \<le> length (rest st) \<Longrightarrow> safe_result size0 st0 (f v st')"
  shows "safe_result size0 st0 (dec_bind r (\<lambda>(v, st). f v st))"
proof (cases "\<exists>e. r = DErr e")
  case False
  then obtain v st' where "r = DOk (v, st')" "v \<noteq> LNil" "st_ok size0 st'" "length (rest st') \<le> length (rest st)"
    using assms(1) unfolding safe_result_def by blast
  then show ?thesis using assms(2) by simp
qed (auto simp: safe_result_def)

lemma st_ok_depth [simp]:
  "st_ok size0 (st\<lparr>current_depth := d\<rparr>) = st_ok size0 st" "st_ok size0 (json_decode_ascend st) = st_ok size0 st"
  "rest (json_decode_ascend st) = rest st"
  by (simp_all add: st_ok_def json_decode_ascend_def)

lemma safe_descend:
  assumes "\<And>d. safe_result size0 st (f (st\<lparr>current_depth := d\<rparr>))"
  shows "safe_result size0 st (dec_bind (json_decode_descend cfg size0 st) f)"
  using assms by (auto simp: json_decode_descend_def Let_def safe_result_def)

lemma st_ok_length: "st_ok size0 st \<Longrightarrow> 0 < length (rest st)"
  by (simp add: st_ok_def nul_def)

text \<open>The induction hypothesis of the parser, and one lemma for each context.\<close>

definition safe_below :: "num_env \<Rightarrow> json_config \<Rightarrow> nat \<Rightarrow> nat \<Rightarrow> bool" where
  "safe_below env cfg size0 n \<longleftrightarrow> (\<forall>c tok ix st. st_ok size0 st \<longrightarrow> need c tok st \<le> n \<longrightarrow>
     safe_result size0 st (parse_context n env cfg size0 c tok ix st))"

lemma safe_belowD:
  assumes "safe_below env cfg size0 n" "st_ok size0 st1" "need c tok st1 \<le> n" "length (rest st1) \<le> length (rest st)"
  shows "safe_result size0 st (parse_context n env cfg size0 c tok ix st1)"
  using assms safe_mono unfolding safe_below_def by blast

lemma value_safe:
  assumes e: "strtod_ok env" and below: "safe_below env cfg size0 n" and ok: "st_ok size0 st" and fuel: "need c tok st \<le> Suc n"
    and ValueContext: "c = ValueContext"
  shows "safe_result size0 st (parse_context (Suc n) env cfg size0 c tok ix st)"
proof -
  let ?pc = "parse_context n env cfg size0"
  note IH = safe_belowD [OF below]
  have len: "0 < length (rest st)" using st_ok_length [OF ok] .
  have n2: "\<not> stuck tok \<Longrightarrow> 2 * length (rest st) \<le> n" using fuel ValueContext by (simp add: need_def)
  have open_ctx: "safe_result size0 st (dec_bind (json_decode_descend cfg size0 st) (\<lambda>st1.
      dec_bind (dlift (json_next_token env cfg size0 st1)) (\<lambda>(tok1, ix1, st2).
        if tok1 = t then DOk (LTable [], json_decode_ascend st2) else ?pc c1 tok1 ix1 st2)))"
    if "c1 \<noteq> ValueContext" "\<not> stuck tok" for t c1
  proof (intro safe_descend safe_token [OF e])
    fix d tok1 ix1 st2
    assume s2: "st_ok size0 st2" "length (rest st2) \<le> length (rest (st\<lparr>current_depth := d\<rparr>))"
      "\<not> stuck tok1 \<Longrightarrow> length (rest st2) < length (rest (st\<lparr>current_depth := d\<rparr>))"
    have "2 \<le> n" using n2 [OF that(2)] len by linarith
    then have "need c1 tok1 st2 \<le> n" using n2 [OF that(2)] s2 by (auto simp: need_def)
    with s2 show "safe_result size0 st (if tok1 = t then DOk (LTable [], json_decode_ascend st2) else ?pc c1 tok1 ix1 st2)"
      using IH [OF s2(1)] by (auto simp: safe_result_def)
  qed (use ok fuel in auto)
  show ?thesis
    using open_ctx ok
    by (auto simp: ValueContext parse_context.simps(2) safe_result_def stuck_def json_throw_parse_error_def split: token.splits)
qed

text \<open>What follows the value of a member: the end of the object, or a comma and the next member.\<close>

lemma object_tail_safe:
  assumes e: "strtod_ok env" and below: "safe_below env cfg size0 n" and st1: "st_ok size0 st1"
    and len: "length (rest st1) < length (rest st)" and fuel: "2 * length (rest st) \<le> n"
  shows "safe_result size0 st (dec_bind (dlift (json_next_token env cfg size0 st1)) (\<lambda>(tok, ix, st).
     if tok = TSymbol T_OBJ_END then DOk (LTable ps, json_decode_ascend st)
     else if tok \<noteq> TSymbol T_COMMA then json_throw_parse_error ''comma or object end'' tok ix
     else dec_bind (dlift (json_next_token env cfg size0 st)) (\<lambda>(tok, ix, st).
            parse_context n env cfg size0 (ObjectContext ps) tok ix st)))"
proof (intro safe_token [OF e st1], goal_cases)
  case (2 tok ix st2)
  show ?case
  proof (cases "tok = TSymbol T_OBJ_END \<or> tok \<noteq> TSymbol T_COMMA")
    case True
    then show ?thesis using 2 len by (auto simp: safe_result_def json_throw_parse_error_def)
  next
    case False
    have "safe_result size0 st (dec_bind (dlift (json_next_token env cfg size0 st2)) (\<lambda>(tok, ix, st).
        parse_context n env cfg size0 (ObjectContext ps) tok ix st))"
    proof (intro safe_token [OF e 2(1)], goal_cases)
      case (2 tok3 ix3 st3)
      then show ?case using \<open>length (rest st2) \<le> length (rest st1)\<close> len fuel
        by (intro safe_belowD [OF below]) (auto simp: need_def)
    qed (use 2 len in auto)
    then show ?thesis using False by simp
  qed
qed (use len in auto)

lemma object_safe:
  assumes e: "strtod_ok env" and below: "safe_below env cfg size0 n" and ok: "st_ok size0 st" and fuel: "need c tok st \<le> Suc n"
    and ObjectContext: "c = ObjectContext ps"
  shows "safe_result size0 st (parse_context (Suc n) env cfg size0 c tok ix st)"
proof -
  let ?pc = "parse_context n env cfg size0"
  note IH = safe_belowD [OF below]
  have len: "0 < length (rest st)" using st_ok_length [OF ok] .
  show ?thesis
  proof (cases tok)
    case (TString key)
    have n2: "2 * length (rest st) + 1 \<le> n" using fuel by (simp add: need_def ObjectContext TString stuck_def)
    show ?thesis unfolding ObjectContext TString parse_context.simps(2) parse_ctx.case token.case
    proof (intro safe_token [OF e ok], goal_cases)
      case (2 tok1 ix1 st1)
      show ?case
      proof (cases "tok1 = TSymbol T_COLON")
        case True
        then have l1: "length (rest st1) < length (rest st)" using 2 by (simp add: stuck_def)
        have "safe_result size0 st (dec_bind (dlift (json_next_token env cfg size0 st1)) (\<lambda>(tok, ix, sta).
            dec_bind (?pc ValueContext tok ix sta) (\<lambda>(v, st).
              dec_bind (dlift (json_next_token env cfg size0 st)) (\<lambda>(tok, ix, st).
                if tok = TSymbol T_OBJ_END then DOk (LTable (rawset ps (LString key) v), json_decode_ascend st)
                else if tok \<noteq> TSymbol T_COMMA then json_throw_parse_error ''comma or object end'' tok ix
                else dec_bind (dlift (json_next_token env cfg size0 st)) (\<lambda>(tok, ix, st).
                       ?pc (ObjectContext (rawset ps (LString key) v)) tok ix st)))))"
        proof (intro safe_token [OF e 2(1)], goal_cases)
          case (2 tok2 ix2 st2)
          have v: "safe_result size0 st2 (?pc ValueContext tok2 ix2 st2)"
            using 2 l1 n2 len by (intro IH) (auto simp: need_def)
          show ?case
            using 2 l1 n2 by (intro safe_value [OF v] object_tail_safe [OF e below]) auto
        qed (use l1 in simp)
        then show ?thesis using True by simp
      qed simp
    qed simp
  qed (simp_all add: ObjectContext parse_context.simps(2))
qed

lemma array_safe:
  assumes e: "strtod_ok env" and below: "safe_below env cfg size0 n" and ok: "st_ok size0 st" and fuel: "need c tok st \<le> Suc n"
    and ArrayContext: "c = ArrayContext ps i"
  shows "safe_result size0 st (parse_context (Suc n) env cfg size0 c tok ix st)"
proof -
  let ?pc = "parse_context n env cfg size0"
  note IH = safe_belowD [OF below]
  have len: "0 < length (rest st)" using st_ok_length [OF ok] .
  show ?thesis
  proof (cases "stuck tok")
    case True
    then obtain m where n: "n = Suc m" using fuel by (cases n) (auto simp: need_def)
    have "\<exists>e. ?pc ValueContext tok ix st = DErr e"
      using True unfolding n by (auto simp: parse_context.simps(2) stuck_def json_throw_parse_error_def split: token.splits if_splits)
    then show ?thesis by (auto simp: ArrayContext parse_context.simps(2) safe_result_def)
  next
    case False
    then have n2: "2 * length (rest st) + 1 \<le> n" using fuel by (simp add: need_def ArrayContext)
    have v: "safe_result size0 st (?pc ValueContext tok ix st)"
      using n2 ok False by (intro IH) (auto simp: need_def)
    show ?thesis unfolding ArrayContext parse_context.simps(2) parse_ctx.case
    proof (rule safe_value [OF v], intro safe_token [OF e], goal_cases)
      case (3 v st3 tok4 ix4 st4)
      show ?case
      proof (cases "tok4 = TSymbol T_ARR_END \<or> tok4 \<noteq> TSymbol T_COMMA")
        case True
        then show ?thesis using 3 by (auto simp: safe_result_def json_throw_parse_error_def)
      next
        case c: False
        then have l4: "length (rest st4) < length (rest st3)" using 3 by (auto simp: stuck_def)
        have "safe_result size0 st (dec_bind (dlift (json_next_token env cfg size0 st4)) (\<lambda>(tok, ix, st).
                 ?pc (ArrayContext (rawset ps (lua_int i) v) (i + 1)) tok ix st))"
        proof (intro safe_token [OF e], goal_cases)
          case (3 tok5 ix5 st5)
          then show ?case using l4 \<open>length (rest st3) \<le> length (rest st)\<close> n2 len
            by (intro IH) (auto simp: need_def)
        qed (use 3 l4 in auto)
        then show ?thesis using c by simp
      qed
    qed auto
  qed
qed

lemma parse_context_safe:
  assumes "strtod_ok env"
  shows "st_ok size0 st \<Longrightarrow> need c tok st \<le> n \<Longrightarrow> safe_result size0 st (parse_context n env cfg size0 c tok ix st)"
proof (induction n arbitrary: c tok ix st)
  case 0
  then show ?case by (auto simp: need_def split: if_splits)
next
  case (Suc n)
  then have "safe_below env cfg size0 n" by (simp add: safe_below_def)
  then show ?case using value_safe object_safe array_safe assms Suc.prems by (cases c) blast+
qed

lemma dec_bind_assoc: "dec_bind (dec_bind m f) g = dec_bind m (\<lambda>x. dec_bind (f x) g)"
  by (cases m) simp_all

lemma throw_bind [simp]: "dec_bind (json_throw_parse_error a b c) g = json_throw_parse_error a b c"
  by (simp add: json_throw_parse_error_def)

lemma bind_end_check:
  "dec_bind (if c then DOk (v, st) else json_throw_parse_error a b d) (\<lambda>p. DOk (fst p)) =
    (if c then DOk v else json_throw_parse_error a b d)"
  by (simp add: json_throw_parse_error_def)

text \<open>The temporary buffer that the decoder allocates for a text.\<close>

lemma decode_buffer_ok:
  assumes "length s < 2 ^ 31 - 1"
  shows "\<exists>t. strbuf_new (int (length s)) = Some t \<and> sb_inv t \<and> length s + 1 \<le> ssize t"
proof -
  obtain t0 where "strbuf_init (int (length s)) = Some t0" "sb_inv t0" "ssize t0 = (if s = [] then 1023 else length s + 1)"
    using strbuf_init_ok [of "int (length s)"] assms by auto
  then show ?thesis by (auto simp: strbuf_new_def sb_inv_def split: if_splits)
qed

text \<open>
  C28: on every input of less than two gigabytes, whatever bytes it has, the decoder returns a value or raises an error: it
  never reads behind the end of the input, never writes behind its temporary buffer (which is sized once and then written
  without checks) and its recursion ends.
\<close>

theorem json_decode_total:
  assumes "strtod_ok env" "length s < 2 ^ 31 - 1"
  shows "\<exists>v e. json_decode env cfg s = DOk v \<or> json_decode env cfg s = DErr e"
proof -
  let ?size = "length s + 1"
  obtain t where t: "strbuf_new (int (length s)) = Some t" "sb_inv t" "?size \<le> ssize t" using decode_buffer_ok [OF assms(2)] by blast
  let ?st = "\<lparr>rest = s @ [0], tmp = t, current_depth = 0\<rparr>"
  have ok: "st_ok ?size ?st" using t by (simp add: st_ok_def nul_def)
  let ?k = "\<lambda>tok ix st. dec_bind (json_process_value (decode_fuel s) env cfg ?size tok ix st) (\<lambda>(v, st).
      dec_bind (dlift (json_next_token env cfg ?size st)) (\<lambda>(tok, ix, st).
        if tok = TSymbol T_END then DOk (v, st) else json_throw_parse_error ''the end'' tok ix))"
  have "safe_result ?size ?st (dec_bind (dlift (json_next_token env cfg ?size ?st)) (\<lambda>(tok, ix, st). ?k tok ix st))"
  proof (intro safe_token [OF assms(1) ok], goal_cases)
    case (2 tok ix st)
    have "safe_result ?size st (json_process_value (decode_fuel s) env cfg ?size tok ix st)"
      unfolding json_process_value_def using 2
      by (intro parse_context_safe [OF assms(1)]) (auto simp: need_def decode_fuel_def)
    then show ?case
    proof (rule safe_value, intro safe_token [OF assms(1)], goal_cases)
      case (3 v st' tok' ix' st'')
      then show ?case using 2 by (auto simp: safe_result_def json_throw_parse_error_def)
    qed (use 2 in auto)
  qed simp
  then have r: "safe_result ?size ?st (dec_bind (dlift (json_next_token env cfg ?size ?st)) (\<lambda>(tok, ix, st). ?k tok ix st))" (is "safe_result _ _ ?r") .
  have "json_decode env cfg s = dec_bind ?r (\<lambda>(v, st). DOk v)"
    if "\<not> (2 \<le> length s \<and> (s ! 0 = 0 \<or> s ! 1 = 0))"
    using that t(1) by (auto simp: json_decode_def Let_def dec_bind_assoc case_prod_unfold bind_end_check)
  then show ?thesis using r by (auto simp: safe_result_def json_decode_def)
qed

lemma digit_env_strtod: "strtod_ok digit_env"
  by (simp add: strtod_ok_def digit_env_def split: list.split)

theorem json_decode_total_witness:
  "\<exists>v e. json_decode digit_env (the json_create_config) (str ''[1,\"x'') = DOk v \<or> json_decode digit_env (the json_create_config) (str ''[1,\"x'') = DErr e"
  using json_decode_total [OF digit_env_strtod, of "str ''[1,\"x''" "the json_create_config"] by (simp add: str_def)

end
