(* ===== verification/Cjson_Lex.thy ===== *)
theory Cjson_Lex
  imports Cjson_Print Cjson_Safe
begin

text \<open>
  The decoder on the text that the encoder writes: strings and numbers are read back as tokens, and the parser rebuilds
  the value of the document.
\<close>

subsection \<open>Strings\<close>

lemma hexdigit_back:
  assumes "n < 16"
  shows "hexdigit2int (hex_digit n) = int n"
proof -
  have "\<forall>m \<in> set [0..<16]. hexdigit2int (hex_digit m) = int m" by code_simp
  then show ?thesis using assms by simp
qed

lemma decode_hex_byte:
  assumes "n < 128"
  shows "decode_hex4 (48 # 48 # hex_digit (n div 16) # hex_digit (n mod 16) # r) = Some (int n)"
proof -
  have "hexdigit2int 48 = 0" using hexdigit_back [of 0] by (simp add: hex_digit_def)
  moreover have "hexdigit2int (hex_digit (n div 16)) = int (n div 16)" "hexdigit2int (hex_digit (n mod 16)) = int (n mod 16)"
    using assms by (simp_all add: hexdigit_back)
  moreover have "hex_loop 4 h v = hex_loop (Suc (Suc (Suc (Suc 0)))) h v" for h v by (simp only: numeral_eq_Suc pred_numeral_simps BitM.simps)
  moreover have "push_bit 4 (int (n div 16)) + int (n mod 16) = int n" by (simp add: push_bit_eq_mult zdiv_int zmod_int)
  ultimately show ?thesis by (simp only: decode_hex4_def hex_loop.simps Let_def) simp
qed

lemma low_not_surrogate: "n < 128 \<Longrightarrow> int n AND 0xF800 \<noteq> 0xD800"
proof
  assume "n < 128" "int n AND 0xF800 = 0xD800"
  moreover have "int n AND 0xF800 \<le> int n" by (rule AND_upper1) simp
  ultimately show False by simp
qed

lemma unicode_escape_low:
  assumes "fits (0x5C # chr (CHR ''u'') # 48 # 48 # hex_digit (unat c div 16) # hex_digit (unat c mod 16) # r) t" "nul r" "c < 128"
  shows "\<exists>t'. json_append_unicode_escape (0x5C # chr (CHR ''u'') # 48 # 48 # hex_digit (unat c div 16) # hex_digit (unat c mod 16) # r) t =
    Some (Some (r, t')) \<and> fits r t' \<and> ssize t' = ssize t \<and> sb_text t' = sb_text t @ [c]"
proof -
  have n: "unat c < 128" using assms(3) by (simp add: word_less_nat_alt)
  have t: "sb_inv t" "slength t + length [c] < ssize t" using assms(1) by (simp_all add: fits_def)
  obtain t' where t': "strbuf_append_mem_unsafe t [c] = Some t'" "sb_inv t'" "ssize t' = ssize t" "slength t' = slength t + 1"
    "sb_text t' = sb_text t @ [c]" using append_mem_unsafe_ok [OF t] by auto
  have "int (unat c) \<le> 0x7F" using n by linarith
  then have "codepoint_to_utf8 (int (unat c)) = [c]" by (simp add: codepoint_to_utf8_def)
  then show ?thesis
    using t' decode_hex_byte [OF n, of r] low_not_surrogate [OF n] assms(1,2)
    by (simp add: json_append_unicode_escape_def append_utf8_def fits_def)
qed

text \<open>One character of a string and its text.\<close>

lemma esc_char_cases:
  obtains (plain) "esc_char c = [c]" "c \<noteq> 0" "c \<noteq> 0x22" "c \<noteq> 0x5C"
  | (short) e where "esc_char c = [0x5C, e]" "escape2char e = c" "c \<noteq> 0" "c \<noteq> chr (CHR ''u'')" "e \<noteq> 0"
  | (unicode) "esc_char c = [0x5C, chr (CHR ''u''), 48, 48, hex_digit (unat c div 16), hex_digit (unat c mod 16)]" "c < 128"
proof (cases "char2escape c")
  case None
  then have "c \<noteq> 0 \<and> c \<noteq> 0x22 \<and> c \<noteq> 0x5C" by (auto simp: char2escape_def split: if_splits)
  then show ?thesis using plain None by (simp add: esc_char_def)
next
  case (Some e)
  show ?thesis
  proof (cases "c \<in> {8, 9, 10, 12, 13, 0x22, 0x2F, 0x5C}")
    case True
    then obtain x where "e = [0x5C, x]" "escape2char x = c" "c \<noteq> 0" "c \<noteq> chr (CHR ''u'')" "x \<noteq> 0"
      using Some by (auto simp: char2escape_def escape2char_def chr_def)
    then show ?thesis using short Some by (simp add: esc_char_def)
  next
    case False
    then have "c < 32 \<or> c = 0x7F" using Some by (auto simp: char2escape_def split: if_splits)
    moreover from this have "c < 128" by (auto simp: word_less_nat_alt)
    ultimately show ?thesis using unicode Some False by (auto simp: char2escape_def esc_char_def)
  qed
qed

lemma string_loop_char:
  assumes "fits (esc_char c @ r) t" "nul r"
  shows "\<exists>t'. string_loop (esc_char c @ r) t = string_loop r t' \<and> fits r t' \<and> ssize t' = ssize t \<and> sb_text t' = sb_text t @ [c]"
proof (cases c rule: esc_char_cases)
  case plain
  have "slength t + 1 < ssize t" using assms plain by (cases r) (auto simp: fits_def nul_def)
  then obtain t' where "strbuf_append_char_unsafe t c = Some t'" "sb_inv t'" "ssize t' = ssize t" "slength t' = slength t + 1" "sb_text t' = sb_text t @ [c]"
    using append_char_unsafe_ok [of t c] assms(1) by (auto simp: fits_def)
  then show ?thesis using assms plain by (auto simp: string_loop.simps [of "c # r"] fits_def)
next
  case (short e)
  have "slength t + 1 < ssize t" using assms short by (auto simp: fits_def)
  then obtain t' where t': "strbuf_append_char_unsafe t c = Some t'" "sb_inv t'" "ssize t' = ssize t" "slength t' = slength t + 1" "sb_text t' = sb_text t @ [c]"
    using append_char_unsafe_ok [of t c] assms(1) by (auto simp: fits_def)
  then show ?thesis using assms short by (auto simp: string_loop.simps [of "0x5C # e # r"] fits_def Let_def)
next
  case unicode
  have "escape2char (chr (CHR ''u'')) = chr (CHR ''u'')" by (simp add: escape2char_def chr_def)
  moreover obtain t' where "json_append_unicode_escape (esc_char c @ r) t = Some (Some (r, t'))" "fits r t'" "ssize t' = ssize t" "sb_text t' = sb_text t @ [c]"
    using unicode_escape_low [of c r t] assms unicode by auto
  ultimately show ?thesis
    using unicode by (auto simp: string_loop.simps [of "0x5C # chr (CHR ''u'') # 48 # 48 # hex_digit (unat c div 16) # hex_digit (unat c mod 16) # r"] Let_def)
qed

lemma string_loop_text:
  "fits (esc_text cs @ 0x22 # r) t \<Longrightarrow> nul r \<Longrightarrow>
    \<exists>t'. string_loop (esc_text cs @ 0x22 # r) t = Some (Inr (), r, t') \<and> sb_inv t' \<and> ssize t' = ssize t \<and> sb_text t' = sb_text t @ cs"
proof (induction cs arbitrary: t)
  case Nil
  then show ?case by (simp add: esc_text_def string_loop.simps [of "0x22 # r"] fits_def)
next
  case (Cons c cs)
  have "nul (esc_text cs @ 0x22 # r)" using Cons.prems(2) by (simp add: nul_def)
  moreover have e: "esc_text (c # cs) @ 0x22 # r = esc_char c @ esc_text cs @ 0x22 # r" by (simp add: esc_text_def)
  ultimately obtain t1 where "string_loop (esc_text (c # cs) @ 0x22 # r) t = string_loop (esc_text cs @ 0x22 # r) t1"
    "fits (esc_text cs @ 0x22 # r) t1" "ssize t1 = ssize t" "sb_text t1 = sb_text t @ [c]"
    using string_loop_char [of c "esc_text cs @ 0x22 # r" t] Cons.prems(1) by auto
  then show ?case using Cons.IH [of t1] Cons.prems(2) by auto
qed

text \<open>A step of the tokenizer to a known token, leaving \<open>r\<close>.\<close>

definition reads :: "num_env \<Rightarrow> json_config \<Rightarrow> nat \<Rightarrow> json_parse \<Rightarrow> token \<Rightarrow> bytes \<Rightarrow> bool" where
  "reads env cfg size0 st tok r \<longleftrightarrow> (\<exists>ix st'. json_next_token env cfg size0 st = Some (tok, ix, st') \<and> st_ok size0 st' \<and> rest st' = r \<and>
     current_depth st' = current_depth st)"

lemma reads_string:
  assumes "st_ok size0 st" "rest st = str_text cs @ r" "nul r"
  shows "reads env cfg size0 st (TString cs) r"
proof -
  let ?t = "strbuf_reset (tmp st)"
  have l: "length (esc_text cs @ 0x22 # r) < size0" using assms(1,2) by (simp add: st_ok_def str_text_def)
  have t: "sb_inv ?t" "sb_text ?t = []" using strbuf_reset_ok [of "tmp st"] assms(1) by (auto simp: st_ok_def)
  have "nul (esc_text cs @ 0x22 # r)" using assms(3) by (simp add: nul_def)
  then have f: "fits (esc_text cs @ 0x22 # r) ?t"
    using l t assms(1) by (simp add: fits_def st_ok_def strbuf_reset_fields)
  obtain t1 where t1: "string_loop (esc_text cs @ 0x22 # r) ?t = Some (Inr (), r, t1)" "sb_inv t1" "ssize t1 = ssize (tmp st)" "sb_text t1 = cs"
    using string_loop_text [OF f assms(3)] t by (auto simp: strbuf_reset_fields)
  obtain t2 where t2: "strbuf_ensure_null t1 = Some t2" "sb_inv t2" "sb_text t2 = cs" "ssize t2 = ssize (tmp st)"
    using ensure_null_ok [OF t1(2)] t1 by auto
  have "json_next_string_token size0 ix (st\<lparr>rest := 0x22 # esc_text cs @ 0x22 # r\<rparr>) = Some (TString cs, ix, st\<lparr>rest := r, tmp := t2\<rparr>)" for ix
    using t1 t2 strbuf_string_ok [OF t2(2)] by (simp add: json_next_string_token_def)
  then show ?thesis
    using assms t2 l by (auto simp: reads_def json_next_token_def str_text_def ch2token_def Let_def st_ok_def)
qed

subsection \<open>Numbers\<close>

text \<open>
  The form of the text that \<^verbatim>\<open>%g\<close> gives for a finite number, with the decimal point \<open>dp\<close> of the locale: an optional
  minus, digits without a superfluous zero in front, optional decimals and an optional exponent.
\<close>

definition digits :: "bytes \<Rightarrow> bool" where
  "digits ds \<longleftrightarrow> ds \<noteq> [] \<and> list_all (\<lambda>c. 48 \<le> c \<and> c \<le> 57) ds"

definition decimals :: "byte \<Rightarrow> bytes \<Rightarrow> bool" where
  "decimals dp fr \<longleftrightarrow> fr = [] \<or> hd fr = dp \<and> digits (tl fr)"

definition exponent :: "bytes \<Rightarrow> bool" where
  "exponent ex \<longleftrightarrow> ex = [] \<or> (\<exists>s ds. ex = 101 # s # ds \<and> (s = 43 \<or> s = 45) \<and> digits ds)"

definition decimal_form :: "byte \<Rightarrow> bytes \<Rightarrow> bool" where
  "decimal_form dp p \<longleftrightarrow> (\<exists>sign ip fr ex. p = sign @ ip @ fr @ ex \<and> (sign = [] \<or> sign = [45]) \<and> digits ip \<and>
     (hd ip = 48 \<longrightarrow> ip = [48]) \<and> decimals dp fr \<and> exponent ex)"

definition point_ok :: "byte \<Rightarrow> bool" where
  "point_ok dp \<longleftrightarrow> dp \<noteq> 43 \<and> dp \<noteq> 45 \<and> dp \<noteq> 101 \<and> \<not> (48 \<le> dp \<and> dp \<le> 57)"

text \<open>What can follow a value in a text that the encoder wrote.\<close>

definition delim :: "byte \<Rightarrow> bool" where
  "delim c \<longleftrightarrow> c = 0x2C \<or> c = 0x5D \<or> c = 0x7D"

text \<open>
  The C library prints the number in this form in less than 32 characters, and \<^verbatim>\<open>strtod\<close> gives the number back from
  this text and stops behind it.
\<close>

definition num_back :: "num_env \<Rightarrow> json_config \<Rightarrow> double \<Rightarrow> bool" where
  "num_back env cfg d \<longleftrightarrow> \<not> d_isinf d \<and> \<not> d_isnan d \<and>
     (case set_number_format (encode_number_precision cfg) of None \<Rightarrow> False
      | Some fmt \<Rightarrow> let p = snprintf env fmt d in length p \<le> 31 \<and> decimal_form (locale_decimal_point env) p \<and>
          (\<forall>r. r = [] \<or> delim (hd r) \<longrightarrow> strtod env (p @ r) = (d, length p)))"

lemma num_back_fits: "num_back env cfg d \<Longrightarrow> num_fits env cfg d"
  by (auto simp: num_back_def num_fits_def fpconv_g_fmt_def Let_def FPCONV_G_FMT_BUFSIZE_def split: option.splits)

lemma digits_mem: "digits ds \<Longrightarrow> c \<in> set ds \<Longrightarrow> 48 \<le> c \<and> c \<le> 57"
  by (simp add: digits_def list_all_iff)

lemma replace_point_skip: "46 \<notin> set xs \<Longrightarrow> replace_point dp (xs @ ys) = xs @ replace_point dp ys"
  by (induction xs) auto

lemma replace_point_id: "46 \<notin> set xs \<Longrightarrow> replace_point dp xs = xs"
  using replace_point_skip [of xs dp "[]"] by simp

lemma map_point_id: "dp \<notin> set xs \<Longrightarrow> map (\<lambda>b. if b = dp then 46 else b) xs = xs"
  by (induction xs) auto

lemma form_chars:
  assumes "point_ok dp" "sign = [] \<or> sign = [45]" "digits ip" "exponent ex"
  shows "dp \<notin> set (sign @ ip)" "dp \<notin> set ex"
proof -
  have "dp \<notin> set ds" if "digits ds" for ds using digits_mem [OF that, of dp] assms(1) by (auto simp: point_ok_def)
  then show "dp \<notin> set (sign @ ip)" "dp \<notin> set ex" using assms by (auto simp: point_ok_def exponent_def)
qed

text \<open>Translating the decimal point on the way out, and back on the way in.\<close>

lemma point_translated:
  assumes "decimal_form dp p" "point_ok dp"
  shows "decimal_form 46 (map (\<lambda>b. if b = dp then 46 else b) p)"
    "replace_point dp (map (\<lambda>b. if b = dp then 46 else b) p) = p"
proof -
  let ?f = "\<lambda>b. if b = dp then 46 else b"
  obtain sign ip fr ex where p: "p = sign @ ip @ fr @ ex" "sign = [] \<or> sign = [45]" "digits ip" "hd ip = 48 \<longrightarrow> ip = [48]"
    "decimals dp fr" "exponent ex" using assms(1) unfolding decimal_form_def by blast
  have "point_ok 46" by (simp add: point_ok_def)
  note dot = form_chars [OF this p(2,3,6)] and n = form_chars [OF assms(2) p(2,3,6)]
  have fr: "map ?f fr = (if fr = [] then [] else 46 # tl fr)" "46 \<notin> set (tl fr)"
  proof -
    have "dp \<notin> set (tl fr)" "46 \<notin> set (tl fr)" using digits_mem [of "tl fr" dp] digits_mem [of "tl fr" 46] p(5) assms(2) by (auto simp: decimals_def point_ok_def)
    then show "map ?f fr = (if fr = [] then [] else 46 # tl fr)" "46 \<notin> set (tl fr)"
      using p(5) map_point_id [of dp "tl fr"] by (cases fr; auto simp: decimals_def)+
  qed
  have m: "map ?f p = (sign @ ip) @ map ?f fr @ ex" using n p(1) by (simp add: map_point_id)
  show "decimal_form 46 (map ?f p)" unfolding m decimal_form_def
    by (rule exI [of _ sign], rule exI [of _ ip], rule exI [of _ "map ?f fr"], rule exI [of _ ex]) (use p fr in \<open>auto simp: decimals_def\<close>)
  have "replace_point dp (map ?f p) = (sign @ ip) @ replace_point dp (map ?f fr @ ex)"
    unfolding m using dot by (intro replace_point_skip) simp
  also have "replace_point dp (map ?f fr @ ex) = fr @ ex"
    using fr p(5) dot replace_point_id [of ex dp] by (cases fr) (auto simp: decimals_def)
  finally show "replace_point dp (map ?f p) = p" using p(1) by simp
qed

text \<open>The text of a number: what the tokenizer looks at.\<close>

lemma decimal_form_start:
  assumes "decimal_form 46 t"
  obtains (neg) d ds where "t = 45 # d # ds" "48 \<le> d" "d \<le> 57" "d = 48 \<Longrightarrow> ds = [] \<or> hd ds = 46 \<or> hd ds = 101"
  | (pos) d ds where "t = d # ds" "48 \<le> d" "d \<le> 57" "d = 48 \<Longrightarrow> ds = [] \<or> hd ds = 46 \<or> hd ds = 101"
proof -
  obtain sign ip fr ex where p: "t = sign @ ip @ fr @ ex" "sign = [] \<or> sign = [45]" "digits ip" "hd ip = 48 \<longrightarrow> ip = [48]"
    "decimals 46 fr" "exponent ex" using assms unfolding decimal_form_def by blast
  obtain d ds where ip: "ip = d # ds" using p(3) by (cases ip) (auto simp: digits_def)
  have d: "48 \<le> d" "d \<le> 57" using digits_mem [OF p(3), of d] ip by auto
  have h: "ds @ fr @ ex = [] \<or> hd (ds @ fr @ ex) = 46 \<or> hd (ds @ fr @ ex) = 101" if "d = 48"
    using that p(4-6) ip by (cases fr) (auto simp: decimals_def exponent_def)
  show thesis
  proof (cases "sign = []")
    case True
    then show thesis using pos [of d "ds @ fr @ ex"] p(1) ip d h by simp
  next
    case False
    then show thesis using neg [of d "ds @ fr @ ex"] p(1,2) ip d h by simp
  qed
qed

lemma digit_valid: "48 \<le> c \<Longrightarrow> c \<le> 57 \<Longrightarrow> valid_number_character c"
  by (simp add: valid_number_character_def)

lemma decimal_form_valid: "decimal_form 46 t \<Longrightarrow> c \<in> set t \<Longrightarrow> valid_number_character c"
proof -
  assume a: "decimal_form 46 t" "c \<in> set t"
  obtain sign ip fr ex where p: "t = sign @ ip @ fr @ ex" "sign = [] \<or> sign = [45]" "digits ip" "decimals 46 fr" "exponent ex"
    using a(1) unfolding decimal_form_def by blast
  have "valid_number_character x" if "digits ds" "x \<in> set ds" for x ds
    using digits_mem [OF that] digit_valid by blast
  moreover have "valid_number_character x" if "x \<in> {43, 45, 46, 101}" for x
    using that by (auto simp: valid_number_character_def)
  ultimately show ?thesis using a(2) p by (cases fr) (auto simp: decimals_def exponent_def)
qed

lemma digit_sint: "48 \<le> d \<Longrightarrow> d \<le> 57 \<Longrightarrow> sint (d :: byte) \<le> 57"
proof -
  assume "48 \<le> d" "d \<le> 57"
  then have "uint d \<le> 57" by (simp add: word_le_def)
  moreover from this have "signed_take_bit 7 (uint d) = uint d"
    by (intro signed_take_bit_int_eq_self order_trans [OF _ uint_ge_0]) auto
  ultimately show ?thesis by (simp add: sint_uint)
qed

lemma follow_not_digit: "c = 46 \<or> c = 101 \<or> c = 0 \<or> delim c \<Longrightarrow> c OR 0x20 \<noteq> chr (CHR ''x'') \<and> \<not> (48 \<le> c \<and> c \<le> 57)"
  by (auto simp: delim_def chr_def)

lemma number_not_invalid:
  assumes "decimal_form 46 t" "r \<noteq> []" "hd r = 0 \<or> delim (hd r)"
  shows "json_is_invalid_number (t @ r) = Some False"
proof -
  have z: "case ds @ r of [] \<Rightarrow> False | c # _ \<Rightarrow> c OR 0x20 \<noteq> chr (CHR ''x'') \<and> \<not> (48 \<le> c \<and> c \<le> 57)"
    if "ds = [] \<or> hd ds = 46 \<or> hd ds = 101" for ds
    using that follow_not_digit [of "hd (ds @ r)"] assms(2,3) by (cases ds; cases r) auto
  show ?thesis
    using assms(1)
  proof (cases rule: decimal_form_start)
    case (neg d ds)
    then show ?thesis using z [of ds] digit_sint [of d] by (auto simp: json_is_invalid_number_def split: list.splits)
  next
    case (pos d ds)
    then show ?thesis using z [of ds] digit_sint [of d] by (auto simp: json_is_invalid_number_def split: list.splits)
  qed
qed

lemma delim_not_valid: "c = 0 \<or> delim c \<Longrightarrow> \<not> valid_number_character c"
  by (auto simp: valid_number_character_def delim_def Let_def)

lemma num_text_form:
  assumes "num_back env cfg d" "point_ok (locale_decimal_point env)"
  obtains p where
    "num_text env cfg d = (if locale_decimal_point env = 46 then p else map (\<lambda>b. if b = locale_decimal_point env then 46 else b) p)"
    "decimal_form (locale_decimal_point env) p" "\<forall>r. r = [] \<or> delim (hd r) \<longrightarrow> strtod env (p @ r) = (d, length p)"
    "decimal_form 46 (num_text env cfg d)"
proof -
  let ?dp = "locale_decimal_point env" and ?t = "num_text env cfg d"
  obtain fmt where fmt: "set_number_format (encode_number_precision cfg) = Some fmt" using assms(1) by (auto simp: num_back_def split: option.splits)
  define p where "p = snprintf env fmt d"
  have p: "length p \<le> 31" "decimal_form ?dp p" "\<forall>r. r = [] \<or> delim (hd r) \<longrightarrow> strtod env (p @ r) = (d, length p)"
    using assms(1) fmt by (auto simp: num_back_def p_def Let_def)
  have t: "?t = (if ?dp = 46 then p else map (\<lambda>b. if b = ?dp then 46 else b) p)"
    using fmt p(1) by (simp add: num_text_def fpconv_g_fmt_def Let_def FPCONV_G_FMT_BUFSIZE_def p_def)
  then have "decimal_form 46 ?t" using p(2) point_translated(1) [OF p(2) assms(2)] by auto
  with t p(2,3) show thesis using that by blast
qed

lemma num_text_chars:
  assumes "num_back env cfg d" "point_ok (locale_decimal_point env)"
  shows "num_text env cfg d \<noteq> []" "0 \<notin> set (num_text env cfg d)" "\<forall>c \<in> set (num_text env cfg d). valid_number_character c"
proof -
  have form: "decimal_form 46 (num_text env cfg d)" using num_text_form [OF assms] .
  then show v: "\<forall>c \<in> set (num_text env cfg d). valid_number_character c" using decimal_form_valid by blast
  show "0 \<notin> set (num_text env cfg d)" using v valid_zero by blast
  show "num_text env cfg d \<noteq> []" using form by (cases rule: decimal_form_start) auto
qed

lemma reads_number:
  assumes "st_ok size0 st" "num_back env cfg d" "point_ok (locale_decimal_point env)" "rest st = num_text env cfg d @ r" "nul r" "hd r = 0 \<or> delim (hd r)"
  shows "reads env cfg size0 st (TNumber d) r"
proof -
  let ?dp = "locale_decimal_point env" and ?t = "num_text env cfg d"
  obtain p where t: "?t = (if ?dp = 46 then p else map (\<lambda>b. if b = ?dp then 46 else b) p)" and
    p: "decimal_form ?dp p" "\<forall>r. r = [] \<or> delim (hd r) \<longrightarrow> strtod env (p @ r) = (d, length p)" and form: "decimal_form 46 ?t"
    by (rule num_text_form [OF assms(2,3)])
  have len: "length ?t = length p" using t by simp
  note ne = num_text_chars(1) [OF assms(2,3)] and nz = num_text_chars(2) [OF assms(2,3)] and valid = num_text_chars(3) [OF assms(2,3)]
  have r: "r \<noteq> []" using assms(5) by (simp add: nul_def)
  have v: "fpconv_strtod env (?t @ r) = (d, length ?t)"
  proof (cases "?dp = 46")
    case True
    have "zstr (?t @ r) = ?t @ zstr r" unfolding zstr_def using nz by (intro takeWhile_append2) auto
    moreover have "zstr r = [] \<or> delim (hd (zstr r))" using assms(6) r by (cases r) (auto simp: zstr_def delim_def)
    ultimately show ?thesis using True t p(2) [rule_format, of "zstr r"] by (simp add: fpconv_strtod_def)
  next
    case False
    have "takeWhile valid_number_character (?t @ r) = ?t" using valid delim_not_valid [OF assms(6)] r by (cases r) (simp_all add: takeWhile_append2)
    then show ?thesis using False ne t len p(2) [rule_format, of "[]"] point_translated(2) [OF p(1) assms(3)] by (simp add: fpconv_strtod_def)
  qed
  obtain c cs where c: "?t = c # cs" "c = 45 \<or> 48 \<le> c \<and> c \<le> 57" using form by (cases rule: decimal_form_start) auto
  have k: "ch2token c = T_UNKNOWN" "c \<noteq> 0x22" using c(2) by (auto simp: ch2token_def)
  have "json_next_number_token env size0 ix (st\<lparr>rest := ?t @ r\<rparr>) = Some (TNumber d, ix, st\<lparr>rest := r\<rparr>)" for ix
    using v ne r assms(4) by (simp add: json_next_number_token_def)
  then have "json_next_token env cfg size0 st = Some (TNumber d, position size0 (rest st), st\<lparr>rest := r\<rparr>)"
    using number_not_invalid [OF form r assms(6)] k c assms(4) by (simp add: json_next_token_def Let_def)
  then show ?thesis using assms(1,4,5) by (simp add: reads_def st_ok_def)
qed

end
