(* ===== verification/Cjson_Props.thy ===== *)
theory Cjson_Props
  imports Cjson_Lex
begin

text \<open>
  Encoding and decoding together: the parser rebuilds from the text of a document the Lua value that the document stands
  for.
\<close>

subsection \<open>The other tokens\<close>

lemma reads_symbol:
  assumes "st_ok size0 st" "rest st = c # r" "nul r" "ch2token c \<notin> {T_ERROR, T_END, T_UNKNOWN, T_WHITESPACE}"
  shows "reads env cfg size0 st (TSymbol (ch2token c)) r"
  using assms by (simp add: reads_def json_next_token_def Let_def st_ok_def)

lemma ch2token_marks: "ch2token 0x5B = T_ARR_BEGIN" "ch2token 0x5D = T_ARR_END" "ch2token 0x7B = T_OBJ_BEGIN"
  "ch2token 0x7D = T_OBJ_END" "ch2token 0x2C = T_COMMA" "ch2token 0x3A = T_COLON"
  by (simp_all add: ch2token_def)

lemma reads_mark:
  assumes "st_ok size0 st" "nul r"
  shows "rest st = 0x5B # r \<Longrightarrow> reads env cfg size0 st (TSymbol T_ARR_BEGIN) r"
    "rest st = 0x5D # r \<Longrightarrow> reads env cfg size0 st (TSymbol T_ARR_END) r"
    "rest st = 0x7B # r \<Longrightarrow> reads env cfg size0 st (TSymbol T_OBJ_BEGIN) r"
    "rest st = 0x7D # r \<Longrightarrow> reads env cfg size0 st (TSymbol T_OBJ_END) r"
    "rest st = 0x2C # r \<Longrightarrow> reads env cfg size0 st (TSymbol T_COMMA) r"
    "rest st = 0x3A # r \<Longrightarrow> reads env cfg size0 st (TSymbol T_COLON) r"
  using reads_symbol [OF assms(1) _ assms(2), of "0x5B"] reads_symbol [OF assms(1) _ assms(2), of "0x5D"]
    reads_symbol [OF assms(1) _ assms(2), of "0x7B"] reads_symbol [OF assms(1) _ assms(2), of "0x7D"]
    reads_symbol [OF assms(1) _ assms(2), of "0x2C"] reads_symbol [OF assms(1) _ assms(2), of "0x3A"]
  by (simp_all add: ch2token_marks)

lemma reads_end:
  assumes "st_ok size0 st" "hd (rest st) = 0"
  shows "reads env cfg size0 st (TSymbol T_END) (rest st)"
  using assms by (cases "rest st") (auto simp: reads_def json_next_token_def Let_def st_ok_def nul_def ch2token_def)

lemma reads_word:
  assumes "st_ok size0 st" "nul r"
  shows "rest st = str ''true'' @ r \<Longrightarrow> reads env cfg size0 st (TBoolean True) r"
    "rest st = str ''false'' @ r \<Longrightarrow> reads env cfg size0 st (TBoolean False) r"
    "rest st = str ''null'' @ r \<Longrightarrow> reads env cfg size0 st (TSymbol T_NULL) r"
  using assms by (simp_all add: reads_def json_next_token_def Let_def st_ok_def str_def chr_def ch2token_def)

subsection \<open>Values\<close>

text \<open>Reading a token and then a value in a context gives \<open>v\<close>, leaves \<open>r\<close> and changes the depth by \<open>k\<close>.\<close>

definition parses :: "num_env \<Rightarrow> json_config \<Rightarrow> nat \<Rightarrow> nat \<Rightarrow> parse_ctx \<Rightarrow> json_parse \<Rightarrow> lua_value \<Rightarrow> bytes \<Rightarrow> int \<Rightarrow> bool" where
  "parses env cfg size0 n c st v r k \<longleftrightarrow>
     (\<exists>tok ix st1 st2. json_next_token env cfg size0 st = Some (tok, ix, st1) \<and> tok \<noteq> TSymbol T_ARR_END \<and> tok \<noteq> TSymbol T_OBJ_END \<and>
        parse_context n env cfg size0 c tok ix st1 = DOk (v, st2) \<and> st_ok size0 st2 \<and> rest st2 = r \<and> current_depth st2 = current_depth st + k)"

definition follows :: "bytes \<Rightarrow> bool" where
  "follows r \<longleftrightarrow> nul r \<and> (hd r = 0 \<or> delim (hd r))"

lemma to_lua_not_nil: "to_lua j \<noteq> LNil"
  by (cases j) auto

lemma length_array_pairs: "length (array_pairs vs) = length vs"
  by (simp add: array_pairs_def del: upt_Suc)

lemma array_pairs_snoc: "array_pairs (vs @ [v]) = array_pairs vs @ [(lua_int (int (length vs) + 1), v)]"
  using upt_Suc_append [of 1 "length vs + 1"] by (simp add: array_pairs_def add.commute del: upt_Suc)

lemma array_rawset:
  assumes "length vs + 1 < 2 ^ 31" "v \<noteq> LNil"
  shows "rawset (array_pairs vs) (lua_int (int (length vs) + 1)) v = array_pairs (vs @ [v])"
proof -
  have "lua_int (int (length vs) + 1) \<notin> fst ` set (array_pairs vs)"
  proof
    assume "lua_int (int (length vs) + 1) \<in> fst ` set (array_pairs vs)"
    then obtain k where k: "k \<in> {1..<length vs + 1}" "lua_int (int (length vs) + 1) = lua_int (int k)"
      by (auto simp: array_pairs_def dest!: set_zip_leftD simp del: upt_Suc)
    then show False using lua_int_inj [of "length vs + 1" k] assms(1) by (simp add: add.commute)
  qed
  then show ?thesis using assms(2) by (simp add: rawset_new array_pairs_snoc)
qed

text \<open>What the induction gives for the values inside.\<close>

definition value_ok :: "num_env \<Rightarrow> json_config \<Rightarrow> nat \<Rightarrow> json \<Rightarrow> bool" where
  "value_ok env cfg size0 j \<longleftrightarrow>
     (\<forall>st n r. st_ok size0 st \<longrightarrow> rest st = print_json env cfg j @ r \<longrightarrow> follows r \<longrightarrow>
        current_depth st + int (jdepth j) \<le> decode_max_depth cfg \<longrightarrow> length (print_json env cfg j) \<le> n \<longrightarrow>
        parses env cfg size0 n ValueContext st (to_lua j) r 0)"

lemma value_okD:
  assumes "value_ok env cfg size0 j" "st_ok size0 st" "rest st = print_json env cfg j @ r" "follows r"
    "current_depth st + int (jdepth j) \<le> decode_max_depth cfg" "length (print_json env cfg j) \<le> n"
  obtains tok ix st1 st2 where "json_next_token env cfg size0 st = Some (tok, ix, st1)" "tok \<noteq> TSymbol T_ARR_END" "tok \<noteq> TSymbol T_OBJ_END"
    "parse_context n env cfg size0 ValueContext tok ix st1 = DOk (to_lua j, st2)" "st_ok size0 st2" "rest st2 = r" "current_depth st2 = current_depth st"
proof -
  have "parses env cfg size0 n ValueContext st (to_lua j) r 0" using assms unfolding value_ok_def by blast
  then show thesis using that unfolding parses_def by auto
qed

lemma readsD:
  assumes "reads env cfg size0 st tok r"
  obtains ix st' where "json_next_token env cfg size0 st = Some (tok, ix, st')" "st_ok size0 st'" "rest st' = r" "current_depth st' = current_depth st"
  using assms by (auto simp: reads_def)

lemma array_context:
  assumes "js \<noteq> []" "\<And>j. j \<in> set js \<Longrightarrow> value_ok env cfg size0 j"
    "st_ok size0 st" "rest st = join (map (print_json env cfg) js) @ 0x5D # r" "nul r"
    "\<And>j. j \<in> set js \<Longrightarrow> current_depth st + int (jdepth j) \<le> decode_max_depth cfg"
    "length (join (map (print_json env cfg) js)) < n" "length vs + length js < 2 ^ 31"
  shows "parses env cfg size0 n (ArrayContext (array_pairs vs) (int (length vs) + 1)) st (LTable (array_pairs (vs @ map to_lua js))) r (-1)"
  using assms
proof (induction js arbitrary: st n vs)
  case (Cons j js)
  obtain m where n: "n = Suc m" using Cons.prems(7) by (cases n) auto
  let ?r1 = "if js = [] then 0x5D # r else 0x2C # join (map (print_json env cfg) js) @ 0x5D # r"
  have rest: "rest st = print_json env cfg j @ ?r1" using Cons.prems(4) by (cases js) auto
  have f: "follows ?r1" using Cons.prems(5) by (auto simp: follows_def nul_def delim_def)
  have l: "length (print_json env cfg j) \<le> m" using Cons.prems(7) n by (cases js) auto
  have vj: "value_ok env cfg size0 j" "current_depth st + int (jdepth j) \<le> decode_max_depth cfg" using Cons.prems(2,6) by auto
  obtain tok ix st1 st2 where v: "json_next_token env cfg size0 st = Some (tok, ix, st1)" "tok \<noteq> TSymbol T_ARR_END" "tok \<noteq> TSymbol T_OBJ_END"
    "parse_context m env cfg size0 ValueContext tok ix st1 = DOk (to_lua j, st2)" "st_ok size0 st2" "rest st2 = ?r1" "current_depth st2 = current_depth st"
    by (rule value_okD [OF vj(1) Cons.prems(3) rest f vj(2) l])
  have set: "rawset (array_pairs vs) (lua_int (int (length vs) + 1)) (to_lua j) = array_pairs (vs @ [to_lua j])"
    using Cons.prems(8) to_lua_not_nil by (intro array_rawset) auto
  show ?case
  proof (cases "js = []")
    case True
    then have "reads env cfg size0 st2 (TSymbol T_ARR_END) r" using reads_mark(2) [OF v(5) Cons.prems(5)] v(6) by simp
    then obtain ix3 st3 where "json_next_token env cfg size0 st2 = Some (TSymbol T_ARR_END, ix3, st3)" "st_ok size0 st3" "rest st3 = r"
      "current_depth st3 = current_depth st2" by (rule readsD)
    then show ?thesis using v set True by (simp add: parses_def n parse_context.simps(2) json_decode_ascend_def st_ok_def)
  next
    case False
    let ?r2 = "join (map (print_json env cfg) js) @ 0x5D # r"
    have "nul ?r2" using Cons.prems(5) by (simp add: nul_def)
    then have "reads env cfg size0 st2 (TSymbol T_COMMA) ?r2" using reads_mark(5) [OF v(5)] v(6) False by simp
    then obtain ix3 st3 where s3: "json_next_token env cfg size0 st2 = Some (TSymbol T_COMMA, ix3, st3)" "st_ok size0 st3" "rest st3 = ?r2"
      "current_depth st3 = current_depth st2" by (rule readsD)
    have "length (join (map (print_json env cfg) js)) < m" using Cons.prems(7) False n by (cases js) auto
    then have "parses env cfg size0 m (ArrayContext (array_pairs (vs @ [to_lua j])) (int (length (vs @ [to_lua j])) + 1)) st3
        (LTable (array_pairs ((vs @ [to_lua j]) @ map to_lua js))) r (-1)"
      using Cons.prems s3 v(7) False by (intro Cons.IH) auto
    then obtain tok4 ix4 st4 st5 where "json_next_token env cfg size0 st3 = Some (tok4, ix4, st4)"
      "parse_context m env cfg size0 (ArrayContext (array_pairs (vs @ [to_lua j])) (2 + int (length vs))) tok4 ix4 st4 =
        DOk (LTable (array_pairs (vs @ to_lua j # map to_lua js)), st5)"
      "st_ok size0 st5" "rest st5 = r" "current_depth st5 = current_depth st3 - 1" by (auto simp: parses_def)
    then show ?thesis using v(1-3) v(4,7) s3(1,4) set by (simp add: parses_def n parse_context.simps(2))
  qed
qed simp

definition member_text :: "num_env \<Rightarrow> json_config \<Rightarrow> bytes \<times> json \<Rightarrow> bytes" where
  "member_text env cfg m = str_text (fst m) @ 0x3A # print_json env cfg (snd m)"

definition object_pairs :: "(bytes \<times> json) list \<Rightarrow> (lua_value \<times> lua_value) list" where
  "object_pairs ms = map (\<lambda>(k, j). (LString k, to_lua j)) ms"

lemma object_rawset:
  assumes "k \<notin> fst ` set ms"
  shows "rawset (object_pairs ms) (LString k) (to_lua j) = object_pairs (ms @ [(k, j)])"
  using assms to_lua_not_nil by (subst rawset_new) (force simp: object_pairs_def)+

lemma object_context:
  assumes "ms \<noteq> []" "\<And>m. m \<in> set ms \<Longrightarrow> value_ok env cfg size0 (snd m)"
    "st_ok size0 st" "rest st = join (map (member_text env cfg) ms) @ 0x7D # r" "nul r"
    "\<And>m. m \<in> set ms \<Longrightarrow> current_depth st + int (jdepth (snd m)) \<le> decode_max_depth cfg"
    "length (join (map (member_text env cfg) ms)) < n" "distinct (map fst (ms0 @ ms))"
  shows "parses env cfg size0 n (ObjectContext (object_pairs ms0)) st (LTable (object_pairs (ms0 @ ms))) r (-1)"
  using assms
proof (induction ms arbitrary: st n ms0)
  case (Cons m ms)
  obtain q where n: "n = Suc q" using Cons.prems(7) by (cases n) auto
  obtain k j where m: "m = (k, j)" by fastforce
  let ?tail = "join (map (member_text env cfg) ms) @ 0x7D # r"
  let ?r3 = "if ms = [] then 0x7D # r else 0x2C # ?tail"
  have nulr: "nul ?tail" "nul (0x7D # r)" using Cons.prems(5) by (simp_all add: nul_def)
  have f: "follows ?r3" using Cons.prems(5) by (auto simp: follows_def nul_def delim_def)
  have "rest st = str_text k @ 0x3A # print_json env cfg j @ ?r3" using Cons.prems(4) by (cases ms) (auto simp: m member_text_def [of _ _ "(k, j)"])
  moreover have n2: "nul (print_json env cfg j @ ?r3)" "nul (0x3A # print_json env cfg j @ ?r3)" using f by (simp_all add: follows_def nul_def)
  ultimately have "reads env cfg size0 st (TString k) (0x3A # print_json env cfg j @ ?r3)" using Cons.prems(3) by (intro reads_string)
  then obtain ix0 st0 where s0: "json_next_token env cfg size0 st = Some (TString k, ix0, st0)" "st_ok size0 st0"
    "rest st0 = 0x3A # print_json env cfg j @ ?r3" "current_depth st0 = current_depth st" by (rule readsD)
  have "reads env cfg size0 st0 (TSymbol T_COLON) (print_json env cfg j @ ?r3)" using reads_mark(6) [OF s0(2) n2(1) s0(3)] .
  then obtain ix1 st1 where s1: "json_next_token env cfg size0 st0 = Some (TSymbol T_COLON, ix1, st1)" "st_ok size0 st1"
    "rest st1 = print_json env cfg j @ ?r3" "current_depth st1 = current_depth st0" by (rule readsD)
  have l: "length (print_json env cfg j) \<le> q" using Cons.prems(7) n by (cases ms) (auto simp: m member_text_def [of _ _ "(k, j)"])
  have vj: "value_ok env cfg size0 j" "current_depth st1 + int (jdepth j) \<le> decode_max_depth cfg"
    using Cons.prems(2,6) [of m] s0 s1 by (auto simp: m)
  obtain tok ix st2 st3 where v: "json_next_token env cfg size0 st1 = Some (tok, ix, st2)"
    "parse_context q env cfg size0 ValueContext tok ix st2 = DOk (to_lua j, st3)" "st_ok size0 st3" "rest st3 = ?r3" "current_depth st3 = current_depth st1"
    by (rule value_okD [OF vj(1) s1(2,3) f vj(2) l])
  have set: "rawset (object_pairs ms0) (LString k) (to_lua j) = object_pairs (ms0 @ [m])"
    using Cons.prems(8) unfolding m by (intro object_rawset) auto
  show ?case
  proof (cases "ms = []")
    case True
    then have "reads env cfg size0 st3 (TSymbol T_OBJ_END) r" using reads_mark(4) [OF v(3) Cons.prems(5)] v(4) by simp
    then obtain ix4 st4 where "json_next_token env cfg size0 st3 = Some (TSymbol T_OBJ_END, ix4, st4)" "st_ok size0 st4" "rest st4 = r"
      "current_depth st4 = current_depth st3" by (rule readsD)
    then show ?thesis using v s0 s1 set True by (simp add: parses_def n parse_context.simps(2) json_decode_ascend_def st_ok_def)
  next
    case False
    then have "reads env cfg size0 st3 (TSymbol T_COMMA) ?tail" using reads_mark(5) [OF v(3) nulr(1)] v(4) by simp
    then obtain ix4 st4 where s4: "json_next_token env cfg size0 st3 = Some (TSymbol T_COMMA, ix4, st4)" "st_ok size0 st4" "rest st4 = ?tail"
      "current_depth st4 = current_depth st3" by (rule readsD)
    have "length (join (map (member_text env cfg) ms)) < q" using Cons.prems(7) False n by (cases ms) auto
    then have "parses env cfg size0 q (ObjectContext (object_pairs (ms0 @ [m]))) st4 (LTable (object_pairs ((ms0 @ [m]) @ ms))) r (-1)"
      using Cons.prems s0 s1 s4 v(5) False by (intro Cons.IH) auto
    then obtain tok5 ix5 st5 st6 where "json_next_token env cfg size0 st4 = Some (tok5, ix5, st5)"
      "parse_context q env cfg size0 (ObjectContext (object_pairs (ms0 @ [m]))) tok5 ix5 st5 = DOk (LTable (object_pairs (ms0 @ m # ms)), st6)"
      "st_ok size0 st6" "rest st6 = r" "current_depth st6 = current_depth st4 - 1" by (auto simp: parses_def)
    then show ?thesis using v s0 s1 s4(1,4) set by (simp add: parses_def n parse_context.simps(2))
  qed
qed simp

lemma descend_ok:
  "current_depth st + 1 \<le> decode_max_depth cfg \<Longrightarrow> json_decode_descend cfg size0 st = DOk (st\<lparr>current_depth := current_depth st + 1\<rparr>)"
  by (simp add: json_decode_descend_def)

lemma length_join_ge: "length xs \<le> length (join xs) + 1"
  by (induction xs rule: join.induct) auto

text \<open>A token that is a value of its own.\<close>

lemma parses_atom:
  assumes "reads env cfg size0 st tok r" "0 < n" "tok \<noteq> TSymbol T_ARR_END" "tok \<noteq> TSymbol T_OBJ_END"
    "\<And>m ix st'. parse_context (Suc m) env cfg size0 ValueContext tok ix st' = DOk (v, st')"
  shows "parses env cfg size0 n ValueContext st v r 0"
  using assms by (cases n) (auto simp: parses_def reads_def)

lemma value_ok_array:
  assumes "js \<noteq> []" "size0 < 2 ^ 31" "\<And>j. j \<in> set js \<Longrightarrow> value_ok env cfg size0 j"
  shows "value_ok env cfg size0 (JArr js)"
proof -
  let ?txt = "join (map (print_json env cfg) js)"
  show ?thesis unfolding value_ok_def
  proof (intro allI impI)
    fix st n r
    assume a: "st_ok size0 st" "rest st = print_json env cfg (JArr js) @ r" "follows r"
      "current_depth st + int (jdepth (JArr js)) \<le> decode_max_depth cfg" "length (print_json env cfg (JArr js)) \<le> n"
    obtain m where n: "n = Suc m" using a(5) by (cases n) auto
    have nr: "nul r" "nul (?txt @ 0x5D # r)" using a(3) by (auto simp: follows_def nul_def)
    have "reads env cfg size0 st (TSymbol T_ARR_BEGIN) (?txt @ 0x5D # r)" using reads_mark(1) [OF a(1) nr(2)] a(2) by simp
    then obtain ix st1 where s1: "json_next_token env cfg size0 st = Some (TSymbol T_ARR_BEGIN, ix, st1)" "st_ok size0 st1"
      "rest st1 = ?txt @ 0x5D # r" "current_depth st1 = current_depth st" by (rule readsD)
    let ?st = "st1\<lparr>current_depth := current_depth st1 + 1\<rparr>"
    have "length js < 2 ^ 31" using length_join_ge [of "map (print_json env cfg) js"] s1(2,3) assms(2) by (simp add: st_ok_def)
    moreover have "current_depth ?st + int (jdepth j) \<le> decode_max_depth cfg" if "j \<in> set js" for j
      using jdepth_arr [OF that] a(4) s1(4) by simp
    ultimately have "parses env cfg size0 m (ArrayContext (array_pairs []) (int (length ([] :: lua_value list)) + 1)) ?st (LTable (array_pairs ([] @ map to_lua js))) r (-1)"
      using assms(1,3) s1 nr a(5) n by (intro array_context) auto
    then show "parses env cfg size0 n ValueContext st (to_lua (JArr js)) r 0"
      using s1 a(4) descend_ok [of st1 cfg size0] unfolding to_lua_array
      by (auto simp: parses_def n parse_context.simps(2) array_pairs_def simp del: to_lua.simps)
  qed
qed

lemma value_ok_object:
  assumes "distinct (map fst ms)" "\<And>m. m \<in> set ms \<Longrightarrow> value_ok env cfg size0 (snd m)"
  shows "value_ok env cfg size0 (JObj ms)"
proof -
  let ?txt = "join (map (member_text env cfg) ms)"
  have text_eq: "print_json env cfg (JObj ms) = 0x7B # ?txt @ [0x7D]" by (simp add: member_text_def [abs_def] case_prod_unfold)
  show ?thesis unfolding value_ok_def text_eq
  proof (intro allI impI)
    fix st n r
    assume a: "st_ok size0 st" "rest st = (0x7B # ?txt @ [0x7D]) @ r" "follows r"
      "current_depth st + int (jdepth (JObj ms)) \<le> decode_max_depth cfg" "length (0x7B # ?txt @ [0x7D]) \<le> n"
    obtain m where n: "n = Suc m" using a(5) by (cases n) auto
    have nr: "nul r" "nul (?txt @ 0x7D # r)" using a(3) by (auto simp: follows_def nul_def)
    have "reads env cfg size0 st (TSymbol T_OBJ_BEGIN) (?txt @ 0x7D # r)" using reads_mark(3) [OF a(1) nr(2)] a(2) by simp
    then obtain ix st1 where s1: "json_next_token env cfg size0 st = Some (TSymbol T_OBJ_BEGIN, ix, st1)" "st_ok size0 st1"
      "rest st1 = ?txt @ 0x7D # r" "current_depth st1 = current_depth st" by (rule readsD)
    let ?st = "st1\<lparr>current_depth := current_depth st1 + 1\<rparr>"
    show "parses env cfg size0 n ValueContext st (to_lua (JObj ms)) r 0"
    proof (cases "ms = []")
      case True
      then have "reads env cfg size0 ?st (TSymbol T_OBJ_END) r" using reads_mark(4) [of size0 ?st r] s1 nr by simp
      then obtain ix2 st2 where "json_next_token env cfg size0 ?st = Some (TSymbol T_OBJ_END, ix2, st2)" "st_ok size0 st2" "rest st2 = r"
        "current_depth st2 = current_depth ?st" by (rule readsD)
      then show ?thesis using s1 a(4) descend_ok [of st1 cfg size0] True
        by (auto simp: parses_def n parse_context.simps(2) json_decode_ascend_def st_ok_def)
    next
      case False
      have "current_depth ?st + int (jdepth (snd x)) \<le> decode_max_depth cfg" if "x \<in> set ms" for x
        using jdepth_obj [OF that] a(4) s1(4) by simp
      then have "parses env cfg size0 m (ObjectContext (object_pairs [])) ?st (LTable (object_pairs ([] @ ms))) r (-1)"
        using assms s1 nr a(5) n False by (intro object_context) auto
      then show ?thesis using s1 a(4) descend_ok [of st1 cfg size0]
        by (auto simp: parses_def n parse_context.simps(2) object_pairs_def)
    qed
  qed
qed

lemma parse_value:
  assumes "point_ok (locale_decimal_point env)" "size0 < 2 ^ 31"
  shows "wf_json (num_back env cfg) j \<Longrightarrow> value_ok env cfg size0 j"
proof (induction j)
  case (JArr js)
  then show ?case using assms(2) by (intro value_ok_array) auto
next
  case (JObj ms)
  have "value_ok env cfg size0 (snd x)" if "x \<in> set ms" for x
    using that JObj.prems by (intro JObj.IH [of x]) (auto simp: snds.simps)
  then show ?case using JObj.prems by (intro value_ok_object) auto
next
  case (JNum d)
  show ?case unfolding value_ok_def
  proof (intro allI impI)
    fix st n r
    assume a: "st_ok size0 st" "rest st = print_json env cfg (JNum d) @ r" "follows r" "length (print_json env cfg (JNum d)) \<le> n"
    then have "reads env cfg size0 st (TNumber d) r" "0 < length (num_text env cfg d)"
      using reads_number [OF a(1) _ assms(1), of cfg d r] num_text_chars(1) [OF _ assms(1), of cfg d] JNum by (simp_all add: follows_def)
    then show "parses env cfg size0 n ValueContext st (to_lua (JNum d)) r 0"
      using a(4) by (intro parses_atom [of env cfg size0 st "TNumber d"]) (auto simp: parse_context.simps(2) simp del: length_greater_0_conv)
  qed
next
  case (JStr cs)
  show ?case unfolding value_ok_def
    by (auto simp: follows_def parse_context.simps(2) str_text_def [of cs] intro!: parses_atom [OF reads_string [of size0 _ cs]])
next
  case (JBool b)
  show ?case
  proof (cases b)
    case True
    then show ?thesis unfolding value_ok_def by (auto simp: follows_def parse_context.simps(2) intro!: parses_atom [OF reads_word(1)])
  next
    case False
    then show ?thesis unfolding value_ok_def by (auto simp: follows_def parse_context.simps(2) intro!: parses_atom [OF reads_word(2)])
  qed
next
  case JNull
  show ?case unfolding value_ok_def
    by (auto simp: follows_def parse_context.simps(2) intro!: parses_atom [OF reads_word(3)])
qed

subsection \<open>Encoding and decoding\<close>

lemma hex_digit_nonzero: "n < 16 \<Longrightarrow> hex_digit n \<noteq> 0"
  using hexdigit_back [of n] by auto

lemma str_text_nonzero: "0 \<notin> set (str_text cs)"
proof -
  have "0 \<notin> set (esc_char c)" for c
  proof (cases c rule: esc_char_cases)
    case unicode
    then have "unat c < 128" by (simp add: word_less_nat_alt)
    then have "hex_digit (unat c div 16) \<noteq> 0" "hex_digit (unat c mod 16) \<noteq> 0" by (simp_all add: hex_digit_nonzero)
    then show ?thesis using unicode by (simp add: chr_def)
  qed auto
  then show ?thesis by (auto simp: str_text_def esc_text_def)
qed

lemma join_mem: "c \<in> set (join xs) \<Longrightarrow> c = 0x2C \<or> (\<exists>x \<in> set xs. c \<in> set x)"
  by (induction xs rule: join.induct) auto

lemma print_json_nonzero:
  assumes "point_ok (locale_decimal_point env)"
  shows "wf_json (num_back env cfg) j \<Longrightarrow> 0 \<notin> set (print_json env cfg j)"
proof (induction j)
  case (JObj ms)
  then have "0 \<notin> set (print_json env cfg (snd m))" if "m \<in> set ms" for m using that by (intro JObj.IH [of m]) (auto simp: snds.simps)
  then show ?case using str_text_nonzero by (auto simp: case_prod_unfold dest!: join_mem)
next
  case (JNum d)
  then show ?case using num_text_chars(2) [OF _ assms] by simp
qed (use str_text_nonzero in \<open>auto simp: str_def chr_def dest!: join_mem\<close>)

lemma wf_json_mono: "(\<And>d. N d \<Longrightarrow> M d) \<Longrightarrow> wf_json N j \<Longrightarrow> wf_json M j"
  by (induction j) (auto simp: snds.simps)

lemma json_decode_print:
  assumes "point_ok (locale_decimal_point env)" "wf_json (num_back env cfg) j" "length (print_json env cfg j) < 2 ^ 31 - 1"
    "int (jdepth j) \<le> decode_max_depth cfg"
  shows "json_decode env cfg (print_json env cfg j) = DOk (to_lua j)"
proof -
  let ?s = "print_json env cfg j"
  let ?size = "length ?s + 1"
  have "?s ! i \<noteq> 0" if "i < length ?s" for i using print_json_nonzero [OF assms(1,2)] nth_mem [OF that] by metis
  from this [of 0] this [of 1] have nz: "\<not> (2 \<le> length ?s \<and> (?s ! 0 = 0 \<or> ?s ! 1 = 0))" by fastforce
  obtain t where t: "strbuf_new (int (length ?s)) = Some t" "sb_inv t" "?size \<le> ssize t" using decode_buffer_ok assms(3) by blast
  let ?st = "\<lparr>rest = ?s @ [0], tmp = t, current_depth = 0\<rparr>"
  have ok: "st_ok ?size ?st" "follows [0]" using t by (simp_all add: st_ok_def nul_def follows_def)
  obtain tok ix st1 st2 where p: "json_next_token env cfg ?size ?st = Some (tok, ix, st1)"
    "parse_context (decode_fuel ?s) env cfg ?size ValueContext tok ix st1 = DOk (to_lua j, st2)" "st_ok ?size st2" "rest st2 = [0]"
    by (rule value_okD [OF parse_value [OF assms(1) _ assms(2)] ok(1) _ ok(2), where n = "decode_fuel ?s"])
      (use assms(3,4) in \<open>auto simp: decode_fuel_def\<close>)
  have "reads env cfg ?size st2 (TSymbol T_END) (rest st2)" using p(3,4) by (intro reads_end) auto
  then obtain ix3 st3 where "json_next_token env cfg ?size st2 = Some (TSymbol T_END, ix3, st3)" by (auto simp: reads_def)
  then show ?thesis using t(1) p nz by (simp add: json_decode_def json_process_value_def Let_def)
qed

text \<open>The text of a document does not depend on the buffer that the encoder keeps.\<close>

lemma num_text_buf: "num_text env (cfg\<lparr>encode_buf := b\<rparr>) = num_text env cfg" "num_back env (cfg\<lparr>encode_buf := b\<rparr>) = num_back env cfg"
  by (simp_all add: fun_eq_iff num_text_def num_back_def)

lemma print_json_buf: "print_json env (cfg\<lparr>encode_buf := b\<rparr>) j = print_json env cfg j"
  by (induction j) (auto simp: num_text_buf snds.simps intro!: arg_cong [of _ _ join])

text \<open>
  C26: for a Lua value that stands for a JSON document (nested at most as deep as the limit, arrays not empty, the keys of an
  object different strings, numbers finite), the encoder writes exactly the text that the grammar of JSON gives, with every
  buffer write in bounds, whether the buffer is kept between calls or not; the configuration stays valid.
\<close>

theorem json_encode_prints:
  assumes "cfg_inv cfg" "exact_ints env" "encode_sparse_ratio cfg \<le> 4"
    "wf_json (num_fits env cfg) j" "jcost j < SB_LIMIT" "int (jdepth j) \<le> encode_max_depth cfg"
  shows "\<exists>b. json_encode env cfg (to_lua j) = Some (Inr (print_json env cfg j), cfg\<lparr>encode_buf := b\<rparr>) \<and> cfg_inv (cfg\<lparr>encode_buf := b\<rparr>)"
  using json_encode_ok [OF assms] by auto

text \<open>
  C25: decoding what the encoder wrote gives the value back, for every decimal point of the locale, provided the C library's
  \<^verbatim>\<open>strtod\<close> gives each number of the document back from the text its \<^verbatim>\<open>snprintf\<close> made.
\<close>

theorem json_roundtrip:
  assumes "cfg_inv cfg" "exact_ints env" "encode_sparse_ratio cfg \<le> 4" "point_ok (locale_decimal_point env)"
    "wf_json (num_back env cfg) j" "jcost j < SB_LIMIT" "int (jdepth j) \<le> encode_max_depth cfg" "int (jdepth j) \<le> decode_max_depth cfg"
  shows "\<exists>s cfg'. json_encode env cfg (to_lua j) = Some (Inr s, cfg') \<and> json_decode env cfg' s = DOk (to_lua j)"
proof -
  have fits: "wf_json (num_fits env cfg) j" using assms(5) num_back_fits by (rule wf_json_mono [rotated])
  obtain b where b: "json_encode env cfg (to_lua j) = Some (Inr (print_json env cfg j), cfg\<lparr>encode_buf := b\<rparr>)"
    using json_encode_ok [OF assms(1-3) fits assms(6,7)] by auto
  have "json_decode env (cfg\<lparr>encode_buf := b\<rparr>) (print_json env (cfg\<lparr>encode_buf := b\<rparr>) j) = DOk (to_lua j)"
    using print_cost [OF fits] assms(4-6,8) by (intro json_decode_print) (auto simp: SB_LIMIT_def num_text_buf print_json_buf)
  then show ?thesis using b by (auto simp: print_json_buf)
qed

subsection \<open>Too deep nesting\<close>

definition deep_error :: "nat \<Rightarrow> bytes" where
  "deep_error k = str ''Found too many nested data structures ('' @ fmt_d (int k) @ str '') at character '' @ fmt_d (int k)"

lemma deep_context:
  assumes "decode_max_depth cfg = int mx" "nul r"
  shows "d = mx - k \<Longrightarrow> k \<le> mx \<Longrightarrow> st_ok size0 st \<Longrightarrow> rest st = replicate m 0x5B @ r \<Longrightarrow> current_depth st = int k \<Longrightarrow>
    position size0 (rest st) = int k + 1 \<Longrightarrow> d \<le> m \<Longrightarrow> 2 * d < n \<Longrightarrow>
    parse_context n env cfg size0 ValueContext (TSymbol T_ARR_BEGIN) ix st = DErr (deep_error (mx + 1))"
proof (induction d arbitrary: k st m n ix)
  case 0
  then show ?case using assms(1)
    by (cases n) (simp_all add: parse_context.simps(2) json_decode_descend_def deep_error_def add.commute)
next
  case (Suc d)
  obtain q where n: "n = Suc (Suc q)" "2 * d < q" using Suc.prems(8) by (cases n; cases "n - 1") auto
  obtain m1 where m: "m = Suc m1" using Suc.prems(7) by (cases m) auto
  let ?st = "st\<lparr>current_depth := int k + 1\<rparr>" and ?r = "replicate m1 0x5B @ r"
  have "nul ?r" using assms(2) by (simp add: nul_def)
  then have "reads env cfg size0 ?st (TSymbol T_ARR_BEGIN) ?r" using Suc.prems(3,4) m by (intro reads_mark(1)) auto
  then obtain ix1 st1 where s: "json_next_token env cfg size0 ?st = Some (TSymbol T_ARR_BEGIN, ix1, st1)" "st_ok size0 st1" "rest st1 = ?r"
    "current_depth st1 = int (Suc k)" by (rule readsD) simp
  have "parse_context q env cfg size0 ValueContext (TSymbol T_ARR_BEGIN) ix1 st1 = DErr (deep_error (mx + 1))"
    using Suc.prems n m s by (intro Suc.IH [of "Suc k"]) (auto simp: position_def)
  moreover have "int k + 1 \<le> int mx" using Suc.prems(1) by simp
  ultimately show ?case
    using Suc.prems(5) assms(1) s(1) by (simp add: n parse_context.simps(2) descend_ok)
qed

text \<open>
  C27: an input that opens more arrays than \<^verbatim>\<open>decode_max_depth\<close> allows is refused at the first one too many, whatever follows, and
  the message names the depth and the position.
\<close>

theorem json_decode_depth_limit:
  assumes "decode_max_depth cfg = int mx" "mx < m" "1 < m" "m + length r < 2 ^ 31 - 1"
  shows "json_decode env cfg (replicate m 0x5B @ r) = DErr (deep_error (mx + 1))"
proof -
  let ?s = "replicate m 0x5B @ r"
  let ?size = "length ?s + 1"
  obtain m1 where m: "m = Suc m1" "0 < m1" using assms(3) by (cases m) auto
  obtain t where t: "strbuf_new (int (length ?s)) = Some t" "sb_inv t" "?size \<le> ssize t" using decode_buffer_ok [of ?s] assms(4) by auto
  let ?st = "\<lparr>rest = ?s @ [0], tmp = t, current_depth = 0\<rparr>"
  have ok: "st_ok ?size ?st" "nul (r @ [0])" "nul (replicate m1 0x5B @ r @ [0])" using t by (simp_all add: st_ok_def nul_def)
  have "reads env cfg ?size ?st (TSymbol T_ARR_BEGIN) (replicate m1 0x5B @ r @ [0])" using ok m by (intro reads_mark(1)) auto
  then obtain ix st where s: "json_next_token env cfg ?size ?st = Some (TSymbol T_ARR_BEGIN, ix, st)" "st_ok ?size st"
    "rest st = replicate m1 0x5B @ r @ [0]" "current_depth st = int 0" by (rule readsD) simp
  have "parse_context (decode_fuel ?s) env cfg ?size ValueContext (TSymbol T_ARR_BEGIN) ix st = DErr (deep_error (mx + 1))"
    using assms(2) m s by (intro deep_context [OF assms(1) ok(2), of mx 0]) (auto simp: position_def decode_fuel_def)
  moreover have "\<not> (2 \<le> length ?s \<and> (?s ! 0 = 0 \<or> ?s ! 1 = 0))" using m by (simp add: nth_append)
  ultimately show ?thesis using t(1) s(1) by (auto simp: json_decode_def json_process_value_def Let_def)
qed

subsection \<open>Concrete documents\<close>

definition demo_json :: json where
  "demo_json = JObj [(str ''a'', JArr [JNum (double_of_nat 7), JBool True, JNull]), (str ''b'', JStr [9, 65, 0])]"

definition demo_cfg :: json_config where
  "demo_cfg = the json_create_config"

lemma demo_cfg_fields:
  "cfg_inv demo_cfg" "encode_sparse_ratio demo_cfg = 2" "encode_max_depth demo_cfg = 1000" "decode_max_depth demo_cfg = 1000"
  "encode_number_precision demo_cfg = 14"
  using json_create_config_inv by (auto simp: demo_cfg_def json_create_config_def)

lemma digit_env_ints: "exact_ints digit_env"
proof -
  have "double_key (double_of_nat n) = Index (int n)" if "1 \<le> n" "n < 2 ^ 31" for n
    using d_int_double_of_nat [of n] that by (simp add: double_key_def d_isnan_def d_isinf_def)
  moreover have "unat (word_of_nat n :: u64) = n" if "n < 2 ^ 31" for n using that by (simp add: unat_of_nat take_bit_nat_eq_self)
  ultimately have k: "double_key (lua_tonumber digit_env (word_of_int (int n))) = Index (int n)" if "1 \<le> n" "n < 2 ^ 31" for n
    using that by (simp add: digit_env_def)
  have "double_key (lua_tonumber digit_env (word_of_int n)) = Index n" if "1 \<le> n" "n < 2 ^ 31" for n
    using that k [of "nat n"] by simp
  then show ?thesis by (simp add: exact_ints_def)
qed

lemma digit_env_seven: "num_back digit_env demo_cfg (double_of_nat 7)"
proof -
  have d: "d_int (double_of_nat 7) = Some 7" "dmag (double_of_nat 7) < 2047 * 2 ^ 52" using d_int_double_of_nat [of 7] by simp_all
  have "decimal_form 46 [55]" unfolding decimal_form_def
    by (rule exI [of _ "[]"], rule exI [of _ "[55]"], rule exI [of _ "[]"], rule exI [of _ "[]"]) (simp add: digits_def decimals_def exponent_def)
  then show ?thesis using d
    by (simp add: num_back_def demo_cfg_fields set_number_format_def digit_env_def d_isinf_def d_isnan_def)
qed

lemma demo_json_ok:
  "wf_json (num_back digit_env demo_cfg) demo_json" "jcost demo_json < SB_LIMIT" "jdepth demo_json = 2" "point_ok (locale_decimal_point digit_env)"
  using digit_env_seven by (simp_all add: demo_json_def SB_LIMIT_def str_def chr_def point_ok_def) (simp_all add: digit_env_def)

theorem json_encode_prints_witness:
  "\<exists>b. json_encode digit_env demo_cfg (to_lua demo_json) = Some (Inr (print_json digit_env demo_cfg demo_json), demo_cfg\<lparr>encode_buf := b\<rparr>)"
proof -
  have "wf_json (num_fits digit_env demo_cfg) demo_json" using wf_json_mono [of "num_back digit_env demo_cfg"] num_back_fits demo_json_ok(1) by blast
  then show ?thesis using json_encode_prints [OF demo_cfg_fields(1) digit_env_ints] demo_cfg_fields demo_json_ok by fastforce
qed

theorem json_roundtrip_witness:
  "\<exists>s cfg'. json_encode digit_env demo_cfg (to_lua demo_json) = Some (Inr s, cfg') \<and> json_decode digit_env cfg' s = DOk (to_lua demo_json)"
  using json_roundtrip [OF demo_cfg_fields(1) digit_env_ints _ demo_json_ok(4,1,2)] demo_cfg_fields demo_json_ok by simp

theorem json_decode_depth_limit_witness:
  "json_decode digit_env demo_cfg (replicate 2000 0x5B @ str ''x'') = DErr (deep_error 1001)"
  using json_decode_depth_limit [of demo_cfg 1000 2000 "str ''x''" digit_env] demo_cfg_fields by simp

end
