(* ===== verification/Webclient.thy ===== *)
theory Webclient
  imports Appender Lua_Value
begin

text \<open>
  The HTTP client of lua-webclient.c, a Lua module on libcurl's multi interface. The functions of libcurl are called and
  not read: their answers are arguments, and the calls that change libcurl's state are recorded. A function gives the values
  it returns to Lua or the error it raises; \<open>WBad\<close> is undefined behaviour. The first argument of every method is a web
  client, which \<^verbatim>\<open>luaL_checkudata\<close> makes sure of.
\<close>

type_synonym curl_handle = nat

subsection \<open>The data\<close>

datatype form_option = COPYNAME | COPYCONTENTS | CONTENTSLENGTH | FORMFILE | CONTENTTYPE | FILENAME | FORMEND

text \<open>The value of an option: a pointer to a text or NULL, or a length in place of it.\<close>

datatype form_value = FText "bytes option" | FLength nat

type_synonym forms = "(form_option \<times> form_value) list"

record webclient =
  curlm :: "curl_handle option"
  encoding_curl :: "curl_handle option"

text \<open>
  \<^verbatim>\<open>header\<close> and \<^verbatim>\<open>http_post\<close> are the lists they point to, empty for NULL; \<^verbatim>\<open>content\<close> is the memory behind the pointer, empty for
  NULL; \<^verbatim>\<open>error\<close> is the C string in the buffer.
\<close>

record webrequest =
  curl :: curl_handle
  wheader :: "bytes list"
  http_post :: "forms list"
  error :: bytes
  content :: "byte option list"
  content_length :: u64
  content_maxlength :: u64
  content_realloc_failed :: bool

datatype curl_opt =
    NOSIGNAL | SSL_VERIFYPEER bool | SSL_VERIFYHOST bool | FOLLOWLOCATION bool | WRITEFUNCTION | WRITEDATA | ERRORBUFFER
  | CONNECTTIMEOUT_MS int | URL bytes | HTTPPOST "forms list" | POSTFIELDSIZE nat | COPYPOSTFIELDS bytes
  | HTTPHEADER "bytes list" | VERBOSE bool

datatype curl_call =
    GlobalInit | GlobalCleanup | MultiCleanup curl_handle | EasyCleanup curl_handle | SetOpt curl_handle curl_opt
  | MultiAdd curl_handle | MultiRemove curl_handle | MultiPerform | SlistFree "bytes list" | FormFree "forms list" | FreeContent | FreeRequest

datatype 'a web_result = WOk 'a | WErr string | WArgErr nat string | WBad

subsection \<open>Life of a client\<close>

definition webclient_create :: "nat \<Rightarrow> string \<Rightarrow> curl_handle option \<Rightarrow> webclient web_result \<times> curl_call list" where
  "webclient_create version_num version multi =
     (if version_num < 0x070F04 then (WErr (''requires 7.15.4 or higher curl, current version is '' @ version), [])
      else case multi of
        None \<Rightarrow> (WErr ''webclient create failed'', [GlobalInit, GlobalCleanup])
      | Some m \<Rightarrow> (WOk \<lparr>curlm = Some m, encoding_curl = None\<rparr>, [GlobalInit]))"

definition webclient_destory :: "webclient \<Rightarrow> webclient \<times> curl_call list" where
  "webclient_destory w =
     (w\<lparr>curlm := None, encoding_curl := None\<rparr>,
      (case encoding_curl w of None \<Rightarrow> [] | Some h \<Rightarrow> [EasyCleanup h]) @
      (case curlm w of None \<Rightarrow> [] | Some m \<Rightarrow> [MultiCleanup m]) @ [GlobalCleanup])"

text \<open>A message that libcurl has queued: whether it says that a transfer is done, the handle and the result.\<close>

datatype curl_msg = DoneMsg curl_handle int | OtherMsg

fun webclient_realquery :: "curl_msg list \<Rightarrow> (curl_handle \<times> int) option \<times> curl_msg list" where
  "webclient_realquery [] = (None, [])"
| "webclient_realquery (OtherMsg # ms) = webclient_realquery ms"
| "webclient_realquery (DoneMsg h r # ms) = (Some (h, r), ms)"

text \<open>
  \<^verbatim>\<open>webclient_query\<close>: the queue before, what \<^verbatim>\<open>curl_multi_perform\<close> answers and the messages it adds. The result is what is
  returned to Lua, the queue afterwards and the calls.
\<close>

definition CURLM_OK :: int where "CURLM_OK = 0"
definition CURLM_CALL_MULTI_PERFORM :: int where "CURLM_CALL_MULTI_PERFORM = -1"

definition webclient_query :: "curl_msg list \<Rightarrow> int \<Rightarrow> curl_msg list \<Rightarrow> (curl_handle \<times> int) option web_result \<times> curl_msg list \<times> curl_call list" where
  "webclient_query q perform added =
     (case webclient_realquery q of
        (Some hr, q1) \<Rightarrow> (WOk (Some hr), q1, [])
      | (None, q1) \<Rightarrow>
          if perform \<noteq> CURLM_OK \<and> perform \<noteq> CURLM_CALL_MULTI_PERFORM then (WErr ''webclient query failed'', q1 @ added, [MultiPerform])
          else (let (r, q2) = webclient_realquery (q1 @ added) in (WOk r, q2, [MultiPerform])))"

subsection \<open>The body of the answer\<close>

text \<open>
  \<^verbatim>\<open>write_callback\<close> with the bytes libcurl passes; \<open>ok\<close> is whether \<^verbatim>\<open>realloc\<close> succeeds. Sizes are 64 bits wide and wrap.
\<close>

definition grown_maxlength :: "u64 \<Rightarrow> u64 \<Rightarrow> u64" where
  "grown_maxlength mx need = 2 * max (max mx need) 512"

definition write_callback :: "bool \<Rightarrow> bytes \<Rightarrow> u64 \<Rightarrow> u64 \<Rightarrow> webrequest \<Rightarrow> (u64 \<times> webrequest) option" where
  "write_callback ok buffer block_size count r =
     (let len = block_size * count
      in if content_realloc_failed r then Some (len, r)
         else
           let need = content_length r + len;
               r1 = (if need > content_maxlength r
                     then let mx = grown_maxlength (content_maxlength r) need; r0 = r\<lparr>content_maxlength := mx\<rparr>
                          in if ok then r0\<lparr>content := take (unat mx) (content r) @ replicate (unat mx - length (content r)) None\<rparr>
                             else r0\<lparr>content_realloc_failed := True\<rparr>
                     else r)
           in if content_realloc_failed r1 then Some (len, r1)
              else map_option (\<lambda>m. (len, r1\<lparr>content := m, content_length := need\<rparr>))
                     (mem_copy (content r1) (unat (content_length r1)) (map Some buffer) (unat len)))"

subsection \<open>Requests\<close>

definition request_zero :: webrequest where
  "request_zero = \<lparr>curl = 0, wheader = [], http_post = [], error = [], content = [], content_length = 0, content_maxlength = 0,
     content_realloc_failed = False\<rparr>"

definition request_options :: "bytes \<Rightarrow> forms list \<Rightarrow> bytes option \<Rightarrow> int \<Rightarrow> curl_opt list" where
  "request_options url post field timeout =
     [NOSIGNAL, SSL_VERIFYPEER False, SSL_VERIFYHOST False, FOLLOWLOCATION True, WRITEFUNCTION, WRITEDATA, ERRORBUFFER,
      CONNECTTIMEOUT_MS timeout, URL (c_text url)] @
     (if post \<noteq> [] then [HTTPPOST post]
      else case field of None \<Rightarrow> [] | Some f \<Rightarrow> [POSTFIELDSIZE (length f), COPYPOSTFIELDS f])"

definition webclient_realrequest ::
  "curl_handle option \<Rightarrow> bool \<Rightarrow> bytes \<Rightarrow> forms list \<Rightarrow> bytes option \<Rightarrow> int \<Rightarrow> webrequest option \<times> curl_call list" where
  "webclient_realrequest easy added url post field timeout =
     (case easy of
        None \<Rightarrow> (None, [FreeRequest])
      | Some h \<Rightarrow>
          let calls = map (SetOpt h) (request_options url post field timeout) @ [MultiAdd h]
          in if added then (Some (request_zero\<lparr>http_post := post, curl := h\<rparr>), calls)
             else (None, calls @ [EasyCleanup h, FreeRequest]))"

text \<open>The array of eight options that one part of a form is written to; the loop over the fields of a part stops at seven.\<close>

definition forms_max_index :: nat where "forms_max_index = 7"

definition put_form :: "form_option \<Rightarrow> form_value \<Rightarrow> forms \<Rightarrow> forms option" where
  "put_form f v fs = (if length fs < forms_max_index + 1 then Some (fs @ [(f, v)]) else None)"

definition put_field :: "(lua_value \<Rightarrow> bytes) \<Rightarrow> bytes \<Rightarrow> lua_value \<Rightarrow> forms \<Rightarrow> forms option" where
  "put_field ns key v fs =
     (let value = lua_tolstring ns v; k = c_text key
      in if k = str ''name'' then put_form COPYNAME (FText value) fs
         else if k = str ''contents'' then
           put_form COPYCONTENTS (FText value) fs \<bind> put_form CONTENTSLENGTH (FLength (case value of None \<Rightarrow> 0 | Some s \<Rightarrow> length s))
         else if k = str ''file'' then put_form FORMFILE (FText value) fs
         else if k = str ''content_type'' then put_form CONTENTTYPE (FText value) fs
         else if k = str ''filename'' then put_form FILENAME (FText value) fs
         else Some fs)"

text \<open>
  The fields of one part; the flag says that the loop stopped because the array is full, which leaves the key of the last
  field on the Lua stack.
\<close>

fun form_fields :: "(lua_value \<Rightarrow> bytes) \<Rightarrow> (lua_value \<times> lua_value) list \<Rightarrow> forms \<Rightarrow> (forms \<times> bool) option" where
  "form_fields ns ps fs =
     (if length fs \<ge> forms_max_index then Some (fs, True)
      else case ps of [] \<Rightarrow> Some (fs, False)
         | (k, v) # ps1 \<Rightarrow>
             (case lua_tolstring ns k of None \<Rightarrow> None
              | Some key \<Rightarrow> (case put_field ns key v fs of None \<Rightarrow> None | Some fs1 \<Rightarrow> form_fields ns ps1 fs1)))"

declare form_fields.simps [simp del]

text \<open>
  \<^verbatim>\<open>webclient_tohttppost\<close>: the parts collected so far are the list from \<^verbatim>\<open>firstitem\<close> to \<^verbatim>\<open>lastitem\<close>; \<open>add\<close> is what \<^verbatim>\<open>curl_formadd\<close>
  answers. After a part whose loop stopped early the table of that part is taken for the key of \<^verbatim>\<open>lua_next\<close>, which raises an
  error.
\<close>

datatype post_result = PostBad | PostRaise | PostNull "curl_call list" | PostOk "forms list"

fun post_loop :: "(lua_value \<Rightarrow> bytes) \<Rightarrow> (forms list \<Rightarrow> forms \<Rightarrow> bool) \<Rightarrow> (lua_value \<times> lua_value) list \<Rightarrow> forms list \<Rightarrow> post_result" where
  "post_loop ns add [] items = (if items = [] then PostNull [] else PostOk items)"
| "post_loop ns add ((k, v) # ps) items =
     (case v of
        LTable part \<Rightarrow>
          (case form_fields ns part [] of None \<Rightarrow> PostBad
           | Some (fs, stopped) \<Rightarrow>
               (case put_form FORMEND (FText None) fs of None \<Rightarrow> PostBad
                | Some fs1 \<Rightarrow>
                    if \<not> add items fs1 then PostNull [FormFree items]
                    else if stopped then PostRaise
                    else post_loop ns add ps (items @ [fs1])))
      | _ \<Rightarrow> PostBad)"

definition webclient_tohttppost :: "(lua_value \<Rightarrow> bytes) \<Rightarrow> (forms list \<Rightarrow> forms \<Rightarrow> bool) \<Rightarrow> (lua_value \<times> lua_value) list \<Rightarrow> post_result" where
  "webclient_tohttppost ns add ps = post_loop ns add ps []"

text \<open>
  \<^verbatim>\<open>webclient_request\<close> with the arguments behind the client. \<open>tonum\<close> is \<^verbatim>\<open>lua_isnumber\<close> with \<^verbatim>\<open>lua_tointeger\<close>.
\<close>

definition request_timeout :: "(lua_value \<Rightarrow> int option) \<Rightarrow> lua_value list \<Rightarrow> int web_result" where
  "request_timeout tonum args =
     (if length args > 2
      then case tonum (args ! 2) of None \<Rightarrow> WOk 5000
           | Some t \<Rightarrow> if t < 0 then WArgErr 4 ''parameter connect_timeout_ms invalid'' else WOk t
      else WOk 5000)"

definition start_request ::
  "(lua_value \<Rightarrow> int option) \<Rightarrow> curl_handle option \<Rightarrow> bool \<Rightarrow> bytes \<Rightarrow> forms list \<Rightarrow> bytes option \<Rightarrow> lua_value list \<Rightarrow>
    webrequest option web_result \<times> curl_call list" where
  "start_request tonum easy added url post field args =
     (case request_timeout tonum args of
        WOk t \<Rightarrow> (let (r, calls) = webclient_realrequest easy added url post field t in (WOk r, calls))
      | WArgErr n m \<Rightarrow> (WArgErr n m, [])
      | WErr m \<Rightarrow> (WErr m, [])
      | WBad \<Rightarrow> (WBad, []))"

definition webclient_request ::
  "(lua_value \<Rightarrow> bytes) \<Rightarrow> (lua_value \<Rightarrow> int option) \<Rightarrow> (forms list \<Rightarrow> forms \<Rightarrow> bool) \<Rightarrow> curl_handle option \<Rightarrow> bool \<Rightarrow> lua_value list \<Rightarrow>
    webrequest option web_result \<times> curl_call list" where
  "webclient_request ns tonum add easy added args =
     (case (if args = [] then None else lua_tolstring ns (hd args)) of
        None \<Rightarrow> (WArgErr 2 ''parameter url invalid'', [])
      | Some url \<Rightarrow>
          if length args > 1 then
            (case args ! 1 of
               LTable ps \<Rightarrow>
                 (case webclient_tohttppost ns add ps of
                    PostBad \<Rightarrow> (WBad, [])
                  | PostRaise \<Rightarrow> (WErr ''invalid key to next'', [])
                  | PostNull calls \<Rightarrow> (WArgErr 3 ''parameter post_form invalid'', calls)
                  | PostOk post \<Rightarrow> start_request tonum easy added url post None args)
             | v \<Rightarrow> start_request tonum easy added url [] (lua_tolstring ns v) args)
          else start_request tonum easy added url [] None args)"

definition webclient_removerequest :: "webrequest option \<Rightarrow> unit web_result \<times> curl_call list" where
  "webclient_removerequest req =
     (case req of None \<Rightarrow> (WArgErr 2 ''parameter index invalid'', [])
      | Some r \<Rightarrow> (WOk (), [MultiRemove (curl r), EasyCleanup (curl r), SlistFree (wheader r), FormFree (http_post r)] @
                    (if content r \<noteq> [] then [FreeContent] else []) @ [FreeRequest]))"

text \<open>The bytes that are pushed are read from memory; the second value is the error text, if there is one.\<close>

definition body_text :: "webrequest \<Rightarrow> bytes option" where
  "body_text r =
     (let n = unat (content_length r); m = take n (content r)
      in if n \<le> length (content r) \<and> None \<notin> set m then Some (map the m) else None)"

definition webclient_getrespond :: "webrequest option \<Rightarrow> (bytes \<times> bytes option \<times> webrequest) web_result" where
  "webclient_getrespond req =
     (case req of None \<Rightarrow> WArgErr 2 ''parameter index invalid''
      | Some r \<Rightarrow>
          let r1 = (if content_realloc_failed r then r\<lparr>error := str ''not enough memory.''\<rparr> else r)
          in case body_text r1 of None \<Rightarrow> WBad
             | Some body \<Rightarrow> WOk (body, if error r1 = [] then None else Some (error r1), r1))"

text \<open>What \<^verbatim>\<open>curl_easy_getinfo\<close> answers; \<open>None\<close> when it fails. The string for the address is there when it succeeds.\<close>

record curl_info =
  primary_ip :: "bytes option"
  local_port :: "int option"
  content_length_download :: "double option"
  response_code :: "int option"
  size_download :: "double option"
  size_upload :: "double option"
  content_length_upload :: "double option"

definition opt_pair :: "string \<Rightarrow> lua_value option \<Rightarrow> (lua_value \<times> lua_value) list" where
  "opt_pair k v = (case v of None \<Rightarrow> [] | Some x \<Rightarrow> [(LString (str k), x)])"

definition webclient_getinfo :: "curl_info \<Rightarrow> webrequest option \<Rightarrow> lua_value web_result" where
  "webclient_getinfo ci req =
     (case req of None \<Rightarrow> WArgErr 2 ''parameter index invalid''
      | Some r \<Rightarrow>
          WOk (LTable (opt_pair ''ip'' (map_option (\<lambda>s. LString (c_text s)) (primary_ip ci)) @
            opt_pair ''port'' (map_option (\<lambda>p. LInteger (word_of_int p)) (local_port ci)) @
            opt_pair ''content_length'' (map_option LNumber (content_length_download ci)) @
            opt_pair ''response_code'' (map_option (\<lambda>c. LInteger (word_of_int c)) (response_code ci)) @
            opt_pair ''content_save_failed'' (if content_realloc_failed r then Some (LBool True) else None))))"

definition webclient_getprogress :: "curl_info \<Rightarrow> webrequest option \<Rightarrow> bool \<Rightarrow> (double \<times> double) option web_result" where
  "webclient_getprogress ci req is_upload =
     (case req of None \<Rightarrow> WArgErr 2 ''parameter index invalid''
      | Some r \<Rightarrow>
          WOk (if \<not> is_upload
               then do { f \<leftarrow> size_download ci; t \<leftarrow> content_length_download ci; Some (f, t) }
               else do { f \<leftarrow> size_upload ci; t \<leftarrow> content_length_upload ci; Some (f, t) }))"

text \<open>
  \<^verbatim>\<open>webclient_sethttpheader\<close>: \<open>app\<close> is \<^verbatim>\<open>curl_slist_append\<close>, which gives NULL (the empty list) when it fails and is not defined
  on a string that is NULL.
\<close>

fun append_headers :: "(lua_value \<Rightarrow> bytes) \<Rightarrow> (bytes list \<Rightarrow> bytes \<Rightarrow> bytes list) \<Rightarrow> bytes list \<Rightarrow> lua_value list \<Rightarrow> bytes list option" where
  "append_headers ns app hs [] = Some hs"
| "append_headers ns app hs (v # vs) =
     (case lua_tolstring ns v of None \<Rightarrow> None | Some s \<Rightarrow> append_headers ns app (app hs (c_text s)) vs)"

definition webclient_sethttpheader ::
  "(lua_value \<Rightarrow> bytes) \<Rightarrow> (bytes list \<Rightarrow> bytes \<Rightarrow> bytes list) \<Rightarrow> webrequest option \<Rightarrow> lua_value list \<Rightarrow> webrequest web_result \<times> curl_call list" where
  "webclient_sethttpheader ns app req args =
     (case req of None \<Rightarrow> (WArgErr 2 ''parameter index invalid'', [])
      | Some r \<Rightarrow>
          (case append_headers ns app (wheader r) args of None \<Rightarrow> (WBad, [])
           | Some hs \<Rightarrow> (WOk (r\<lparr>wheader := hs\<rparr>), if hs \<noteq> [] then [SetOpt (curl r) (HTTPHEADER hs)] else [])))"

definition webclient_debug :: "webrequest option \<Rightarrow> bool \<Rightarrow> unit web_result \<times> curl_call list" where
  "webclient_debug req enable =
     (case req of None \<Rightarrow> (WArgErr 2 ''parameter index invalid'', [])
      | Some r \<Rightarrow> (WOk (), [SetOpt (curl r) (VERBOSE enable)]))"

text \<open>
  \<^verbatim>\<open>url_encoding\<close>: \<open>escape\<close> is \<^verbatim>\<open>curl_easy_escape\<close> with the handle, the text and its length as an \<^verbatim>\<open>int\<close>. Without a result the
  text itself is given back; without a text (\<^verbatim>\<open>lua_tolstring\<close> gives NULL and length 0) that is the empty string.
\<close>

definition url_encoding ::
  "(lua_value \<Rightarrow> bytes) \<Rightarrow> (curl_handle option \<Rightarrow> bytes option \<Rightarrow> int \<Rightarrow> bytes option) \<Rightarrow> curl_handle option \<Rightarrow> webclient \<Rightarrow> lua_value \<Rightarrow>
    bytes \<times> webclient" where
  "url_encoding ns escape easy w v =
     (let w1 = (if encoding_curl w = None then w\<lparr>encoding_curl := easy\<rparr> else w);
          s = lua_tolstring ns v; txt = (case s of None \<Rightarrow> [] | Some t \<Rightarrow> t)
      in (case escape (encoding_curl w1) s (sint (of_nat (length txt) :: u32)) of None \<Rightarrow> txt | Some r \<Rightarrow> c_text r, w1))"

subsection \<open>The body is what libcurl delivered\<close>

definition body_inv :: "webrequest \<Rightarrow> bool" where
  "body_inv r \<longleftrightarrow> \<not> content_realloc_failed r \<and> length (content r) = unat (content_maxlength r) \<and>
     unat (content_length r) \<le> length (content r) \<and> None \<notin> set (take (unat (content_length r)) (content r))"

definition body :: "webrequest \<Rightarrow> bytes" where
  "body r = map the (take (unat (content_length r)) (content r))"

definition BODY_LIMIT :: nat where "BODY_LIMIT = 2 ^ 62"

lemma length_body: "body_inv r \<Longrightarrow> length (body r) = unat (content_length r)"
  by (simp add: body_inv_def body_def)

lemma body_text_body: "body_inv r \<Longrightarrow> body_text r = Some (body r)"
  by (simp add: body_inv_def body_def body_text_def Let_def)

lemma request_zero_inv: "body_inv (request_zero\<lparr>http_post := p, curl := h\<rparr>)" "body (request_zero\<lparr>http_post := p, curl := h\<rparr>) = []"
  by (simp_all add: body_inv_def body_def request_zero_def)

text \<open>A block of libcurl: how it is divided into elements, its bytes, and whether memory can be had for it.\<close>

datatype chunk = Chunk (chunk_mem: bool) (chunk_size: u64) (chunk_count: u64) (chunk_data: bytes)

definition chunk_ok :: "chunk \<Rightarrow> bool" where
  "chunk_ok c \<longleftrightarrow> chunk_size c * chunk_count c = of_nat (length (chunk_data c))"

definition call_chunk :: "webrequest \<Rightarrow> chunk \<Rightarrow> (u64 \<times> webrequest) option" where
  "call_chunk r c = write_callback (chunk_mem c) (chunk_data c) (chunk_size c) (chunk_count c) r"

lemma unat_small: "n < 2 ^ 64 \<Longrightarrow> unat (of_nat n :: u64) = n"
  by (simp add: unat_of_nat take_bit_nat_eq_self)

lemma grown:
  assumes "unat mx < unat need" "unat need < 2 ^ 62"
  shows "unat need \<le> unat (grown_maxlength mx need)"
proof -
  let ?k = "max need 512"
  have k: "max (max mx need) 512 = ?k" using assms(1) by (simp add: max_def word_le_nat_alt)
  have "unat ?k = max (unat need) 512" by (simp add: max_def word_le_nat_alt)
  then have b: "unat ?k < 2 ^ 62" "unat need \<le> unat ?k" using assms(2) by simp_all
  then have "unat (2 * ?k) = 2 * unat ?k" by (subst unat_mult_lem [THEN iffD1]) simp_all
  then show ?thesis using b(2) unfolding grown_maxlength_def k by simp
qed

lemma body_extend:
  assumes inv: "body_inv r" and need: "unat (content_length r + of_nat (length d)) = unat (content_length r) + length d"
    and m: "mem_copy m (unat (content_length r)) (map Some d) (length d) = Some m1" "length m = unat mx"
      "take (unat (content_length r)) m = take (unat (content_length r)) (content r)"
    and r1: "r1 = r\<lparr>content_maxlength := mx, content := m1, content_length := content_length r + of_nat (length d)\<rparr>"
  shows "body_inv r1 \<and> body r1 = body r @ d"
proof -
  let ?l = "unat (content_length r)"
  have m1: "m1 = take ?l m @ map Some d @ drop (?l + length d) m" "?l + length d \<le> length m"
    using m(1) by (auto simp: mem_copy_def split: if_splits)
  have "take (?l + length d) m1 = take ?l (content r) @ map Some d" using m1 m(3) inv by (simp add: body_inv_def)
  then show ?thesis using inv r1 m(2) m1 need by (auto simp: body_inv_def body_def comp_def)
qed

lemma write_callback_ok:
  assumes "body_inv r" "chunk_ok c" "length (body r) + length (chunk_data c) < BODY_LIMIT"
  shows "\<exists>r1. call_chunk r c = Some (of_nat (length (chunk_data c)), r1) \<and> error r1 = error r \<and>
    (if chunk_mem c \<or> length (body r) + length (chunk_data c) \<le> unat (content_maxlength r)
     then body_inv r1 \<and> body r1 = body r @ chunk_data c
     else content_realloc_failed r1 \<and> body_text r1 = Some (body r))"
proof -
  let ?d = "chunk_data c" and ?l = "unat (content_length r)"
  have n: "?l + length ?d < 2 ^ 62" using assms length_body by (simp add: BODY_LIMIT_def)
  have len: "chunk_size c * chunk_count c = of_nat (length ?d)" "unat (of_nat (length ?d) :: u64) = length ?d"
    using assms(2) n by (simp_all add: chunk_ok_def unat_small)
  have need: "unat (content_length r + of_nat (length ?d)) = ?l + length ?d"
    using len(2) n by (simp add: unat_word_ariths)
  note keep = body_extend [OF assms(1) need]
  show ?thesis
  proof (cases "?l + length ?d \<le> unat (content_maxlength r)")
    case True
    then have "\<not> content_length r + of_nat (length ?d) > content_maxlength r" by (simp add: word_less_nat_alt need)
    moreover obtain m1 where m1: "mem_copy (content r) ?l (map Some ?d) (length ?d) = Some m1" using True assms(1) by (simp add: mem_copy_def body_inv_def)
    ultimately have "call_chunk r c = Some (of_nat (length ?d), r\<lparr>content := m1, content_length := content_length r + of_nat (length ?d)\<rparr>)"
      using assms(1) len by (simp add: call_chunk_def write_callback_def body_inv_def Let_def)
    then show ?thesis using keep [OF m1, of "content_maxlength r"] True assms(1) length_body [OF assms(1)] by (simp add: body_inv_def)
  next
    case False
    let ?need = "content_length r + of_nat (length ?d)"
    let ?mx = "grown_maxlength (content_maxlength r) ?need"
    have big: "?need > content_maxlength r" using False by (simp add: word_less_nat_alt need)
    have mx: "?l + length ?d \<le> unat ?mx" "unat (content_maxlength r) \<le> unat ?mx"
      using grown [of "content_maxlength r" ?need] False need n by auto
    show ?thesis
    proof (cases "chunk_mem c")
      case True
      let ?m = "content r @ replicate (unat ?mx - length (content r)) None"
      have m: "take (unat ?mx) (content r) = content r" "length ?m = unat ?mx" "take ?l ?m = take ?l (content r)"
        using mx assms(1) by (auto simp: body_inv_def)
      obtain m1 where m1: "mem_copy ?m ?l (map Some ?d) (length ?d) = Some m1" using m mx by (simp add: mem_copy_def)
      then have "call_chunk r c = Some (of_nat (length ?d), r\<lparr>content_maxlength := ?mx, content := m1, content_length := ?need\<rparr>)"
        using assms(1) len big m True by (simp add: call_chunk_def write_callback_def body_inv_def Let_def)
      then show ?thesis using keep [OF m1 m(2,3) refl] True by simp
    next
      case mem: False
      then have "call_chunk r c = Some (of_nat (length ?d), r\<lparr>content_maxlength := ?mx, content_realloc_failed := True\<rparr>)"
        using assms(1) len big by (simp add: call_chunk_def write_callback_def body_inv_def Let_def)
      then show ?thesis using mem False body_text_body [OF assms(1)] length_body [OF assms(1)] by (simp add: body_text_def)
    qed
  qed
qed

text \<open>When memory can be had the callback is a way of appending, by the contract the encoder's buffer has too.\<close>

definition deliver :: "webrequest \<Rightarrow> bytes \<Rightarrow> webrequest option" where
  "deliver r d = map_option snd (write_callback True d 1 (of_nat (length d)) r)"

interpretation wb: appender body_inv body deliver BODY_LIMIT
proof
  fix r and d :: bytes
  assume "body_inv r" "length (body r) + length d < BODY_LIMIT"
  then show "\<exists>r1. deliver r d = Some r1 \<and> body_inv r1 \<and> body r1 = body r @ d"
    using write_callback_ok [of r "Chunk True 1 (of_nat (length d)) d"] by (auto simp: deliver_def call_chunk_def chunk_ok_def)
qed

fun run_chunks :: "chunk list \<Rightarrow> webrequest \<Rightarrow> (u64 list \<times> webrequest) option" where
  "run_chunks [] r = Some ([], r)"
| "run_chunks (c # cs) r =
     do { (n, r1) \<leftarrow> call_chunk r c; (ns, r2) \<leftarrow> run_chunks cs r1; Some (n # ns, r2) }"

lemma run_chunks_failed:
  "content_realloc_failed r \<Longrightarrow> list_all chunk_ok cs \<Longrightarrow> run_chunks cs r = Some (map (\<lambda>c. of_nat (length (chunk_data c))) cs, r)"
  by (induction cs) (auto simp: call_chunk_def write_callback_def chunk_ok_def)

lemma run_chunks_spec:
  "body_inv r \<Longrightarrow> list_all chunk_ok cs \<Longrightarrow> length (body r) + length (concat (map chunk_data cs)) < BODY_LIMIT \<Longrightarrow>
    \<exists>r1 k. run_chunks cs r = Some (map (\<lambda>c. of_nat (length (chunk_data c))) cs, r1) \<and> k \<le> length cs \<and> error r1 = error r \<and>
      body_text r1 = Some (body r @ concat (map chunk_data (take k cs))) \<and> (content_realloc_failed r1 \<longleftrightarrow> k < length cs) \<and>
      (list_all chunk_mem cs \<longrightarrow> k = length cs)"
proof (induction cs arbitrary: r)
  case Nil
  then show ?case using body_text_body by (auto simp: body_inv_def)
next
  case (Cons c cs)
  obtain r1 where r1: "call_chunk r c = Some (of_nat (length (chunk_data c)), r1)" "error r1 = error r"
    "if chunk_mem c \<or> length (body r) + length (chunk_data c) \<le> unat (content_maxlength r)
     then body_inv r1 \<and> body r1 = body r @ chunk_data c else content_realloc_failed r1 \<and> body_text r1 = Some (body r)"
    using write_callback_ok [of r c] Cons.prems by auto
  show ?case
  proof (cases "chunk_mem c \<or> length (body r) + length (chunk_data c) \<le> unat (content_maxlength r)")
    case True
    then have "body_inv r1" "body r1 = body r @ chunk_data c" using r1(3) by auto
    with Cons.IH [of r1] Cons.prems obtain r2 k where "run_chunks cs r1 = Some (map (\<lambda>c. of_nat (length (chunk_data c))) cs, r2)" "k \<le> length cs"
      "error r2 = error r1" "body_text r2 = Some (body r1 @ concat (map chunk_data (take k cs)))" "content_realloc_failed r2 \<longleftrightarrow> k < length cs"
      "list_all chunk_mem cs \<longrightarrow> k = length cs" by auto
    then show ?thesis using r1(1,2) \<open>body r1 = body r @ chunk_data c\<close> by (intro exI [of _ r2] exI [of _ "Suc k"]) auto
  next
    case False
    then have "content_realloc_failed r1" "body_text r1 = Some (body r)" using r1(3) by auto
    then show ?thesis using r1(1,2) False Cons.prems(2) run_chunks_failed [of r1 cs] by (intro exI [of _ r1] exI [of _ 0]) auto
  qed
qed

text \<open>
  C32: after a request was started, the blocks libcurl delivers are stored one behind the other, in order and without a write
  outside the memory, however they are cut and however often the memory grows; the callback always reports the whole block
  as taken. When memory runs out, what was stored before is kept, later blocks are dropped, and \<^verbatim>\<open>get_respond\<close> says so; it
  reports no error otherwise.
\<close>

theorem webclient_body_is_concat:
  assumes "webclient_realrequest easy added url post field timeout = (Some r, calls)"
    "list_all chunk_ok cs" "length (concat (map chunk_data cs)) < 2 ^ 62"
  shows "\<exists>r1 k. run_chunks cs r = Some (map (\<lambda>c. of_nat (length (chunk_data c))) cs, r1) \<and> k \<le> length cs \<and>
    (\<exists>r2. webclient_getrespond (Some r1) = WOk (concat (map chunk_data (take k cs)),
       if k < length cs then Some (str ''not enough memory.'') else None, r2)) \<and>
    (list_all chunk_mem cs \<longrightarrow> k = length cs)"
proof -
  have r: "body_inv r" "body r = []" "error r = []"
    using assms(1) request_zero_inv by (auto simp: webclient_realrequest_def Let_def request_zero_def split: option.splits if_splits)
  obtain r1 k where c: "run_chunks cs r = Some (map (\<lambda>c. of_nat (length (chunk_data c))) cs, r1)" "k \<le> length cs" "error r1 = []"
    "body_text r1 = Some (concat (map chunk_data (take k cs)))" "content_realloc_failed r1 \<longleftrightarrow> k < length cs" "list_all chunk_mem cs \<longrightarrow> k = length cs"
    using run_chunks_spec [OF r(1) assms(2)] assms(3) r by (auto simp: BODY_LIMIT_def)
  have "body_text (r1\<lparr>error := e\<rparr>) = body_text r1" for e by (simp add: body_text_def)
  then have "\<exists>r2. webclient_getrespond (Some r1) = WOk (concat (map chunk_data (take k cs)), if k < length cs then Some (str ''not enough memory.'') else None, r2)"
    using c by (auto simp: webclient_getrespond_def Let_def str_def)
  then show ?thesis using c by blast
qed

theorem webclient_body_is_concat_witness:
  "\<exists>r1 r2. run_chunks [Chunk True 1 3 [1, 2, 3], Chunk True 2 1 [4, 5]] (request_zero\<lparr>http_post := [], curl := 7\<rparr>) = Some ([3, 2], r1) \<and>
    webclient_getrespond (Some r1) = WOk ([1, 2, 3, 4, 5], None, r2)"
proof -
  have "webclient_realrequest (Some 7) True [] [] None 5000 =
      (Some (request_zero\<lparr>http_post := [], curl := 7\<rparr>), snd (webclient_realrequest (Some 7) True [] [] None 5000))"
    by (simp add: webclient_realrequest_def Let_def)
  from webclient_body_is_concat [OF this, of "[Chunk True 1 3 [1, 2, 3], Chunk True 2 1 [4, 5]]"] show ?thesis
    by (auto simp: chunk_ok_def)
qed

subsection \<open>Forms\<close>

text \<open>The options of one field, as a reference without the array.\<close>

definition field_forms :: "(lua_value \<Rightarrow> bytes) \<Rightarrow> bytes \<Rightarrow> lua_value \<Rightarrow> forms" where
  "field_forms ns key v =
     (let value = lua_tolstring ns v; k = c_text key
      in if k = str ''name'' then [(COPYNAME, FText value)]
         else if k = str ''contents'' then
           [(COPYCONTENTS, FText value), (CONTENTSLENGTH, FLength (case value of None \<Rightarrow> 0 | Some s \<Rightarrow> length s))]
         else if k = str ''file'' then [(FORMFILE, FText value)]
         else if k = str ''content_type'' then [(CONTENTTYPE, FText value)]
         else if k = str ''filename'' then [(FILENAME, FText value)]
         else [])"

definition part_forms :: "(lua_value \<Rightarrow> bytes) \<Rightarrow> (bytes \<times> lua_value) list \<Rightarrow> forms" where
  "part_forms ns ps = concat (map (\<lambda>(k, v). field_forms ns k v) ps) @ [(FORMEND, FText None)]"

definition key_pairs :: "(bytes \<times> lua_value) list \<Rightarrow> (lua_value \<times> lua_value) list" where
  "key_pairs ps = map (\<lambda>(k, v). (LString k, v)) ps"

definition key_weight :: "bytes \<Rightarrow> nat" where
  "key_weight k = (if k = str ''contents'' then 2 else if k \<in> {str ''name'', str ''file'', str ''content_type'', str ''filename''} then 1 else 0)"

lemma known_keys: "distinct [str ''contents'', str ''name'', str ''file'', str ''content_type'', str ''filename'']"
  by (simp add: str_def chr_def)

lemma length_field_forms: "length (field_forms ns key v) = key_weight (c_text key)"
  using known_keys by (auto simp: field_forms_def key_weight_def Let_def)

lemma put_field_forms: "length fs + key_weight (c_text key) \<le> 8 \<Longrightarrow> put_field ns key v fs = Some (fs @ field_forms ns key v)"
  using known_keys by (auto simp: put_field_def field_forms_def put_form_def forms_max_index_def key_weight_def Let_def)

lemma key_weights:
  assumes "distinct ks"
  shows "sum_list (map key_weight ks) \<le> 6"
proof -
  let ?K = "{str ''contents'', str ''name'', str ''file'', str ''content_type'', str ''filename''}"
  have "sum_list (map key_weight ks) = sum key_weight (set ks)" using assms by (simp add: sum_list_distinct_conv_sum_set)
  also have "\<dots> = sum key_weight (set ks \<inter> ?K)" by (rule sum.mono_neutral_right) (auto simp: key_weight_def)
  also have "\<dots> \<le> sum key_weight ?K" by (rule sum_mono2) auto
  also have "\<dots> = 6" using known_keys by (auto simp: key_weight_def)
  finally show ?thesis .
qed

lemma form_fields_spec:
  "length fs + sum_list (map (\<lambda>p. key_weight (c_text (fst p))) ps) \<le> 6 \<Longrightarrow>
    form_fields ns (key_pairs ps) fs = Some (fs @ concat (map (\<lambda>(k, v). field_forms ns k v) ps), False)"
proof (induction ps arbitrary: fs)
  case Nil
  then show ?case by (simp add: key_pairs_def form_fields.simps forms_max_index_def)
next
  case (Cons p ps)
  obtain k v where p: "p = (k, v)" by fastforce
  have "put_field ns k v fs = Some (fs @ field_forms ns k v)" using Cons.prems by (intro put_field_forms) (simp add: p)
  moreover have "form_fields ns (key_pairs ps) (fs @ field_forms ns k v) = Some ((fs @ field_forms ns k v) @ concat (map (\<lambda>(k, v). field_forms ns k v) ps), False)"
    using Cons.prems by (intro Cons.IH) (simp add: p length_field_forms)
  moreover have "\<not> length fs \<ge> forms_max_index" using Cons.prems by (simp add: forms_max_index_def)
  ultimately show ?case
    by (simp add: p key_pairs_def form_fields.simps [of ns "_ # _"] lua_tolstring_def)
qed

lemma form_part:
  assumes "distinct (map (\<lambda>p. c_text (fst p)) ps)"
  shows "\<exists>fs. form_fields ns (key_pairs ps) [] = Some (fs, False) \<and> put_form FORMEND (FText None) fs = Some (part_forms ns ps)"
proof -
  have w: "sum_list (map (\<lambda>p. key_weight (c_text (fst p))) ps) \<le> 6" using key_weights [OF assms] by (simp add: comp_def)
  have "length (concat (map (\<lambda>(k, v). field_forms ns k v) ps)) = sum_list (map (\<lambda>p. key_weight (c_text (fst p))) ps)"
    by (induction ps) (auto simp: length_field_forms)
  then show ?thesis using form_fields_spec [of "[]" ps ns] w by (simp add: put_form_def forms_max_index_def part_forms_def)
qed

text \<open>A table of parts.\<close>

definition post_table :: "(lua_value \<times> (bytes \<times> lua_value) list) list \<Rightarrow> (lua_value \<times> lua_value) list" where
  "post_table parts = map (\<lambda>(k, ps). (k, LTable (key_pairs ps))) parts"

lemma find_shift: "find P (map Suc ks) = map_option Suc (find (\<lambda>k. P (Suc k)) ks)"
  by (induction ks) auto

lemma post_loop_parts:
  "list_all (\<lambda>x. distinct (map (\<lambda>p. c_text (fst p)) (snd x))) parts \<Longrightarrow>
    post_loop ns add (post_table parts) items =
      (case find (\<lambda>k. \<not> add (items @ map (part_forms ns \<circ> snd) (take k parts)) (part_forms ns (snd (parts ! k)))) [0..<length parts] of
         None \<Rightarrow> if items = [] \<and> parts = [] then PostNull [] else PostOk (items @ map (part_forms ns \<circ> snd) parts)
       | Some k \<Rightarrow> PostNull [FormFree (items @ map (part_forms ns \<circ> snd) (take k parts))])"
proof (induction parts arbitrary: items)
  case Nil
  then show ?case by (simp add: post_table_def)
next
  case (Cons x parts)
  obtain k ps where x: "x = (k, ps)" by fastforce
  obtain fs where fs: "form_fields ns (key_pairs ps) [] = Some (fs, False)" "put_form FORMEND (FText None) fs = Some (part_forms ns ps)"
    using form_part [of ps ns] Cons.prems by (auto simp: x)
  have f: "find P [0..<Suc n] = (if P 0 then Some 0 else map_option Suc (find (\<lambda>k. P (Suc k)) [0..<n]))" for P n
    by (simp add: upt_conv_Cons find_shift map_Suc_upt [symmetric] del: upt_Suc)
  show ?case
    using Cons.IH [of "items @ [part_forms ns ps]"] Cons.prems fs
    by (auto simp: x post_table_def f simp del: upt_Suc split: option.splits)
qed

text \<open>
  C33: a form whose parts have string keys that differ as C strings is turned into exactly one option list per part, in order,
  each closed by the end mark; the array of eight options never overflows. When libcurl refuses a part, the parts before it
  are freed and no form is sent.
\<close>

theorem webclient_forms_fit:
  assumes "list_all (\<lambda>x. distinct (map (\<lambda>p. c_text (fst p)) (snd x))) parts"
  shows "webclient_tohttppost ns add (post_table parts) =
    (case find (\<lambda>k. \<not> add (map (part_forms ns \<circ> snd) (take k parts)) (part_forms ns (snd (parts ! k)))) [0..<length parts] of
       None \<Rightarrow> if parts = [] then PostNull [] else PostOk (map (part_forms ns \<circ> snd) parts)
     | Some k \<Rightarrow> PostNull [FormFree (map (part_forms ns \<circ> snd) (take k parts))])"
  unfolding webclient_tohttppost_def post_loop_parts [OF assms] append_Nil simp_thms ..

theorem webclient_forms_fit_witness:
  "webclient_tohttppost (\<lambda>_. []) (\<lambda>_ _. True) (post_table [(LString [1], [(str ''name'', LString [97]), (str ''contents'', LString [98, 99])])]) =
    PostOk [[(COPYNAME, FText (Some [97])), (COPYCONTENTS, FText (Some [98, 99])), (CONTENTSLENGTH, FLength 2), (FORMEND, FText None)]]"
proof -
  have k: "c_text (str ''name'') = str ''name''" "c_text (str ''contents'') = str ''contents''" by (simp_all add: c_text_def str_def chr_def)
  then show ?thesis
    using webclient_forms_fit [of "[(LString [1], [(str ''name'', LString [97]), (str ''contents'', LString [98, 99])])]" "\<lambda>_. []" "\<lambda>_ _. True"] known_keys
    by (auto simp: part_forms_def field_forms_def lua_tolstring_def Let_def)
qed

text \<open>
  Lua keys that differ behind a zero byte are the same to \<^verbatim>\<open>strcmp\<close>: four keys that read "contents" fill the array of eight
  and the end mark is written behind it.
\<close>

lemma webclient_forms_overflow:
  "webclient_tohttppost ns add [(k, LTable (key_pairs (map (\<lambda>c. (str ''contents'' @ [0, c], LString [])) [1, 2, 3, 4])))] = PostBad"
  by (simp add: webclient_tohttppost_def key_pairs_def form_fields.simps lua_tolstring_def put_field_def put_form_def forms_max_index_def
      c_text_def str_def chr_def Let_def)

text \<open>A form that was built is neither sent nor freed when the timeout is refused afterwards, or when the request fails.\<close>

lemma webclient_request_leaks_form:
  assumes "lua_tolstring ns url = Some u" "webclient_tohttppost ns add ps = PostOk post" "tonum t = Some n" "n < 0"
  shows "webclient_request ns tonum add easy added [url, LTable ps, t] = (WArgErr 4 ''parameter connect_timeout_ms invalid'', [])"
  using assms by (simp add: webclient_request_def start_request_def request_timeout_def)

end
