(* ===== verification/Srp.thy ===== *)
theory Srp
  imports Lua_Value
begin

text \<open>
  The password protocol of lua-srp.c, which calls the SRP functions and the big numbers of OpenSSL. These are the fields of
  \<open>srp_env\<close>, for the group that \<^verbatim>\<open>SRP_get_default_gN("1024")\<close> gives; \<open>None\<close> is a null pointer. A big number is a natural
  number. Every function gives the strings it pushes and the big numbers it frees; \<open>SErr\<close> is an error raised to Lua, \<open>SBad\<close>
  undefined behaviour. The random bytes are an argument, one string of 32 bytes for every call of \<^verbatim>\<open>RAND_bytes\<close>; \<open>SWait\<close> is
  a loop that still runs when they are used up.
\<close>

record srp_env =
  bn_of :: "bytes \<Rightarrow> nat"
  bn_bytes :: "nat \<Rightarrow> bytes"
  create_verifier :: "bytes \<Rightarrow> bytes \<Rightarrow> (nat \<times> nat) option"
  calc_A :: "nat \<Rightarrow> nat option"
  calc_B :: "nat \<Rightarrow> nat \<Rightarrow> nat option"
  verify_A :: "nat option \<Rightarrow> bool"
  verify_B :: "nat option \<Rightarrow> bool"
  calc_u :: "nat \<Rightarrow> nat option \<Rightarrow> nat option"
  calc_x :: "nat \<Rightarrow> bytes \<Rightarrow> bytes \<Rightarrow> nat option"
  calc_server_key :: "nat \<Rightarrow> nat \<Rightarrow> nat option \<Rightarrow> nat \<Rightarrow> nat option"
  calc_client_key :: "nat \<Rightarrow> nat option \<Rightarrow> nat \<Rightarrow> nat option \<Rightarrow> nat option"

datatype bn_release = BN_free "nat option" | BN_clear_free "nat option"

datatype 'a srp = SOk 'a | SErr | SBad | SWait

primrec srp_bind :: "'a srp \<Rightarrow> ('a \<Rightarrow> 'b srp) \<Rightarrow> 'b srp" where
  "srp_bind (SOk x) f = f x"
| "srp_bind SErr f = SErr"
| "srp_bind SBad f = SBad"
| "srp_bind SWait f = SWait"

definition KEY_SIZE :: nat where "KEY_SIZE = 32"

definition random_key :: "srp_env \<Rightarrow> bytes \<Rightarrow> nat" where
  "random_key env tmp = bn_of env tmp"

text \<open>The bytes are written to an array of 1024 before their number is looked at.\<close>

definition push_bn :: "srp_env \<Rightarrow> nat option \<Rightarrow> bytes srp" where
  "push_bn env bn =
     (case bn of None \<Rightarrow> SBad | Some n \<Rightarrow> let buf = bn_bytes env n in if length buf < 1024 then SOk buf else SBad)"

definition lua_tobn :: "(lua_value \<Rightarrow> bytes) \<Rightarrow> srp_env \<Rightarrow> lua_value \<Rightarrow> nat srp" where
  "lua_tobn ns env v = (case lua_tolstring ns v of None \<Rightarrow> SErr | Some s \<Rightarrow> SOk (bn_of env s))"

definition checkstring :: "(lua_value \<Rightarrow> bytes) \<Rightarrow> lua_value \<Rightarrow> bytes srp" where
  "checkstring ns v = (case lua_tolstring ns v of None \<Rightarrow> SErr | Some s \<Rightarrow> SOk (c_text s))"

fun push_all :: "srp_env \<Rightarrow> nat option list \<Rightarrow> bytes list srp" where
  "push_all env [] = SOk []"
| "push_all env (n # ns) = srp_bind (push_bn env n) (\<lambda>b. srp_bind (push_all env ns) (\<lambda>bs. SOk (b # bs)))"

definition lcreate_verifier :: "(lua_value \<Rightarrow> bytes) \<Rightarrow> srp_env \<Rightarrow> lua_value \<Rightarrow> lua_value \<Rightarrow> (bytes list \<times> bn_release list) srp" where
  "lcreate_verifier ns env vI vp =
     srp_bind (checkstring ns vI) (\<lambda>I. srp_bind (checkstring ns vp) (\<lambda>p.
       case create_verifier env I p of
         None \<Rightarrow> SOk ([], [])
       | Some (s, v) \<Rightarrow> srp_bind (push_all env [Some s, Some v]) (\<lambda>bs. SOk (bs, [BN_free (Some s), BN_clear_free (Some v)]))))"

text \<open>The loop of \<^verbatim>\<open>lcreate_client_key\<close>: the numbers it ends with and those it freed on the way.\<close>

fun client_key_loop :: "srp_env \<Rightarrow> bytes list \<Rightarrow> (nat \<times> nat option \<times> bn_release list) srp" where
  "client_key_loop env [] = SWait"
| "client_key_loop env (tmp # rnd) =
     (let a = random_key env tmp; A = calc_A env a
      in if \<not> verify_A env A
         then srp_bind (client_key_loop env rnd) (\<lambda>(a1, A1, fr). SOk (a1, A1, [BN_clear_free (Some a), BN_free A] @ fr))
         else SOk (a, A, []))"

definition lcreate_client_key :: "srp_env \<Rightarrow> bytes list \<Rightarrow> (bytes list \<times> bn_release list) srp" where
  "lcreate_client_key env rnd =
     srp_bind (client_key_loop env rnd) (\<lambda>(a, A, fr).
       srp_bind (push_all env [Some a, A]) (\<lambda>bs. SOk (bs, fr @ [BN_clear_free (Some a), BN_free A])))"

fun server_key_loop :: "srp_env \<Rightarrow> nat \<Rightarrow> bytes list \<Rightarrow> (nat \<times> nat option \<times> bn_release list) srp" where
  "server_key_loop env v [] = SWait"
| "server_key_loop env v (tmp # rnd) =
     (let b = random_key env tmp; B = calc_B env b v
      in if \<not> verify_B env B
         then srp_bind (server_key_loop env v rnd) (\<lambda>(b1, B1, fr). SOk (b1, B1, [BN_clear_free (Some b), BN_free B] @ fr))
         else SOk (b, B, []))"

definition lcreate_server_session_key ::
  "(lua_value \<Rightarrow> bytes) \<Rightarrow> srp_env \<Rightarrow> bytes list \<Rightarrow> lua_value \<Rightarrow> lua_value \<Rightarrow> (bytes list \<times> bn_release list) srp" where
  "lcreate_server_session_key ns env rnd vv vA =
     srp_bind (lua_tobn ns env vv) (\<lambda>v. srp_bind (lua_tobn ns env vA) (\<lambda>A.
       srp_bind (server_key_loop env v rnd) (\<lambda>(b, B, fr).
         let u = calc_u env A B; K = calc_server_key env A v u b
         in srp_bind (push_all env [K, Some b, B]) (\<lambda>bs.
              SOk (bs, fr @ [BN_clear_free (Some b), BN_free B, BN_clear_free (Some v), BN_free (Some A), BN_clear_free u, BN_clear_free K])))))"

definition lcreate_client_session_key ::
  "(lua_value \<Rightarrow> bytes) \<Rightarrow> srp_env \<Rightarrow> lua_value \<Rightarrow> lua_value \<Rightarrow> lua_value \<Rightarrow> lua_value \<Rightarrow> lua_value \<Rightarrow> lua_value \<Rightarrow>
    (bytes list \<times> bn_release list) srp" where
  "lcreate_client_session_key ns env vI vp vs va vA vB =
     srp_bind (checkstring ns vI) (\<lambda>I. srp_bind (checkstring ns vp) (\<lambda>p.
       srp_bind (lua_tobn ns env vs) (\<lambda>s. srp_bind (lua_tobn ns env va) (\<lambda>a.
       srp_bind (lua_tobn ns env vA) (\<lambda>A. srp_bind (lua_tobn ns env vB) (\<lambda>B.
         let u = calc_u env A (Some B); x = calc_x env s I p; K = calc_client_key env B x a u
         in srp_bind (push_all env [K]) (\<lambda>bs.
              SOk (bs, [BN_free (Some s), BN_clear_free (Some a), BN_free (Some A), BN_free (Some B), BN_clear_free u, BN_clear_free x, BN_clear_free K]))))))))"

definition lrandom :: "srp_env \<Rightarrow> bytes \<Rightarrow> (bytes list \<times> bn_release list) srp" where
  "lrandom env tmp = (let r = random_key env tmp in srp_bind (push_all env [Some r]) (\<lambda>bs. SOk (bs, [BN_free (Some r)])))"

subsection \<open>What OpenSSL documents\<close>

text \<open>
  The equations of SRP-6a for a modulus \<open>N\<close>, a generator \<open>g\<close> and a multiplier \<open>k\<close>, where \<open>X\<close> and \<open>U\<close> are the hash functions for
  the exponents, and the conversion of big numbers to bytes and bn_back. The last two say that group elements, salts and
  random keys are shorter than the array of \<^verbatim>\<open>push_bn\<close>.
\<close>

record srp_group =
  gN :: nat
  gg :: nat
  gk :: nat
  gX :: "nat \<Rightarrow> bytes \<Rightarrow> bytes \<Rightarrow> nat"
  gU :: "nat \<Rightarrow> nat \<Rightarrow> nat"

definition bn_laws :: "srp_env \<Rightarrow> srp_group \<Rightarrow> bool" where
  "bn_laws env G \<longleftrightarrow> (\<forall>n. bn_of env (bn_bytes env n) = n) \<and> bn_of env [] = 0 \<and>
     (\<forall>n < gN G. length (bn_bytes env n) < 1024) \<and> (\<forall>tmp. length tmp = KEY_SIZE \<longrightarrow> length (bn_bytes env (bn_of env tmp)) < 1024)"

definition srp_laws :: "srp_env \<Rightarrow> srp_group \<Rightarrow> bool" where
  "srp_laws env G \<longleftrightarrow> 1 < gN G \<and> coprime (gg G) (gN G) \<and>
     (\<forall>I p s v. create_verifier env I p = Some (s, v) \<longrightarrow> v = gg G ^ gX G s I p mod gN G) \<and>
     (\<forall>a. calc_A env a = Some (gg G ^ a mod gN G)) \<and>
     (\<forall>b v. calc_B env b v = Some ((gk G * v + gg G ^ b) mod gN G)) \<and>
     (\<forall>n. verify_A env (Some n) \<longleftrightarrow> n mod gN G \<noteq> 0) \<and> (\<forall>n. verify_B env (Some n) \<longleftrightarrow> n mod gN G \<noteq> 0) \<and>
     (\<forall>A B. A < gN G \<longrightarrow> B < gN G \<longrightarrow> calc_u env A (Some B) = Some (gU G A B)) \<and>
     (\<forall>s I p. calc_x env s I p = Some (gX G s I p)) \<and>
     (\<forall>A v u b. calc_server_key env A v (Some u) b = Some ((A * v ^ u) ^ b mod gN G)) \<and>
     (\<forall>B x a u. B < gN G \<longrightarrow>
        calc_client_key env B (Some x) a (Some u) = Some ((B + (gN G - gk G * gg G ^ x mod gN G)) ^ (a + u * x) mod gN G))"

subsection \<open>The two keys\<close>

text \<open>Taking away the share of the verifier leaves the power of the server.\<close>

lemma unblind:
  fixes N :: nat
  assumes "1 < N"
  shows "((k * (g ^ x mod N) + g ^ b) mod N + (N - k * g ^ x mod N)) mod N = g ^ b mod N"
proof -
  let ?c = "k * g ^ x mod N"
  have e: "(k * (g ^ x mod N) + g ^ b) mod N = (?c + g ^ b) mod N" by (metis mod_add_left_eq mod_mult_right_eq)
  have "((k * (g ^ x mod N) + g ^ b) mod N + (N - ?c)) mod N = (?c + g ^ b + (N - ?c)) mod N" unfolding e by (rule mod_add_left_eq)
  also have "?c + g ^ b + (N - ?c) = g ^ b + N" using assms by (simp add: less_imp_le)
  finally show ?thesis by simp
qed

lemma keys_equal:
  fixes N :: nat
  assumes "1 < N"
  shows "((k * (g ^ x mod N) + g ^ b) mod N + (N - k * g ^ x mod N)) ^ (a + u * x) mod N = (g ^ a mod N * (g ^ x mod N) ^ u) ^ b mod N"
proof -
  have "((k * (g ^ x mod N) + g ^ b) mod N + (N - k * g ^ x mod N)) ^ (a + u * x) mod N = (g ^ b) ^ (a + u * x) mod N"
    using unblind [OF assms] by (metis power_mod)
  also have "(g ^ b) ^ (a + u * x) = (g ^ a * (g ^ x) ^ u) ^ b" by (simp add: power_add power_mult_distrib ac_simps flip: power_mult)
  also have "(g ^ a * (g ^ x) ^ u) ^ b mod N = (g ^ a mod N * (g ^ x mod N) ^ u) ^ b mod N"
  proof -
    have "(g ^ a * (g ^ x) ^ u) mod N = (g ^ a mod N * (g ^ x mod N) ^ u) mod N"
      by (subst (1 2) mod_mult_eq [symmetric]) (simp add: power_mod)
    then show ?thesis by (metis power_mod)
  qed
  finally show ?thesis .
qed

subsection \<open>What the functions give\<close>

lemma push_bn_SOk: "push_bn env n = SOk b \<longleftrightarrow> (\<exists>m. n = Some m \<and> b = bn_bytes env m \<and> length (bn_bytes env m) < 1024)"
  by (auto simp: push_bn_def Let_def split: option.splits)

lemma srp_bind_SOk: "srp_bind m f = SOk y \<longleftrightarrow> (\<exists>x. m = SOk x \<and> f x = SOk y)"
  by (cases m) auto

lemmas srp_ok = srp_bind_SOk push_bn_SOk lua_tobn_def checkstring_def lua_tolstring_def

lemma verifier_SOk:
  assumes "srp_laws env G" "lcreate_verifier ns env (LString I) (LString p) = SOk ([s, v], fr)"
  shows "\<exists>s1. s = bn_bytes env s1 \<and> v = bn_bytes env (gg G ^ gX G s1 (c_text I) (c_text p) mod gN G)"
  using assms by (auto simp: lcreate_verifier_def srp_ok srp_laws_def split: option.splits)

lemma client_key_loop_SOk: "client_key_loop env rnd = SOk (a, A, fr) \<Longrightarrow> A = calc_A env a"
  by (induction env rnd arbitrary: fr rule: client_key_loop.induct) (auto simp: Let_def srp_bind_SOk split: if_splits)

lemma client_key_SOk:
  assumes "srp_laws env G" "lcreate_client_key env rnd = SOk ([a, A], fr)"
  shows "\<exists>a1. a = bn_bytes env a1 \<and> A = bn_bytes env (gg G ^ a1 mod gN G)"
  using assms by (auto simp: lcreate_client_key_def srp_ok srp_laws_def dest!: client_key_loop_SOk)

lemma server_key_loop_SOk: "server_key_loop env v rnd = SOk (b, B, fr) \<Longrightarrow> B = calc_B env b v"
  by (induction env v rnd arbitrary: fr rule: server_key_loop.induct) (auto simp: Let_def srp_bind_SOk split: if_splits)

lemma server_key_SOk:
  assumes "srp_laws env G" "lcreate_server_session_key ns env rnd (LString v) (LString A) = SOk ([K, b, B], fr)" "bn_of env A < gN G"
  shows "\<exists>b1. B = bn_bytes env ((gk G * bn_of env v + gg G ^ b1) mod gN G) \<and>
    K = bn_bytes env ((bn_of env A * bn_of env v ^ gU G (bn_of env A) ((gk G * bn_of env v + gg G ^ b1) mod gN G)) ^ b1 mod gN G)"
proof -
  have N: "0 < gN G" using assms(1) by (simp add: srp_laws_def)
  have c: "calc_u env (bn_of env A) (Some (n mod gN G)) = Some (gU G (bn_of env A) (n mod gN G))" for n
    using assms(1,3) N by (simp add: srp_laws_def)
  show ?thesis using assms(1,2) c
    by (auto simp: lcreate_server_session_key_def srp_ok srp_laws_def Let_def dest!: server_key_loop_SOk)
qed

text \<open>
  C34: a client that knows the password agrees with the server. With a verifier that was made from the name and the password,
  and the public values each side made for the other, the client computes the same session key as the server, whatever
  the random numbers are, and its call does not fail.
\<close>

theorem srp_session_keys_agree:
  assumes "bn_laws env G" "srp_laws env G"
    and "lcreate_verifier ns env (LString I) (LString p) = SOk ([s, v], f1)"
    and "lcreate_client_key env rnd1 = SOk ([a, A], f2)"
    and "lcreate_server_session_key ns env rnd2 (LString v) (LString A) = SOk ([K, b, B], f3)"
  shows "\<exists>f4. lcreate_client_session_key ns env (LString I) (LString p) (LString s) (LString a) (LString A) (LString B) = SOk ([K], f4)"
proof -
  let ?N = "gN G" and ?g = "gg G" and ?k = "gk G"
  have N: "1 < ?N" using assms(2) by (simp add: srp_laws_def)
  have bn_back: "bn_of env (bn_bytes env n) = n" for n using assms(1) by (simp add: bn_laws_def)
  obtain s1 where s: "s = bn_bytes env s1" "v = bn_bytes env (?g ^ gX G s1 (c_text I) (c_text p) mod ?N)" using verifier_SOk [OF assms(2,3)] by blast
  obtain a1 where a: "a = bn_bytes env a1" "A = bn_bytes env (?g ^ a1 mod ?N)" using client_key_SOk [OF assms(2,4)] by blast
  let ?x = "gX G s1 (c_text I) (c_text p)" and ?A = "?g ^ a1 mod ?N"
  obtain b1 where b: "B = bn_bytes env ((?k * (?g ^ ?x mod ?N) + ?g ^ b1) mod ?N)"
    "K = bn_bytes env ((?A * (?g ^ ?x mod ?N) ^ gU G ?A ((?k * (?g ^ ?x mod ?N) + ?g ^ b1) mod ?N)) ^ b1 mod ?N)"
    using server_key_SOk [OF assms(2,5)] N by (auto simp: s a bn_back)
  let ?B = "(?k * (?g ^ ?x mod ?N) + ?g ^ b1) mod ?N" and ?K = "(?A * (?g ^ ?x mod ?N) ^ gU G ?A ((?k * (?g ^ ?x mod ?N) + ?g ^ b1) mod ?N)) ^ b1 mod ?N"
  have lt: "?A < ?N" "?B < ?N" "?K < ?N" using N by auto
  have "calc_u env ?A (Some ?B) = Some (gU G ?A ?B)" "calc_x env s1 (c_text I) (c_text p) = Some ?x" using assms(2) lt by (simp_all add: srp_laws_def)
  moreover have "calc_client_key env ?B (Some ?x) a1 (Some (gU G ?A ?B)) = Some ?K"
    using assms(2) lt(2) keys_equal [OF N, of ?k ?g ?x b1 a1 "gU G ?A ?B"] by (simp add: srp_laws_def)
  moreover have "push_bn env (Some ?K) = SOk (bn_bytes env ?K)" using assms(1) lt(3) by (simp add: push_bn_def bn_laws_def)
  ultimately show ?thesis
    unfolding b(2) by (simp add: lcreate_client_session_key_def checkstring_def lua_tobn_def lua_tolstring_def s(1) a b(1) bn_back Let_def)
qed

text \<open>The client's loop ends in its first round: a power of the generator is never a multiple of the modulus.\<close>

lemma client_key_first_round:
  assumes "bn_laws env G" "srp_laws env G" "length tmp = KEY_SIZE"
  shows "lcreate_client_key env (tmp # rnd) =
    SOk ([bn_bytes env (bn_of env tmp), bn_bytes env (gg G ^ bn_of env tmp mod gN G)],
      [BN_clear_free (Some (bn_of env tmp)), BN_free (Some (gg G ^ bn_of env tmp mod gN G))])"
proof -
  have N: "1 < gN G" "coprime (gg G) (gN G)" using assms(2) by (simp_all add: srp_laws_def)
  then have "coprime (gg G ^ n) (gN G)" for n by simp
  then have "gg G ^ n mod gN G \<noteq> 0" for n
    using N(1) by (metis coprime_absorb_right dvd_eq_mod_eq_0 nat_dvd_1_iff_1 less_irrefl)
  then have "verify_A env (calc_A env n)" for n using assms(2) by (simp add: srp_laws_def)
  moreover have "push_bn env (Some n) = SOk (bn_bytes env n)" if "n < gN G \<or> n = bn_of env tmp" for n
    using that assms(1,3) by (auto simp: push_bn_def bn_laws_def Let_def)
  ultimately show ?thesis using assms(2) N(1) by (simp add: lcreate_client_key_def random_key_def Let_def srp_laws_def)
qed

text \<open>
  the server accepts zero as the public value of the client, which it does not check: the session key is then zero for
  every account, so that a client that knows no password shares a key with the server.
\<close>

theorem srp_zero_key_accepted:
  assumes "bn_laws env G" "srp_laws env G" "length tmp = KEY_SIZE" "bn_of env tmp \<noteq> 0"
    "(gk G * bn_of env v + gg G ^ bn_of env tmp) mod gN G \<noteq> 0"
  shows "\<exists>b B fr. lcreate_server_session_key ns env (tmp # rnd) (LString v) (LString []) = SOk ([bn_bytes env 0, b, B], fr)"
proof -
  let ?b = "bn_of env tmp" and ?B = "(gk G * bn_of env v + gg G ^ bn_of env tmp) mod gN G"
  have N: "1 < gN G" using assms(2) by (simp add: srp_laws_def)
  have loop: "server_key_loop env (bn_of env v) (tmp # rnd) = SOk (?b, Some ?B, [])" using assms(2,5) by (simp add: random_key_def srp_laws_def Let_def)
  have "calc_u env 0 (Some ?B) = Some (gU G 0 ?B)" using assms(2) N by (simp add: srp_laws_def)
  then have "calc_server_key env 0 (bn_of env v) (calc_u env 0 (Some ?B)) ?b = Some 0" using assms(2,4) by (simp add: srp_laws_def zero_power)
  moreover have "push_bn env (Some n) = SOk (bn_bytes env n)" if "n < gN G \<or> n = ?b" for n
    using that assms(1,3) by (auto simp: push_bn_def bn_laws_def Let_def)
  moreover have "bn_of env [] = 0" using assms(1) by (simp add: bn_laws_def)
  ultimately show ?thesis using loop N by (simp add: lcreate_server_session_key_def lua_tobn_def lua_tolstring_def Let_def)
qed

subsection \<open>A small group\<close>

text \<open>Big numbers in big endian order and the group of order 22 modulo 23, as an instance of the equations.\<close>

fun be_bytes :: "nat \<Rightarrow> bytes" where
  "be_bytes n = (if n = 0 then [] else be_bytes (n div 256) @ [of_nat n])"

declare be_bytes.simps [simp del]

definition be_val :: "bytes \<Rightarrow> nat" where
  "be_val bs = foldl (\<lambda>x b. x * 256 + unat b) 0 bs"

lemma be_val_bytes: "be_val (be_bytes n) = n"
proof (induction n rule: be_bytes.induct)
  case (1 n)
  then show ?case by (simp add: be_bytes.simps [of n] be_val_def unat_of_nat take_bit_eq_mod)
qed

lemma length_be_bytes: "n < 256 ^ m \<Longrightarrow> length (be_bytes n) \<le> m"
proof (induction m arbitrary: n)
  case (Suc m)
  then have "n div 256 < 256 ^ m" by (simp add: less_mult_imp_div_less mult.commute)
  then show ?case using Suc.IH by (simp add: be_bytes.simps [of n])
qed (simp add: be_bytes.simps)

lemma be_val_bound: "be_val bs < 256 ^ length bs"
proof (induction bs rule: rev_induct)
  case (snoc b bs)
  have e: "be_val (bs @ [b]) = be_val bs * 256 + unat b" by (simp add: be_val_def)
  have "unat b < 256" using unat_byte_less .
  then show ?case using snoc by (simp only: e length_append_singleton power_Suc)
qed (simp add: be_val_def)

definition small_group :: srp_group where
  "small_group = \<lparr>gN = 23, gg = 5, gk = 3, gX = (\<lambda>s I p. s + length I + 2 * length p), gU = (\<lambda>A B. A + 2 * B)\<rparr>"

definition small_env :: srp_env where
  "small_env = \<lparr>bn_of = be_val, bn_bytes = be_bytes,
     create_verifier = (\<lambda>I p. Some (7, 5 ^ (7 + length I + 2 * length p) mod 23)),
     calc_A = (\<lambda>a. Some (5 ^ a mod 23)), calc_B = (\<lambda>b v. Some ((3 * v + 5 ^ b) mod 23)),
     verify_A = (\<lambda>n. case n of None \<Rightarrow> False | Some n \<Rightarrow> n mod 23 \<noteq> 0), verify_B = (\<lambda>n. case n of None \<Rightarrow> False | Some n \<Rightarrow> n mod 23 \<noteq> 0),
     calc_u = (\<lambda>A B. map_option (\<lambda>B. A + 2 * B) B), calc_x = (\<lambda>s I p. Some (s + length I + 2 * length p)),
     calc_server_key = (\<lambda>A v u b. map_option (\<lambda>u. (A * v ^ u) ^ b mod 23) u),
     calc_client_key = (\<lambda>B x a u. case (x, u) of (Some x, Some u) \<Rightarrow> Some ((B + (23 - 3 * 5 ^ x mod 23)) ^ (a + u * x) mod 23) | _ \<Rightarrow> None)\<rparr>"

lemma small_env_sel:
  "bn_of small_env = be_val" "bn_bytes small_env = be_bytes"
  "create_verifier small_env I p = Some (7, 5 ^ (7 + length I + 2 * length p) mod 23)"
  "calc_B small_env b v = Some ((3 * v + 5 ^ b) mod 23)" "verify_B small_env (Some n) \<longleftrightarrow> n mod 23 \<noteq> 0"
  "calc_u small_env A (Some B) = Some (A + 2 * B)" "calc_server_key small_env A v (Some u) b = Some ((A * v ^ u) ^ b mod 23)"
  by (simp_all add: small_env_def)

lemma small_laws: "bn_laws small_env small_group" "srp_laws small_env small_group"
proof -
  have "length (be_bytes n) < 1024" if "n < 256 ^ 32" for n using length_be_bytes [OF that] by simp
  moreover have "be_val tmp < 256 ^ 32" if "length tmp = 32" for tmp using be_val_bound [of tmp] that by simp
  ultimately show "bn_laws small_env small_group"
    by (auto simp: bn_laws_def small_env_def small_group_def KEY_SIZE_def be_val_bytes) (simp add: be_val_def)
  have "coprime (5::nat) 23" by code_simp
  then show "srp_laws small_env small_group" by (simp add: srp_laws_def small_env_def small_group_def)
qed

theorem srp_zero_key_accepted_witness:
  "\<exists>b B fr. lcreate_server_session_key (\<lambda>_. []) small_env [replicate 31 0 @ [2]] (LString [9]) (LString []) = SOk ([be_bytes 0, b, B], fr)"
proof -
  have v: "be_val (replicate 31 0 @ [2]) = 2" "be_val [9] = 9" by code_simp+
  have e: "bn_of small_env = be_val" "bn_bytes small_env = be_bytes" "gk small_group = 3" "gg small_group = 5" "gN small_group = 23"
    by (simp_all add: small_env_def small_group_def)
  from srp_zero_key_accepted [OF small_laws, of "replicate 31 0 @ [2]" "[9]" "\<lambda>_. []" "[]"] show ?thesis
    by (simp add: e v KEY_SIZE_def)
qed

theorem srp_session_keys_agree_witness:
  "\<exists>s v a A K b B f. lcreate_verifier (\<lambda>_. []) small_env (LString [65]) (LString [66]) = SOk ([s, v], f) \<and>
    (\<exists>f. lcreate_server_session_key (\<lambda>_. []) small_env [replicate 31 0 @ [3]] (LString v) (LString A) = SOk ([K, b, B], f)) \<and>
    (\<exists>f. lcreate_client_session_key (\<lambda>_. []) small_env (LString [65]) (LString [66]) (LString s) (LString a) (LString A) (LString B) = SOk ([K], f))"
proof -
  have v: "be_val (replicate 31 0 @ [2]) = 2" "be_val (replicate 31 0 @ [3]) = 3" by code_simp+
  have push: "push_bn small_env (Some n) = SOk (be_bytes n)" if "n < 23" for n
    using small_laws(1) that by (simp add: push_bn_def bn_laws_def small_env_def small_group_def Let_def)
  have 1: "lcreate_verifier (\<lambda>_. []) small_env (LString [65]) (LString [66]) =
      SOk ([be_bytes 7, be_bytes (5 ^ 10 mod 23)], [BN_free (Some 7), BN_clear_free (Some (5 ^ 10 mod 23))])"
    using push by (simp add: lcreate_verifier_def checkstring_def lua_tolstring_def c_text_def small_env_sel)
  have 2: "lcreate_client_key small_env [replicate 31 0 @ [2]] = SOk ([be_bytes 2, be_bytes (5 ^ 2 mod 23)], [BN_clear_free (Some 2), BN_free (Some (5 ^ 2 mod 23))])"
    using client_key_first_round [OF small_laws, of "replicate 31 0 @ [2]" "[]"] v by (simp add: KEY_SIZE_def small_env_sel small_group_def)
  let ?v = "be_bytes (5 ^ 10 mod 23)" and ?A = "be_bytes (5 ^ 2 mod 23)"
  obtain K b B f3 where 3: "lcreate_server_session_key (\<lambda>_. []) small_env [replicate 31 0 @ [3]] (LString ?v) (LString ?A) = SOk ([K, b, B], f3)"
    using push v(2) by (simp add: lcreate_server_session_key_def lua_tobn_def lua_tolstring_def Let_def random_key_def
        small_env_sel be_val_bytes)
  from srp_session_keys_agree [OF small_laws 1 2 3] 1 3 show ?thesis by blast
qed

end
