(* ===== verification/Aes.thy ===== *)
theory Aes
  imports Lua_Value
begin

text \<open>
  The cipher binding of lua-aes.c, which calls the EVP functions of OpenSSL for AES-128 in ECB mode. These are the fields of
  \<open>evp\<close>: what the update call reports as output for a key, a text and its length as an \<^verbatim>\<open>int\<close>, and what the final call writes
  behind it or that it fails. A call may touch more of the buffer than it reports (the update call for decryption writes the
  last block too and keeps it back for the final call): the fields \<open>..._touch\<close> are the number of bytes of its output pointer
  that a call writes to. Both write to one buffer, whose size the code computes from the length of the text. The result is
  what is returned to Lua; \<open>None\<close> is undefined behaviour.
\<close>

record evp =
  enc_update :: "bytes \<Rightarrow> bytes \<Rightarrow> int \<Rightarrow> bytes"
  enc_final :: "bytes \<Rightarrow> bytes \<Rightarrow> int \<Rightarrow> bytes option"
  dec_update :: "bytes \<Rightarrow> bytes \<Rightarrow> int \<Rightarrow> bytes"
  dec_final :: "bytes \<Rightarrow> bytes \<Rightarrow> int \<Rightarrow> bytes option"
  enc_update_touch :: "bytes \<Rightarrow> bytes \<Rightarrow> int \<Rightarrow> nat"
  enc_final_touch :: "bytes \<Rightarrow> bytes \<Rightarrow> int \<Rightarrow> nat"
  dec_update_touch :: "bytes \<Rightarrow> bytes \<Rightarrow> int \<Rightarrow> nat"
  dec_final_touch :: "bytes \<Rightarrow> bytes \<Rightarrow> int \<Rightarrow> nat"

definition AES_BLOCK_SIZE :: nat where "AES_BLOCK_SIZE = 16"

definition AES_KEY_LENGTH :: nat where "AES_KEY_LENGTH = 16"

text \<open>The sixteen bytes OpenSSL reads as the key: the Lua string and the zero behind it, if that is enough.\<close>

definition read_key :: "(lua_value \<Rightarrow> bytes) \<Rightarrow> lua_value \<Rightarrow> bytes option" where
  "read_key ns v =
     (case lua_tolstring ns v of None \<Rightarrow> None
      | Some s \<Rightarrow> if AES_KEY_LENGTH \<le> length s + 1 then Some (take AES_KEY_LENGTH (s @ [0])) else None)"

definition read_text :: "(lua_value \<Rightarrow> bytes) \<Rightarrow> lua_value \<Rightarrow> bytes" where
  "read_text ns v = (case lua_tolstring ns v of None \<Rightarrow> [] | Some t \<Rightarrow> t)"

text \<open>
  Update and final call on a buffer of \<open>cap\<close> bytes: \<open>t1\<close> and \<open>t2\<close> are the bytes they touch, the final call behind what the
  update call reported.
\<close>

definition run_cipher :: "nat \<Rightarrow> bytes \<Rightarrow> nat \<Rightarrow> bytes option \<Rightarrow> nat \<Rightarrow> bytes list option" where
  "run_cipher cap out1 t1 final t2 =
     (if max (length out1) t1 > cap \<or> length out1 + t2 > cap then None
      else case final of None \<Rightarrow> Some []
         | Some out2 \<Rightarrow> if length out1 + length out2 > cap then None else Some [out1 @ out2])"

definition lencrypt :: "(lua_value \<Rightarrow> bytes) \<Rightarrow> evp \<Rightarrow> lua_value \<Rightarrow> lua_value \<Rightarrow> bytes list option" where
  "lencrypt ns e vtext vkey =
     (let text = read_text ns vtext; len = length text; inl = sint (of_nat len :: u32)
      in do { key \<leftarrow> read_key ns vkey;
              run_cipher (len + AES_BLOCK_SIZE) (enc_update e key text inl) (enc_update_touch e key text inl)
                (enc_final e key text inl) (enc_final_touch e key text inl) })"

definition ldecrypt :: "(lua_value \<Rightarrow> bytes) \<Rightarrow> evp \<Rightarrow> lua_value \<Rightarrow> lua_value \<Rightarrow> bytes list option" where
  "ldecrypt ns e vtext vkey =
     (let text = read_text ns vtext; len = length text; inl = sint (of_nat len :: u32)
      in do { key \<leftarrow> read_key ns vkey;
              run_cipher len (dec_update e key text inl) (dec_update_touch e key text inl)
                (dec_final e key text inl) (dec_final_touch e key text inl) })"

subsection \<open>What OpenSSL documents\<close>

text \<open>
  A block cipher \<open>E\<close> with the inverse \<open>D\<close>, applied block by block, and the padding: the last block is filled with bytes that
  say how many they are. The update call for decryption holds the last block back, and the final call checks its padding.
  The documentation bounds what the calls write: \<open>inl + block_size - 1\<close> bytes for the update call of an encryption,
  \<open>inl + block_size\<close> for that of a decryption, and one block for a final call.
\<close>

function ecb :: "(bytes \<Rightarrow> bytes) \<Rightarrow> bytes \<Rightarrow> bytes" where
  "ecb f xs = (if length xs < AES_BLOCK_SIZE then [] else f (take AES_BLOCK_SIZE xs) @ ecb f (drop AES_BLOCK_SIZE xs))"
  by pat_completeness auto
termination
  by (relation "measure (\<lambda>(f, xs). length xs)") (auto simp: AES_BLOCK_SIZE_def)

declare ecb.simps [simp del]

definition pad_block :: "bytes \<Rightarrow> bytes" where
  "pad_block xs = (let n = AES_BLOCK_SIZE - length xs in xs @ replicate n (of_nat n))"

definition unpad_block :: "bytes \<Rightarrow> bytes option" where
  "unpad_block b =
     (let n = unat (last b)
      in if 1 \<le> n \<and> n \<le> AES_BLOCK_SIZE \<and> drop (AES_BLOCK_SIZE - n) b = replicate n (last b)
         then Some (take (AES_BLOCK_SIZE - n) b) else None)"

definition cipher_laws :: "(bytes \<Rightarrow> bytes \<Rightarrow> bytes) \<Rightarrow> (bytes \<Rightarrow> bytes \<Rightarrow> bytes) \<Rightarrow> bool" where
  "cipher_laws E D \<longleftrightarrow> (\<forall>k b. length b = AES_BLOCK_SIZE \<longrightarrow> length (E k b) = AES_BLOCK_SIZE \<and> D k (E k b) = b)"

definition evp_laws :: "evp \<Rightarrow> (bytes \<Rightarrow> bytes \<Rightarrow> bytes) \<Rightarrow> (bytes \<Rightarrow> bytes \<Rightarrow> bytes) \<Rightarrow> bool" where
  "evp_laws e E D \<longleftrightarrow> cipher_laws E D \<and>
     (\<forall>k t. length t < 2 ^ 31 \<longrightarrow>
        enc_update e k t (int (length t)) = ecb (E k) t \<and>
        enc_final e k t (int (length t)) = Some (E k (pad_block (drop (length t - length t mod AES_BLOCK_SIZE) t))) \<and>
        enc_update_touch e k t (int (length t)) \<le> length t + AES_BLOCK_SIZE - 1 \<and>
        enc_final_touch e k t (int (length t)) \<le> AES_BLOCK_SIZE) \<and>
     (\<forall>k c. length c < 2 ^ 31 \<longrightarrow> c \<noteq> [] \<longrightarrow> AES_BLOCK_SIZE dvd length c \<longrightarrow>
        dec_update e k c (int (length c)) = ecb (D k) (take (length c - AES_BLOCK_SIZE) c) \<and>
        dec_final e k c (int (length c)) = unpad_block (D k (drop (length c - AES_BLOCK_SIZE) c)) \<and>
        dec_update_touch e k c (int (length c)) \<le> length c + AES_BLOCK_SIZE \<and>
        dec_final_touch e k c (int (length c)) \<le> AES_BLOCK_SIZE)"

lemma ecb_step: "length b = AES_BLOCK_SIZE \<Longrightarrow> ecb f (b @ xs) = f b @ ecb f xs"
  by (simp add: ecb.simps [of f "b @ xs"])

lemma ecb_blocks:
  assumes "cipher_laws E D"
  shows "length xs = q * AES_BLOCK_SIZE \<Longrightarrow> length r < AES_BLOCK_SIZE \<Longrightarrow>
    length (ecb (E k) (xs @ r)) = length xs \<and> ecb (D k) (ecb (E k) (xs @ r)) = xs"
proof (induction q arbitrary: xs)
  case 0
  then show ?case by (simp add: ecb.simps [of _ r] ecb.simps [of _ "[]"] AES_BLOCK_SIZE_def)
next
  case (Suc q)
  let ?b = "take AES_BLOCK_SIZE xs" and ?xs = "drop AES_BLOCK_SIZE xs"
  have l: "length ?b = AES_BLOCK_SIZE" "length ?xs = q * AES_BLOCK_SIZE" using Suc.prems(1) by simp_all
  then have b: "length (E k ?b) = AES_BLOCK_SIZE" "D k (E k ?b) = ?b" using assms by (simp_all add: cipher_laws_def)
  have "ecb (E k) (xs @ r) = E k ?b @ ecb (E k) (?xs @ r)" using ecb_step [OF l(1), of "E k" "?xs @ r"] by (simp flip: append_assoc)
  then show ?case using Suc.IH [OF l(2) Suc.prems(2)] ecb_step [OF b(1), of "D k"] b l Suc.prems(1) by simp
qed

lemma unpad_pad:
  assumes "length r < AES_BLOCK_SIZE"
  shows "unpad_block (pad_block r) = Some r" "length (pad_block r) = AES_BLOCK_SIZE"
proof -
  let ?n = "AES_BLOCK_SIZE - length r"
  have n: "1 \<le> ?n" "?n \<le> 16" using assms by (simp_all add: AES_BLOCK_SIZE_def)
  then have "last (pad_block r) = of_nat ?n" by (simp add: pad_block_def Let_def)
  moreover have "m \<le> 16 \<Longrightarrow> unat (of_nat m :: byte) = m" for m by (simp add: unat_of_nat take_bit_nat_eq_self)
  from this [OF n(2)] have "unat (of_nat ?n :: byte) = ?n" .
  ultimately show "unpad_block (pad_block r) = Some r" using n assms by (simp add: unpad_block_def pad_block_def Let_def AES_BLOCK_SIZE_def)
  show "length (pad_block r) = AES_BLOCK_SIZE" using assms by (simp add: pad_block_def Let_def)
qed

lemma sint_length: "n < 2 ^ 31 \<Longrightarrow> sint (of_nat n :: u32) = int n"
  by (simp add: sint_uint unsigned_of_nat take_bit_nat_eq_self signed_take_bit_int_eq_self)

lemma dec_laws:
  assumes "evp_laws e E D" "length c < 2 ^ 31" "c = c0 @ c1" "length c0 = q * 16" "length c1 = 16"
  shows "dec_update e k c (int (length c)) = ecb (D k) c0" "dec_final e k c (int (length c)) = unpad_block (D k c1)"
    "dec_final_touch e k c (int (length c)) \<le> 16"
proof -
  have c: "c \<noteq> []" "AES_BLOCK_SIZE dvd length c" "take (length c - AES_BLOCK_SIZE) c = c0" "drop (length c - AES_BLOCK_SIZE) c = c1"
    using assms(3-5) by (auto simp: AES_BLOCK_SIZE_def)
  show "dec_update e k c (int (length c)) = ecb (D k) c0" "dec_final e k c (int (length c)) = unpad_block (D k c1)"
    using assms(1,2) c(1,2) unfolding evp_laws_def c(3) [symmetric] c(4) [symmetric] by blast+
  show "dec_final_touch e k c (int (length c)) \<le> 16"
    using assms(1,2) c(1,2) unfolding evp_laws_def by (simp add: AES_BLOCK_SIZE_def)
qed

text \<open>
  C35: encrypting, for every text and every key of at least fifteen bytes, stays inside its buffer by what OpenSSL documents
  and gives the text rounded up to the next block; decrypting that gives the text back exactly when the update call writes
  no further than the length of the cipher text, which is what \<^verbatim>\<open>ldecrypt\<close> allocates. OpenSSL's code for whole blocks does
  so, but its documentation asks for room for one block more; a call that used that room would write behind the buffer
  (\<open>None\<close>).
\<close>

theorem aes_roundtrip:
  assumes "evp_laws e E D" "15 \<le> length key" "length t < 2 ^ 31 - 16"
  shows "\<exists>c. lencrypt ns e (LString t) (LString key) = Some [c] \<and> length c = (length t div 16 + 1) * 16 \<and>
    ldecrypt ns e (LString c) (LString key) =
      (if dec_update_touch e (take 16 (key @ [0])) c (int (length c)) \<le> length c then Some [t] else None)"
proof -
  let ?q = "length t div 16"
  define k where "k = take 16 (key @ [0])"
  define t0 r where "t0 = take (?q * 16) t" and "r = drop (?q * 16) t"
  have t: "t = t0 @ r" "length t0 = ?q * AES_BLOCK_SIZE" "length r < AES_BLOCK_SIZE" "length t - length t mod AES_BLOCK_SIZE = ?q * 16"
    by (simp_all add: t0_def r_def AES_BLOCK_SIZE_def minus_mod_eq_div_mult)
  have laws: "cipher_laws E D" using assms(1) by (simp add: evp_laws_def)
  let ?c0 = "ecb (E k) t" and ?c1 = "E k (pad_block r)"
  have c0: "length ?c0 = ?q * 16" "ecb (D k) ?c0 = t0" using ecb_blocks [OF laws t(2,3), of k, folded t(1)] t(2) by (simp_all add: AES_BLOCK_SIZE_def)
  have c1: "length ?c1 = 16" "D k ?c1 = pad_block r" using laws unpad_pad(2) [OF t(3)] by (simp_all add: cipher_laws_def AES_BLOCK_SIZE_def)
  have len: "length (?c0 @ ?c1) = (?q + 1) * 16" using c0(1) c1(1) by simp
  have key: "read_key ns (LString key) = Some k" using assms(2) by (simp add: read_key_def lua_tolstring_def AES_KEY_LENGTH_def k_def)
  have "?q * 16 \<le> length t" by simp
  then have small: "length t < 2 ^ 31" "length (?c0 @ ?c1) < 2 ^ 31" using assms(3) unfolding len by simp_all
  have enc: "enc_update e k t (int (length t)) = ?c0" "enc_final e k t (int (length t)) = Some ?c1"
    "enc_update_touch e k t (int (length t)) \<le> length t + AES_BLOCK_SIZE - 1" "enc_final_touch e k t (int (length t)) \<le> AES_BLOCK_SIZE"
    using assms(1) small(1) unfolding evp_laws_def r_def t(4) [symmetric] by blast+
  moreover have "enc_update_touch e k t (int (length t)) \<le> length t + AES_BLOCK_SIZE" using enc(3) by linarith
  moreover have "length ?c0 \<le> length t" using c0(1) by simp
  moreover have "length ?c0 + length ?c1 \<le> length t + AES_BLOCK_SIZE" using c0(1) c1(1) by (simp add: AES_BLOCK_SIZE_def)
  ultimately have "lencrypt ns e (LString t) (LString key) = Some [?c0 @ ?c1]"
    using small(1) key by (simp add: lencrypt_def read_text_def lua_tolstring_def sint_length run_cipher_def Let_def)
  moreover have "ldecrypt ns e (LString (?c0 @ ?c1)) (LString key) =
      (if dec_update_touch e k (?c0 @ ?c1) (int (length (?c0 @ ?c1))) \<le> length (?c0 @ ?c1) then Some [t] else None)"
  proof -
    have "dec_update e k (?c0 @ ?c1) (int (length (?c0 @ ?c1))) = t0" "dec_final e k (?c0 @ ?c1) (int (length (?c0 @ ?c1))) = Some r"
      using dec_laws [OF assms(1) small(2) refl c0(1) c1(1), of k] c0(2) c1(2) unpad_pad(1) [OF t(3)] by simp_all
    moreover have "length t0 + length r \<le> length (?c0 @ ?c1)" using len t(2,3) by (simp add: AES_BLOCK_SIZE_def)
    moreover have "length t0 + dec_final_touch e k (?c0 @ ?c1) (int (length (?c0 @ ?c1))) \<le> length (?c0 @ ?c1)"
      using dec_laws(3) [OF assms(1) small(2) refl c0(1) c1(1), of k] c0(1) c1(1) t(2)
      by (simp only: length_append AES_BLOCK_SIZE_def)
    ultimately show ?thesis using key small(2) t(1)
      by (simp add: ldecrypt_def read_text_def lua_tolstring_def sint_length run_cipher_def Let_def not_less less_max_iff_disj del: length_append)
  qed
  ultimately show ?thesis using len unfolding k_def [symmetric] by blast
qed

text \<open>
  A cipher that adds one to every byte, as an instance; its update call for decryption writes all blocks, as that of
  OpenSSL, or more.
\<close>

definition shift_evp :: "nat \<Rightarrow> evp" where
  "shift_evp extra = \<lparr>
     enc_update = (\<lambda>k t n. ecb (map (\<lambda>x. x + 1)) t),
     enc_final = (\<lambda>k t n. Some (map (\<lambda>x. x + 1) (pad_block (drop (length t - length t mod AES_BLOCK_SIZE) t)))),
     dec_update = (\<lambda>k c n. ecb (map (\<lambda>x. x - 1)) (take (length c - AES_BLOCK_SIZE) c)),
     dec_final = (\<lambda>k c n. unpad_block (map (\<lambda>x. x - 1) (drop (length c - AES_BLOCK_SIZE) c))),
     enc_update_touch = (\<lambda>k t n. length t - length t mod AES_BLOCK_SIZE), enc_final_touch = (\<lambda>k t n. AES_BLOCK_SIZE),
     dec_update_touch = (\<lambda>k c n. length c + extra), dec_final_touch = (\<lambda>k c n. AES_BLOCK_SIZE)\<rparr>"

lemma shift_laws: "extra \<le> 16 \<Longrightarrow> evp_laws (shift_evp extra) (\<lambda>k. map (\<lambda>x. x + 1)) (\<lambda>k. map (\<lambda>x. x - 1))"
  by (simp add: evp_laws_def cipher_laws_def shift_evp_def comp_def AES_BLOCK_SIZE_def trans_le_add2)

theorem aes_roundtrip_witness:
  "\<exists>c. lencrypt (\<lambda>_. []) (shift_evp 0) (LString [1, 2, 3]) (LString (replicate 16 7)) = Some [c] \<and> length c = 16 \<and>
    ldecrypt (\<lambda>_. []) (shift_evp 0) (LString c) (LString (replicate 16 7)) = Some [[1, 2, 3]]"
  using aes_roundtrip [OF shift_laws [of 0], of "replicate 16 7" "[1, 2, 3]" "\<lambda>_. []"] by (auto simp: shift_evp_def)

text \<open>
  An implementation that makes use of the room the documentation asks for writes behind the buffer of \<^verbatim>\<open>ldecrypt\<close>,
  whatever is decrypted with it.
\<close>

lemma aes_documented_room_overflow: "15 \<le> length key \<Longrightarrow> ldecrypt ns (shift_evp 16) (LString c) (LString key) = None"
  by (simp add: ldecrypt_def read_text_def read_key_def lua_tolstring_def AES_KEY_LENGTH_def run_cipher_def shift_evp_def Let_def less_max_iff_disj)

end
