(* ===== verification/Lfs.thy ===== *)
theory Lfs
  imports Lua_Value
begin

text \<open>
  LuaFileSystem, luafilesystem/src/lfs.c as it is compiled for POSIX systems. The system calls are a record of functions on
  a state \<open>'w\<close> of the world: a call gives \<^verbatim>\<open>errno\<close> or its result, and the world afterwards. Memory requests are such calls too,
  because they can fail. A function gives the values it returns to Lua, an argument error, a raised error, or \<open>LBad\<close> where
  the C code has no defined behaviour.

  The arguments are the Lua values on the stack, and \<open>ns\<close> is the text that \<^verbatim>\<open>lua_tolstring\<close> gives for a number. The userdata
  of files, directories and locks are records of their own, given and taken as such.
\<close>

type_synonym errno = int
type_synonym ('w, 'a) call = "'w \<Rightarrow> (errno + 'a) \<times> 'w"

definition ERANGE :: errno where "ERANGE = 34"

datatype lock_type = F_RDLCK | F_WRLCK | F_UNLCK

record flock =
  l_type :: lock_type
  l_start :: u64
  l_len :: u64

record lfs_stat =
  st_mode :: u32
  st_dev :: u64
  st_ino :: u64
  st_nlink :: u64
  st_uid :: u32
  st_gid :: u32
  st_rdev :: u64
  st_atime :: u64
  st_mtime :: u64
  st_ctime :: u64
  st_size :: u64
  st_blocks :: u64
  st_blksize :: u64

record 'w posix =
  px_realloc :: "nat \<Rightarrow> ('w, unit) call"
  px_chdir :: "bytes \<Rightarrow> ('w, unit) call"
  px_getcwd :: "nat \<Rightarrow> ('w, bytes) call"
  px_fcntl :: "nat \<Rightarrow> flock \<Rightarrow> ('w, unit) call"
  px_symlink :: "bytes \<Rightarrow> bytes \<Rightarrow> ('w, unit) call"
  px_link :: "bytes \<Rightarrow> bytes \<Rightarrow> ('w, unit) call"
  px_unlink :: "bytes \<Rightarrow> ('w, unit) call"
  px_mkdir :: "bytes \<Rightarrow> u32 \<Rightarrow> ('w, unit) call"
  px_rmdir :: "bytes \<Rightarrow> ('w, unit) call"
  px_opendir :: "bytes \<Rightarrow> ('w, nat) call"
  px_readdir :: "nat \<Rightarrow> 'w \<Rightarrow> bytes option \<times> 'w"
  px_closedir :: "nat \<Rightarrow> 'w \<Rightarrow> 'w"
  px_utime :: "bytes \<Rightarrow> (int \<times> int) option \<Rightarrow> ('w, unit) call"
  px_stat :: "bytes \<Rightarrow> ('w, lfs_stat) call"
  px_lstat :: "bytes \<Rightarrow> ('w, lfs_stat) call"
  px_readlink :: "bytes \<Rightarrow> nat \<Rightarrow> ('w, bytes) call"
  px_strerror :: "errno \<Rightarrow> bytes"

datatype lfs_result = LRet "lua_value list" | LArgErr nat bytes | LErr bytes | LBad

subsection \<open>Arguments\<close>

definition lua_arg :: "lua_value list \<Rightarrow> nat \<Rightarrow> lua_value" where
  "lua_arg args i = (if 1 \<le> i \<and> i \<le> length args then args ! (i - 1) else LNil)"

definition arg_typename :: "lua_value list \<Rightarrow> nat \<Rightarrow> bytes" where
  "arg_typename args i = (if i \<le> length args then lua_typename (lua_arg args i) else str ''no value'')"

text \<open>\<^verbatim>\<open>luaL_checkstring\<close> as the C string the function sees; the other branch is the error it raises.\<close>

definition check_string :: "(lua_value \<Rightarrow> bytes) \<Rightarrow> lua_value list \<Rightarrow> nat \<Rightarrow> lfs_result + bytes" where
  "check_string ns args i =
     (case lua_tolstring ns (lua_arg args i) of
        None \<Rightarrow> Inl (LArgErr i (str ''string expected, got '' @ arg_typename args i))
      | Some s \<Rightarrow> Inr (c_text s))"

text \<open>\<^verbatim>\<open>luaL_optinteger\<close> and \<^verbatim>\<open>luaL_optnumber\<close>; \<open>conv\<close> is Lua's conversion, or the message of its error.\<close>

definition opt_arg :: "(lua_value \<Rightarrow> bytes + 'a) \<Rightarrow> lua_value list \<Rightarrow> nat \<Rightarrow> 'a \<Rightarrow> lfs_result + 'a" where
  "opt_arg conv args i d =
     (if lua_arg args i = LNil then Inr d else case conv (lua_arg args i) of Inl m \<Rightarrow> Inl (LArgErr i m) | Inr v \<Rightarrow> Inr v)"

definition lua_isstring :: "lua_value \<Rightarrow> bool" where
  "lua_isstring v \<longleftrightarrow> (case v of LString _ \<Rightarrow> True | LInteger _ \<Rightarrow> True | LNumber _ \<Rightarrow> True | _ \<Rightarrow> False)"

definition lua_toboolean :: "lua_value \<Rightarrow> bool" where
  "lua_toboolean v \<longleftrightarrow> v \<noteq> LNil \<and> v \<noteq> LBool False"

text \<open>A step that may end the function with a result of its own.\<close>

definition or_leave :: "lfs_result + 'a \<Rightarrow> 'w \<Rightarrow> ('a \<Rightarrow> lfs_result \<times> 'w) \<Rightarrow> lfs_result \<times> 'w" where
  "or_leave x w f = (case x of Inl r \<Rightarrow> (r, w) | Inr v \<Rightarrow> f v)"

lemma or_leave_simps [simp]: "or_leave (Inl r) w f = (r, w)" "or_leave (Inr v) w f = f v"
  by (simp_all add: or_leave_def)

subsection \<open>Utility functions\<close>

definition pusherror :: "'w posix \<Rightarrow> bytes option \<Rightarrow> errno \<Rightarrow> lfs_result" where
  "pusherror px info e =
     LRet [LNil,
       LString (case info of None \<Rightarrow> px_strerror px e | Some i \<Rightarrow> i @ str '': '' @ px_strerror px e),
       LInteger (word_of_int e)]"

definition pushresult :: "'w posix \<Rightarrow> errno + unit \<Rightarrow> bytes option \<Rightarrow> lfs_result" where
  "pushresult px res info = (case res of Inl e \<Rightarrow> pusherror px info e | Inr _ \<Rightarrow> LRet [LBool True])"

subsection \<open>The working directory\<close>

definition change_dir :: "'w posix \<Rightarrow> (lua_value \<Rightarrow> bytes) \<Rightarrow> lua_value list \<Rightarrow> 'w \<Rightarrow> lfs_result \<times> 'w" where
  "change_dir px ns args w =
     or_leave (check_string ns args 1) w (\<lambda>path.
       case px_chdir px path w of
         (Inl e, w1) \<Rightarrow>
           (LRet [LNil, LString (str ''Unable to change working directory to '' @ [chr (CHR 0x27)] @ path @ [chr (CHR 0x27), 10]
              @ px_strerror px e @ [10])], w1)
       | (Inr _, w1) \<Rightarrow> (LRet [LBool True], w1))"

definition LFS_MAXPATHLEN :: u64 where "LFS_MAXPATHLEN = 4096"

text \<open>
  The loop of \<^verbatim>\<open>get_dir\<close>; \<open>sz\<close> is a \<^verbatim>\<open>size_t\<close>. When the doubling has made it zero, \<^verbatim>\<open>realloc\<close> frees the buffer, returns
  NULL, and the buffer is freed again. The path and its terminator that \<^verbatim>\<open>getcwd\<close> writes have to fit.
\<close>

function get_dir_loop :: "'w posix \<Rightarrow> u64 \<Rightarrow> 'w \<Rightarrow> lfs_result \<times> 'w" where
  "get_dir_loop px sz w =
     (if sz = 0 then (LBad, w)
      else case px_realloc px (unat sz) w of
        (Inl e, w1) \<Rightarrow> (pusherror px (Some (str ''get_dir realloc() failed'')) e, w1)
      | (Inr _, w1) \<Rightarrow>
          (case px_getcwd px (unat sz) w1 of
             (Inr path, w2) \<Rightarrow> (if length path < unat sz then LRet [LString path] else LBad, w2)
           | (Inl e, w2) \<Rightarrow>
               if e \<noteq> ERANGE then (pusherror px (Some (str ''get_dir getcwd() failed'')) e, w2)
               else get_dir_loop px (sz * 2) w2))"
  by pat_completeness auto
termination
proof (relation "measure (\<lambda>(px, sz, w). LEAST k. sz * 2 ^ k = 0)", simp, clarsimp)
  fix sz :: u64
  assume "sz \<noteq> 0"
  have "(2 :: u64) ^ 64 = 0" by (simp only: exp_eq_zero_iff) simp
  then have "sz * 2 ^ 64 = 0" by (simp only: mult_zero_right)
  then have z: "sz * 2 ^ (LEAST k. sz * 2 ^ k = 0) = 0" by (rule LeastI)
  then obtain j where j: "(LEAST k. sz * 2 ^ k = 0) = Suc j" using \<open>sz \<noteq> 0\<close> by (cases "LEAST k. sz * 2 ^ k = 0") auto
  then have "sz * 2 * 2 ^ j = 0" using z by (simp add: ac_simps)
  then have "(LEAST k. sz * 2 * 2 ^ k = 0) \<le> j" by (rule Least_le)
  then show "(LEAST k. sz * 2 * 2 ^ k = 0) < (LEAST k. sz * 2 ^ k = 0)" using j by simp
qed

declare get_dir_loop.simps [simp del]

definition get_dir :: "'w posix \<Rightarrow> 'w \<Rightarrow> lfs_result \<times> 'w" where
  "get_dir px w = get_dir_loop px LFS_MAXPATHLEN w"

subsection \<open>Files\<close>

text \<open>The userdata of an open or closed file; \<open>None\<close> for a value that is not a file.\<close>

record lua_stream =
  stream_f :: "nat option"
  closef :: bool

definition check_file :: "lua_stream option \<Rightarrow> bytes \<Rightarrow> bytes \<Rightarrow> lfs_result + nat" where
  "check_file fh tname funcname =
     (case fh of
        None \<Rightarrow> Inl (LArgErr 1 (str ''FILE* expected, got '' @ tname))
      | Some s \<Rightarrow>
          if \<not> closef s then Inl (LErr (funcname @ str '': closed file''))
          else case stream_f s of None \<Rightarrow> Inl (LErr (funcname @ str '': closed file'')) | Some f \<Rightarrow> Inr f)"

definition lock_mode :: "bytes \<Rightarrow> lock_type option" where
  "lock_mode mode =
     (case mode of [] \<Rightarrow> None
      | c # _ \<Rightarrow>
          if c = chr (CHR ''w'') then Some F_WRLCK
          else if c = chr (CHR ''r'') then Some F_RDLCK
          else if c = chr (CHR ''u'') then Some F_UNLCK
          else None)"

definition file_lock0 :: "'w posix \<Rightarrow> nat \<Rightarrow> bytes \<Rightarrow> u64 \<Rightarrow> u64 \<Rightarrow> bytes \<Rightarrow> 'w \<Rightarrow> (lfs_result + (errno + unit)) \<times> 'w" where
  "file_lock0 px fh mode start len funcname w =
     (case lock_mode mode of
        None \<Rightarrow> (Inl (LErr (funcname @ str '': invalid mode'')), w)
      | Some t \<Rightarrow> (case px_fcntl px fh \<lparr>l_type = t, l_start = start, l_len = len\<rparr> w of (r, w1) \<Rightarrow> (Inr r, w1)))"

definition lock_reply :: "'w posix \<Rightarrow> (lfs_result + (errno + unit)) \<times> 'w \<Rightarrow> lfs_result \<times> 'w" where
  "lock_reply px rw =
     (case rw of
        (Inl r, w) \<Rightarrow> (r, w)
      | (Inr (Inl e), w) \<Rightarrow> (LRet [LNil, LString (px_strerror px e)], w)
      | (Inr (Inr _), w) \<Rightarrow> (LRet [LBool True], w))"

text \<open>In the functions on files the first argument is given apart from the others, which keep their numbers.\<close>

definition file_lock :: "'w posix \<Rightarrow> (lua_value \<Rightarrow> bytes) \<Rightarrow> (lua_value \<Rightarrow> bytes + u64) \<Rightarrow> lua_stream option \<Rightarrow> lua_value list \<Rightarrow> 'w \<Rightarrow> lfs_result \<times> 'w" where
  "file_lock px ns toint fh args w =
     or_leave (check_file fh (arg_typename args 1) (str ''lock'')) w (\<lambda>f.
     or_leave (check_string ns args 2) w (\<lambda>mode.
     or_leave (opt_arg toint args 3 0) w (\<lambda>start.
     or_leave (opt_arg toint args 4 0) w (\<lambda>len.
       lock_reply px (file_lock0 px f mode start len (str ''lock'') w)))))"

definition file_unlock :: "'w posix \<Rightarrow> (lua_value \<Rightarrow> bytes + u64) \<Rightarrow> lua_stream option \<Rightarrow> lua_value list \<Rightarrow> 'w \<Rightarrow> lfs_result \<times> 'w" where
  "file_unlock px toint fh args w =
     or_leave (check_file fh (arg_typename args 1) (str ''unlock'')) w (\<lambda>f.
     or_leave (opt_arg toint args 2 0) w (\<lambda>start.
     or_leave (opt_arg toint args 3 0) w (\<lambda>len.
       lock_reply px (file_lock0 px f (str ''u'') start len (str ''unlock'') w))))"

definition setmode_names :: "bytes list" where "setmode_names = [str ''binary'', str ''text'']"
definition setmode_modes :: "int list" where "setmode_modes = [0, 0]"

definition lfs_setmode :: "nat \<Rightarrow> int \<Rightarrow> int" where "lfs_setmode file m = 0"

text \<open>The loop over the names, from the first on: the name of the mode \<open>res\<close>.\<close>

fun mode_name :: "(bytes \<times> int) list \<Rightarrow> int \<Rightarrow> lua_value" where
  "mode_name [] res = LNil"
| "mode_name ((n, m) # ms) res = (if m = res then LString n else mode_name ms res)"

definition lfs_f_setmode :: "'w posix \<Rightarrow> (lua_value \<Rightarrow> bytes) \<Rightarrow> errno \<Rightarrow> lua_stream option \<Rightarrow> lua_value list \<Rightarrow> lfs_result" where
  "lfs_f_setmode px ns e fh args =
     (case check_file fh (arg_typename args 1) (str ''setmode'') of Inl r \<Rightarrow> r
      | Inr f \<Rightarrow>
         (case check_string ns args 2 of Inl r \<Rightarrow> r
          | Inr name \<Rightarrow>
             (case find (\<lambda>i. setmode_names ! i = name) [0..<2] of
                None \<Rightarrow> LArgErr 2 (str ''invalid option '' @ [chr (CHR 0x27)] @ name @ [chr (CHR 0x27)])
              | Some op \<Rightarrow>
                  let res = lfs_setmode f (setmode_modes ! op)
                  in if res \<noteq> -1 then LRet [LBool True, mode_name (zip setmode_names setmode_modes) res]
                     else pusherror px None e)))"

subsection \<open>Directory locks\<close>

record lfs_lock =
  ln :: "bytes option"

definition lockfile :: bytes where "lockfile = str ''/lockfile.lfs''"

text \<open>\<^verbatim>\<open>lfs_lock_dir\<close>: the lock, or what is returned or raised instead.\<close>

definition lfs_lock_dir :: "'w posix \<Rightarrow> (lua_value \<Rightarrow> bytes) \<Rightarrow> lua_value list \<Rightarrow> 'w \<Rightarrow> (lfs_result + lfs_lock) \<times> 'w" where
  "lfs_lock_dir px ns args w =
     (case lua_tolstring ns (lua_arg args 1) of
        None \<Rightarrow> (Inl (LArgErr 1 (str ''string expected, got '' @ arg_typename args 1)), w)
      | Some path \<Rightarrow>
          (case px_realloc px (length path + length lockfile + 1) w of
             (Inl e, w1) \<Rightarrow> (Inl (LRet [LNil, LString (px_strerror px e)]), w1)
           | (Inr _, w1) \<Rightarrow>
               let name = c_text path @ lockfile
               in case px_symlink px (str ''lock'') name w1 of
                    (Inl e, w2) \<Rightarrow> (Inl (LRet [LNil, LString (px_strerror px e)]), w2)
                  | (Inr _, w2) \<Rightarrow> (Inr \<lparr>ln = Some name\<rparr>, w2)))"

text \<open>\<^verbatim>\<open>lfs_unlock_dir\<close>, the method \<^verbatim>\<open>free\<close> and the finalizer of a lock; it returns no value.\<close>

definition lfs_unlock_dir :: "'w posix \<Rightarrow> lfs_lock \<Rightarrow> 'w \<Rightarrow> lfs_lock \<times> 'w" where
  "lfs_unlock_dir px lock w =
     (case ln lock of None \<Rightarrow> (lock, w) | Some name \<Rightarrow> (lock\<lparr>ln := None\<rparr>, snd (px_unlink px name w)))"

subsection \<open>Links and directories\<close>

definition make_link :: "'w posix \<Rightarrow> (lua_value \<Rightarrow> bytes) \<Rightarrow> lua_value list \<Rightarrow> 'w \<Rightarrow> lfs_result \<times> 'w" where
  "make_link px ns args w =
     or_leave (check_string ns args 1) w (\<lambda>oldpath.
     or_leave (check_string ns args 2) w (\<lambda>newpath.
       case (if lua_toboolean (lua_arg args 3) then px_symlink px else px_link px) oldpath newpath w of
         (Inl e, w1) \<Rightarrow> (pusherror px None e, w1)
       | (Inr _, w1) \<Rightarrow> (LRet [LInteger 0], w1)))"

definition make_dir :: "'w posix \<Rightarrow> (lua_value \<Rightarrow> bytes) \<Rightarrow> lua_value list \<Rightarrow> 'w \<Rightarrow> lfs_result \<times> 'w" where
  "make_dir px ns args w =
     or_leave (check_string ns args 1) w (\<lambda>path. case px_mkdir px path 0x1FD w of (r, w1) \<Rightarrow> (pushresult px r None, w1))"

definition remove_dir :: "'w posix \<Rightarrow> (lua_value \<Rightarrow> bytes) \<Rightarrow> lua_value list \<Rightarrow> 'w \<Rightarrow> lfs_result \<times> 'w" where
  "remove_dir px ns args w =
     or_leave (check_string ns args 1) w (\<lambda>path. case px_rmdir px path w of (r, w1) \<Rightarrow> (pushresult px r None, w1))"

subsection \<open>Directory iterators\<close>

record dir_data =
  closed :: bool
  dir :: "nat option"

text \<open>The argument is \<open>None\<close> for a value that is not such a userdata; \<^verbatim>\<open>dir_close\<close> does not check it.\<close>

definition dir_iter :: "'w posix \<Rightarrow> bytes \<Rightarrow> dir_data option \<Rightarrow> 'w \<Rightarrow> lfs_result \<times> dir_data option \<times> 'w" where
  "dir_iter px tname ud w =
     (case ud of None \<Rightarrow> (LArgErr 1 (str ''directory metatable expected, got '' @ tname), ud, w)
      | Some d \<Rightarrow>
          if closed d then (LArgErr 1 (str ''closed directory''), ud, w)
          else case dir d of None \<Rightarrow> (LBad, ud, w)
             | Some h \<Rightarrow>
                 (case px_readdir px h w of
                    (Some name, w1) \<Rightarrow> (LRet [LString name], ud, w1)
                  | (None, w1) \<Rightarrow> (LRet [], Some (d\<lparr>closed := True\<rparr>), px_closedir px h w1)))"

definition dir_close :: "'w posix \<Rightarrow> dir_data option \<Rightarrow> 'w \<Rightarrow> lfs_result \<times> dir_data option \<times> 'w" where
  "dir_close px ud w =
     (case ud of None \<Rightarrow> (LBad, ud, w)
      | Some d \<Rightarrow>
          (LRet [], Some (d\<lparr>closed := True\<rparr>),
           if \<not> closed d then (case dir d of None \<Rightarrow> w | Some h \<Rightarrow> px_closedir px h w) else w))"

definition dir_iter_factory :: "'w posix \<Rightarrow> (lua_value \<Rightarrow> bytes) \<Rightarrow> lua_value list \<Rightarrow> 'w \<Rightarrow> (lfs_result + dir_data) \<times> 'w" where
  "dir_iter_factory px ns args w =
     (case check_string ns args 1 of Inl r \<Rightarrow> (Inl r, w)
      | Inr path \<Rightarrow>
          (case px_opendir px path w of
             (Inl e, w1) \<Rightarrow> (Inl (LErr (str ''cannot open '' @ path @ str '': '' @ px_strerror px e)), w1)
           | (Inr h, w1) \<Rightarrow> (Inr \<lparr>closed = False, dir = Some h\<rparr>, w1)))"

subsection \<open>File attributes\<close>

definition S_IFMT :: u32 where "S_IFMT = 0xF000"

definition mode2string :: "u32 \<Rightarrow> bytes" where
  "mode2string mode =
     (let t = mode AND S_IFMT
      in if t = 0x8000 then str ''file''
         else if t = 0x4000 then str ''directory''
         else if t = 0xA000 then str ''link''
         else if t = 0xC000 then str ''socket''
         else if t = 0x1000 then str ''named pipe''
         else if t = 0x2000 then str ''char device''
         else if t = 0x6000 then str ''block device''
         else str ''other'')"

text \<open>The nine tests of \<^verbatim>\<open>perm2string\<close>: the bit, the index that is written, and the character.\<close>

definition perm_tests :: "(u32 \<times> nat \<times> byte) list" where
  "perm_tests =
     [(0x100, 0, chr (CHR ''r'')), (0x80, 1, chr (CHR ''w'')), (0x40, 2, chr (CHR ''x'')),
      (0x20, 3, chr (CHR ''r'')), (0x10, 4, chr (CHR ''w'')), (0x8, 5, chr (CHR ''x'')),
      (0x4, 6, chr (CHR ''r'')), (0x2, 7, chr (CHR ''w'')), (0x1, 8, chr (CHR ''x''))]"

definition perm2string :: "u32 \<Rightarrow> bytes" where
  "perm2string mode =
     fold (\<lambda>(bit, i, c) perms. if mode AND bit \<noteq> 0 then perms[i := c] else perms) perm_tests (replicate 9 (chr (CHR ''-'')))"

definition stat_members :: "(bytes \<times> (lfs_stat \<Rightarrow> lua_value)) list" where
  "stat_members =
     [(str ''mode'', \<lambda>st. LString (mode2string (st_mode st))),
      (str ''dev'', \<lambda>st. LInteger (st_dev st)),
      (str ''ino'', \<lambda>st. LInteger (st_ino st)),
      (str ''nlink'', \<lambda>st. LInteger (st_nlink st)),
      (str ''uid'', \<lambda>st. LInteger (ucast (st_uid st))),
      (str ''gid'', \<lambda>st. LInteger (ucast (st_gid st))),
      (str ''rdev'', \<lambda>st. LInteger (st_rdev st)),
      (str ''access'', \<lambda>st. LInteger (st_atime st)),
      (str ''modification'', \<lambda>st. LInteger (st_mtime st)),
      (str ''change'', \<lambda>st. LInteger (st_ctime st)),
      (str ''size'', \<lambda>st. LInteger (st_size st)),
      (str ''permissions'', \<lambda>st. LString (perm2string (st_mode st))),
      (str ''blocks'', \<lambda>st. LInteger (st_blocks st)),
      (str ''blksize'', \<lambda>st. LInteger (st_blksize st))]"

text \<open>The loops over the members: the one with a name, and all of them into a table.\<close>

fun member_value :: "(bytes \<times> (lfs_stat \<Rightarrow> lua_value)) list \<Rightarrow> bytes \<Rightarrow> lfs_stat \<Rightarrow> lfs_result" where
  "member_value [] name st = LErr (str ''invalid attribute name '' @ [chr (CHR 0x27)] @ name @ [chr (CHR 0x27)])"
| "member_value ((n, push) # ms) name st = (if n = name then LRet [push st] else member_value ms name st)"

fun all_members :: "(bytes \<times> (lfs_stat \<Rightarrow> lua_value)) list \<Rightarrow> lfs_stat \<Rightarrow> (lua_value \<times> lua_value) list \<Rightarrow> (lua_value \<times> lua_value) list" where
  "all_members [] st ps = ps"
| "all_members ((n, push) # ms) st ps = all_members ms st (rawset ps (LString n) (push st))"

definition file_info0 :: "'w posix \<Rightarrow> (lua_value \<Rightarrow> bytes) \<Rightarrow> (bytes \<Rightarrow> ('w, lfs_stat) call) \<Rightarrow> lua_value list \<Rightarrow> 'w \<Rightarrow> lfs_result \<times> 'w" where
  "file_info0 px ns st args w =
     or_leave (check_string ns args 1) w (\<lambda>file.
       case st file w of
         (Inl e, w1) \<Rightarrow>
           (LRet [LNil,
              LString (str ''cannot obtain information from file '' @ [chr (CHR 0x27)] @ file @ [chr (CHR 0x27)] @ str '': '' @ px_strerror px e),
              LInteger (word_of_int e)], w1)
       | (Inr info, w1) \<Rightarrow>
           if lua_isstring (lua_arg args 2)
           then (case lua_tolstring ns (lua_arg args 2) of
                   None \<Rightarrow> (LBad, w1)
                 | Some member \<Rightarrow> (member_value stat_members (c_text member) info, w1))
           else (LRet [LTable (all_members stat_members info (case lua_arg args 2 of LTable ps \<Rightarrow> ps | _ \<Rightarrow> []))], w1))"

definition file_info :: "'w posix \<Rightarrow> (lua_value \<Rightarrow> bytes) \<Rightarrow> lua_value list \<Rightarrow> 'w \<Rightarrow> lfs_result \<times> 'w" where
  "file_info px ns args w = file_info0 px ns (px_stat px) args w"

text \<open>
  The loop of \<^verbatim>\<open>push_link_target\<close>; \<open>sz\<close> is an \<^verbatim>\<open>int\<close> that starts at 256. \<open>None\<close>: the kernel wrote behind the buffer, or the
  doubling overflows. The text has to be shorter than the buffer before its terminator is written.
\<close>

function link_loop :: "'w posix \<Rightarrow> bytes \<Rightarrow> nat \<Rightarrow> 'w \<Rightarrow> ((errno + bytes) \<times> 'w) option" where
  "link_loop px file sz w =
     (case px_realloc px sz w of
        (Inl e, w1) \<Rightarrow> Some (Inl e, w1)
      | (Inr _, w1) \<Rightarrow>
          (case px_readlink px file sz w1 of
             (Inl e, w2) \<Rightarrow> Some (Inl e, w2)
           | (Inr t, w2) \<Rightarrow>
               if length t > sz then None
               else if length t < sz then Some (Inr t, w2)
               else if 2 ^ 31 \<le> sz * 2 \<or> sz = 0 then None
               else link_loop px file (sz * 2) w2))"
  by pat_completeness auto
termination by (relation "measure (\<lambda>(px, file, sz, w). 2 ^ 31 - sz)") (auto intro!: diff_less_mono2 simp flip: length_greater_0_conv)

declare link_loop.simps [simp del]

definition push_link_target :: "'w posix \<Rightarrow> bytes \<Rightarrow> 'w \<Rightarrow> ((errno + bytes) \<times> 'w) option" where
  "push_link_target px file w = link_loop px file 256 w"

definition link_info :: "'w posix \<Rightarrow> (lua_value \<Rightarrow> bytes) \<Rightarrow> lua_value list \<Rightarrow> 'w \<Rightarrow> lfs_result \<times> 'w" where
  "link_info px ns args w =
     (if lua_isstring (lua_arg args 2) \<and> map_option c_text (lua_tolstring ns (lua_arg args 2)) = Some (str ''target'')
      then or_leave (check_string ns args 1) w (\<lambda>file.
        case push_link_target px file w of
          None \<Rightarrow> (LBad, w)
        | Some (Inl e, w1) \<Rightarrow> (pusherror px (Some (str ''could not obtain link target'')) e, w1)
        | Some (Inr t, w1) \<Rightarrow> (LRet [LString t], w1))
      else case file_info0 px ns (px_lstat px) args w of
        (LRet [LTable ps], w1) \<Rightarrow>
          or_leave (check_string ns args 1) w1 (\<lambda>file.
            case push_link_target px file w1 of
              None \<Rightarrow> (LBad, w1)
            | Some (Inl e, w2) \<Rightarrow> (LRet [LTable ps], w2)
            | Some (Inr t, w2) \<Rightarrow> (LRet [LTable (rawset ps (LString (str ''target'')) (LString t))], w2))
      | rw \<Rightarrow> rw)"

subsection \<open>File times\<close>

text \<open>The conversion of a double to \<^verbatim>\<open>time_t\<close>: towards zero, undefined outside the type.\<close>

definition d_trunc :: "double \<Rightarrow> int option" where
  "d_trunc d =
     (let e = dmag d div 2 ^ 52; f = dmag d mod 2 ^ 52; m = (if e = 0 then f else f + 2 ^ 52); x = (if e = 0 then 1 else e)
      in if e = 2047 then None
         else Some ((if dneg d then -1 else 1) * int (if x \<ge> 1075 then m * 2 ^ (x - 1075) else m div 2 ^ (1075 - x))))"

definition to_time :: "double \<Rightarrow> int option" where
  "to_time d = (case d_trunc d of None \<Rightarrow> None | Some i \<Rightarrow> if - (2 ^ 63) \<le> i \<and> i < 2 ^ 63 then Some i else None)"

definition file_utime ::
  "'w posix \<Rightarrow> (lua_value \<Rightarrow> bytes) \<Rightarrow> (lua_value \<Rightarrow> bytes + double) \<Rightarrow> (lua_value \<Rightarrow> bytes + u64) \<Rightarrow> lua_value list \<Rightarrow> 'w \<Rightarrow> lfs_result \<times> 'w" where
  "file_utime px ns tonum toint args w =
     or_leave (check_string ns args 1) w (\<lambda>file.
       let touch = (\<lambda>buf. case px_utime px file buf w of (r, w1) \<Rightarrow> (pushresult px r None, w1))
       in if length args = 1 then touch None
          else or_leave (opt_arg tonum args 2 0) w (\<lambda>d.
            case to_time d of None \<Rightarrow> (LBad, w)
            | Some actime \<Rightarrow>
                or_leave (opt_arg toint args 3 (word_of_int actime)) w (\<lambda>modtime. touch (Some (actime, sint modtime)))))"

end
