(* ===== verification/Lfs_Props.thy ===== *)
theory Lfs_Props
  imports Lfs
begin

text \<open>
  Properties of LuaFileSystem. What the kernel promises is a named hypothesis on the record of system calls; an example
  system with a working directory, a set of names and a directory to list shows that the hypotheses can hold.
\<close>

subsection \<open>Buffers that grow until the answer fits\<close>

text \<open>
  A set \<open>S\<close> of worlds in which nobody else changes the answer: the calls made here do not leave it, \<^verbatim>\<open>readlink(2)\<close> gives as much
  of the target as fits, and \<^verbatim>\<open>getcwd(3)\<close> gives the path when it and its terminator fit.
\<close>

definition readlink_gives :: "'w posix \<Rightarrow> 'w set \<Rightarrow> bytes \<Rightarrow> bytes \<Rightarrow> bool" where
  "readlink_gives px S file t \<longleftrightarrow>
     (\<forall>w \<in> S. \<forall>n. snd (px_realloc px n w) \<in> S \<and> snd (px_readlink px file n w) \<in> S \<and> fst (px_readlink px file n w) = Inr (take n t))"

definition getcwd_gives :: "'w posix \<Rightarrow> 'w set \<Rightarrow> bytes \<Rightarrow> bool" where
  "getcwd_gives px S p \<longleftrightarrow>
     (\<forall>w \<in> S. \<forall>n. snd (px_realloc px n w) \<in> S \<and> snd (px_getcwd px n w) \<in> S \<and>
        fst (px_getcwd px n w) = (if length p < n then Inr p else Inl ERANGE))"

definition memory_ok :: "'w posix \<Rightarrow> bool" where
  "memory_ok px \<longleftrightarrow> (\<forall>n w. fst (px_realloc px n w) = Inr ())"

definition memory_error :: "'w posix \<Rightarrow> errno \<Rightarrow> bool" where
  "memory_error px e \<longleftrightarrow> (\<exists>n w. fst (px_realloc px n w) = Inl e)"

lemma memory_cases:
  "(\<exists>e w1. px_realloc px n w = (Inl e, w1) \<and> memory_error px e \<and> \<not> memory_ok px) \<or> (\<exists>w1. px_realloc px n w = (Inr (), w1))"
proof -
  obtain r w1 where r: "px_realloc px n w = (r, w1)" by fastforce
  then have "fst (px_realloc px n w) = r" by simp
  then show ?thesis using r unfolding memory_error_def memory_ok_def by (cases r) fastforce+
qed

lemma readlink_givesD:
  assumes "readlink_gives px S f t" "w \<in> S" "px_realloc px n w = (Inr (), w1)"
  obtains w2 where "px_readlink px f n w1 = (Inr (take n t), w2)" "w2 \<in> S"
proof -
  have "w1 \<in> S" using assms unfolding readlink_gives_def by (metis snd_conv)
  then have "fst (px_readlink px f n w1) = Inr (take n t)" "snd (px_readlink px f n w1) \<in> S"
    using assms(1) unfolding readlink_gives_def by blast+
  then show ?thesis using that by (metis prod.collapse)
qed

lemma link_loop_whole:
  "readlink_gives px S f t \<Longrightarrow> length t < 2 ^ 30 \<Longrightarrow> 0 < sz \<Longrightarrow> w \<in> S \<Longrightarrow>
    \<exists>r w1. link_loop px f sz w = Some (r, w1) \<and> (r = Inr t \<or> \<not> memory_ok px \<and> (\<exists>e. r = Inl e \<and> memory_error px e))"
proof (induction px f sz w rule: link_loop.induct)
  case (1 px f sz w)
  from memory_cases [of px sz w] show ?case
  proof (elim disjE exE conjE)
    fix w1
    assume m: "px_realloc px sz w = (Inr (), w1)"
    obtain w2 where rl: "px_readlink px f sz w1 = (Inr (take sz t), w2)" "w2 \<in> S" using readlink_givesD [OF "1.prems"(1,4) m] .
    show ?thesis
    proof (cases "length t < sz")
      case True
      then show ?thesis using m rl by (simp add: link_loop.simps [of _ _ sz])
    next
      case False
      then have "link_loop px f sz w = link_loop px f (sz * 2) w2"
        using m rl "1.prems"(2,3) by (simp add: link_loop.simps [of _ _ sz])
      then show ?thesis using "1.IH" [OF m [symmetric] refl rl(1) [symmetric] refl] False "1.prems" rl(2) by simp
    qed
  qed (simp add: link_loop.simps [of _ _ sz])
qed

lemma unat_double: "j < 63 \<Longrightarrow> unat (sz :: u64) = 2 ^ j \<Longrightarrow> unat (sz * 2) = 2 ^ Suc j"
proof -
  assume j: "j < 63" "unat sz = 2 ^ j"
  have "(2 :: nat) ^ Suc j \<le> 2 ^ 63" using j(1) by (intro power_increasing) auto
  then show "unat (sz * 2) = 2 ^ Suc j" using j(2) by (simp add: unat_word_ariths)
qed

lemma getcwd_givesD:
  assumes "getcwd_gives px S p" "w \<in> S" "px_realloc px n w = (Inr (), w1)"
  obtains w2 where "px_getcwd px n w1 = (if length p < n then Inr p else Inl ERANGE, w2)" "w2 \<in> S"
proof -
  have "w1 \<in> S" using assms unfolding getcwd_gives_def by (metis snd_conv)
  then have "fst (px_getcwd px n w1) = (if length p < n then Inr p else Inl ERANGE)" "snd (px_getcwd px n w1) \<in> S"
    using assms(1) unfolding getcwd_gives_def by blast+
  then show ?thesis using that [of "snd (px_getcwd px n w1)"] by (simp add: prod_eq_iff)
qed

lemma get_dir_loop_whole:
  "getcwd_gives px S p \<Longrightarrow> length p < 2 ^ 63 \<Longrightarrow> unat sz = 2 ^ j \<Longrightarrow> j \<le> 63 \<Longrightarrow> w \<in> S \<Longrightarrow>
    \<exists>r w1. get_dir_loop px sz w = (r, w1) \<and>
      (r = LRet [LString p] \<or> \<not> memory_ok px \<and> (\<exists>e. r = pusherror px (Some (str ''get_dir realloc() failed'')) e \<and> memory_error px e))"
proof (induction px sz w arbitrary: j rule: get_dir_loop.induct)
  case (1 px sz w)
  have nz: "sz \<noteq> 0" using "1.prems"(3) by auto
  from memory_cases [of px "unat sz" w] show ?case
  proof (elim disjE exE conjE)
    fix w1
    assume m: "px_realloc px (unat sz) w = (Inr (), w1)"
    obtain w2 where g: "px_getcwd px (unat sz) w1 = (if length p < unat sz then Inr p else Inl ERANGE, w2)" "w2 \<in> S"
      using getcwd_givesD [OF "1.prems"(1,5) m] .
    show ?thesis
    proof (cases "length p < unat sz")
      case True
      then show ?thesis using m g(1) nz by (simp add: get_dir_loop.simps [of _ sz])
    next
      case False
      have "j \<noteq> 63" using False "1.prems"(2,3) by auto
      then have j: "j < 63" using "1.prems"(4) by simp
      have e: "get_dir_loop px sz w = get_dir_loop px (sz * 2) w2" using m g(1) nz False by (simp add: get_dir_loop.simps [of _ sz])
      show ?thesis unfolding e
        by (rule "1.IH" [OF nz m [symmetric] refl g(1) [symmetric], of ERANGE "Suc j"]) (use g(2) False j "1.prems" unat_double in auto)
    qed
  qed (use nz in \<open>auto simp: get_dir_loop.simps [of _ sz]\<close>)
qed

subsection \<open>Directory iterators\<close>

text \<open>What a program does with an iterator it has opened: ask for the next name, or close it, which the collector does too.\<close>

datatype dir_op = Next | Close

fun dir_step :: "'w posix \<Rightarrow> dir_op \<Rightarrow> dir_data \<Rightarrow> 'w \<Rightarrow> lfs_result \<times> dir_data option \<times> 'w" where
  "dir_step px Next d w = dir_iter px [] (Some d) w"
| "dir_step px Close d w = dir_close px (Some d) w"

fun dir_run :: "'w posix \<Rightarrow> dir_op list \<Rightarrow> dir_data \<Rightarrow> 'w \<Rightarrow> lfs_result list \<times> dir_data \<times> 'w" where
  "dir_run px [] d w = ([], d, w)"
| "dir_run px (op # ops) d w =
     (let (r, ud, w1) = dir_step px op d w; (rs, d2, w2) = dir_run px ops (the ud) w1 in (r # rs, d2, w2))"

text \<open>The system calls on directory streams, recorded in the world.\<close>

datatype dir_event = Opendir nat | Readdir nat | Closedir nat

definition keep_log :: "('w \<Rightarrow> 'a \<times> 'w) \<Rightarrow> 'w \<times> dir_event list \<Rightarrow> 'a \<times> 'w \<times> dir_event list" where
  "keep_log f wl = (let (r, w1) = f (fst wl) in (r, w1, snd wl))"

definition logged :: "'w posix \<Rightarrow> ('w \<times> dir_event list) posix" where
  "logged px = \<lparr>
     px_realloc = (\<lambda>n. keep_log (px_realloc px n)), px_chdir = (\<lambda>p. keep_log (px_chdir px p)),
     px_getcwd = (\<lambda>n. keep_log (px_getcwd px n)), px_fcntl = (\<lambda>f l. keep_log (px_fcntl px f l)),
     px_symlink = (\<lambda>a b. keep_log (px_symlink px a b)), px_link = (\<lambda>a b. keep_log (px_link px a b)),
     px_unlink = (\<lambda>p. keep_log (px_unlink px p)), px_mkdir = (\<lambda>p m. keep_log (px_mkdir px p m)),
     px_rmdir = (\<lambda>p. keep_log (px_rmdir px p)),
     px_opendir = (\<lambda>p (w, l). case px_opendir px p w of (Inl e, w1) \<Rightarrow> (Inl e, w1, l) | (Inr h, w1) \<Rightarrow> (Inr h, w1, l @ [Opendir h])),
     px_readdir = (\<lambda>h (w, l). case px_readdir px h w of (r, w1) \<Rightarrow> (r, w1, l @ [Readdir h])),
     px_closedir = (\<lambda>h (w, l). (px_closedir px h w, l @ [Closedir h])),
     px_utime = (\<lambda>p b. keep_log (px_utime px p b)), px_stat = (\<lambda>p. keep_log (px_stat px p)),
     px_lstat = (\<lambda>p. keep_log (px_lstat px p)), px_readlink = (\<lambda>p n. keep_log (px_readlink px p n)),
     px_strerror = px_strerror px\<rparr>"

lemma dir_run_closed:
  "closed d \<Longrightarrow> \<exists>rs. dir_run px ops d w = (rs, d, w) \<and> LBad \<notin> set rs"
proof (induction ops)
  case (Cons op ops)
  have "d\<lparr>closed := True\<rparr> = d" using Cons.prems by (cases d) simp
  then have "\<exists>r. dir_step px op d w = (r, Some d, w) \<and> r \<noteq> LBad"
    using Cons.prems by (cases op) (auto simp: dir_iter_def dir_close_def)
  then show ?case using Cons by auto
qed simp

lemma dir_run_log:
  "\<not> closed d \<Longrightarrow> dir d = Some h \<Longrightarrow>
    \<exists>rs d1 w1 n. dir_run (logged px) ops d (w, l) = (rs, d1, w1, l @ replicate n (Readdir h) @ (if closed d1 then [Closedir h] else [])) \<and>
      LBad \<notin> set rs \<and> dir d1 = Some h \<and> (Close \<in> set ops \<longrightarrow> closed d1)"
proof (induction ops arbitrary: w l)
  case Nil
  then show ?case by (auto intro: exI [of _ 0])
next
  case (Cons op ops)
  show ?case
  proof (cases op)
    case Close
    then have "dir_step (logged px) op d (w, l) = (LRet [], Some (d\<lparr>closed := True\<rparr>), px_closedir px h w, l @ [Closedir h])"
      using Cons.prems by (simp add: dir_close_def logged_def)
    moreover obtain rs where "dir_run (logged px) ops (d\<lparr>closed := True\<rparr>) (px_closedir px h w, l @ [Closedir h]) =
        (rs, d\<lparr>closed := True\<rparr>, px_closedir px h w, l @ [Closedir h])" "LBad \<notin> set rs"
      using dir_run_closed [of "d\<lparr>closed := True\<rparr>"] by fastforce
    ultimately show ?thesis using Cons.prems by (auto intro: exI [of _ 0])
  next
    case Next
    obtain r w1 where r: "px_readdir px h w = (r, w1)" by fastforce
    show ?thesis
    proof (cases r)
      case None
      let ?w = "(px_closedir px h w1, l @ [Readdir h, Closedir h])"
      have "dir_step (logged px) op d (w, l) = (LRet [], Some (d\<lparr>closed := True\<rparr>), ?w)"
        using Cons.prems Next r None by (simp add: dir_iter_def logged_def)
      moreover obtain rs where "dir_run (logged px) ops (d\<lparr>closed := True\<rparr>) ?w = (rs, d\<lparr>closed := True\<rparr>, ?w)" "LBad \<notin> set rs"
        using dir_run_closed [of "d\<lparr>closed := True\<rparr>"] by fastforce
      ultimately show ?thesis using Cons.prems by (auto intro: exI [of _ 1])
    next
      case (Some name)
      then have s: "dir_step (logged px) op d (w, l) = (LRet [LString name], Some d, w1, l @ [Readdir h])"
        using Cons.prems Next r by (simp add: dir_iter_def logged_def)
      obtain rs d1 w2 n where "dir_run (logged px) ops d (w1, l @ [Readdir h]) =
          (rs, d1, w2, (l @ [Readdir h]) @ replicate n (Readdir h) @ (if closed d1 then [Closedir h] else []))"
        "LBad \<notin> set rs" "dir d1 = Some h" "Close \<in> set ops \<longrightarrow> closed d1"
        using Cons.IH [OF Cons.prems, of w1 "l @ [Readdir h]"] by blast
      then show ?thesis using s Next by (auto intro!: exI [of _ "Suc n"])
    qed
  qed
qed

text \<open>\<^verbatim>\<open>readdir(3)\<close> on a stream gives the names \<open>left\<close> in it one after the other.\<close>

definition readdir_lists :: "'w posix \<Rightarrow> nat \<Rightarrow> ('w \<Rightarrow> bytes list) \<Rightarrow> bool" where
  "readdir_lists px h left \<longleftrightarrow>
     (\<forall>w. case left w of [] \<Rightarrow> fst (px_readdir px h w) = None
        | e # es \<Rightarrow> fst (px_readdir px h w) = Some e \<and> left (snd (px_readdir px h w)) = es)"

lemma fst_dir_run_Cons:
  "fst (dir_run px (op # ops) d w) =
     fst (dir_step px op d w) # fst (dir_run px ops (the (fst (snd (dir_step px op d w)))) (snd (snd (dir_step px op d w))))"
  by (simp split: prod.splits)

lemma dir_run_after_end: "closed d \<Longrightarrow> fst (dir_run px (replicate k Next) d w) = replicate k (LArgErr 1 (str ''closed directory''))"
  by (induction k) (auto simp: dir_iter_def fst_dir_run_Cons simp del: dir_run.simps(2))

lemma dir_run_lists:
  "readdir_lists px h left \<Longrightarrow> \<not> closed d \<Longrightarrow> dir d = Some h \<Longrightarrow> left w = es \<Longrightarrow>
    fst (dir_run px (replicate (length es + 1 + k) Next) d w) =
      map (\<lambda>e. LRet [LString e]) es @ LRet [] # replicate k (LArgErr 1 (str ''closed directory''))"
proof (induction es arbitrary: w)
  case Nil
  obtain r w1 where r: "px_readdir px h w = (r, w1)" by fastforce
  then have "r = None" using Nil by (auto simp: readdir_lists_def dest: spec [of _ w])
  then show ?case using Nil r dir_run_after_end [of "d\<lparr>closed := True\<rparr>" px k] by (simp add: dir_iter_def fst_dir_run_Cons del: dir_run.simps(2))
next
  case (Cons e es)
  obtain r w1 where r: "px_readdir px h w = (r, w1)" by fastforce
  then have "r = Some e" "left w1 = es" using Cons.prems by (auto simp: readdir_lists_def dest: spec [of _ w])
  then show ?case using Cons.IH [of w1] Cons.prems r by (simp add: dir_iter_def fst_dir_run_Cons del: dir_run.simps(2))
qed

subsection \<open>Directory locks\<close>

text \<open>
  The programs that lock directories, each holding any number of locks: one takes a lock, or frees one (by the method or the
  collector). All locks ever made are kept in a list.
\<close>

datatype lock_op = LockDir "lua_value list" | UnlockDir nat

fun lock_step :: "'w posix \<Rightarrow> (lua_value \<Rightarrow> bytes) \<Rightarrow> lock_op \<Rightarrow> lfs_lock list \<times> 'w \<Rightarrow> lfs_lock list \<times> 'w" where
  "lock_step px ns (LockDir args) (ls, w) =
     (case lfs_lock_dir px ns args w of (Inl r, w1) \<Rightarrow> (ls, w1) | (Inr l, w1) \<Rightarrow> (ls @ [l], w1))"
| "lock_step px ns (UnlockDir i) (ls, w) =
     (if i < length ls then (let (l, w1) = lfs_unlock_dir px (ls ! i) w in (ls[i := l], w1)) else (ls, w))"

definition lock_run :: "'w posix \<Rightarrow> (lua_value \<Rightarrow> bytes) \<Rightarrow> lock_op list \<Rightarrow> lfs_lock list \<times> 'w \<Rightarrow> lfs_lock list \<times> 'w" where
  "lock_run px ns ops = fold (lock_step px ns) ops"

text \<open>The names of the locks that are held.\<close>

definition held :: "lfs_lock list \<Rightarrow> bytes list" where
  "held ls = List.map_filter ln ls"

text \<open>
  While nobody changes the working directory, a name leads to the directory entry \<open>slot\<close> of it, and \<open>ex\<close> are the entries that
  exist. \<^verbatim>\<open>symlink(2)\<close> succeeds only for an entry that does not exist, and makes it exist; \<^verbatim>\<open>unlink(2)\<close> removes its entry;
  neither changes another entry, and no memory request does.
\<close>

definition links_ok :: "'w posix \<Rightarrow> 'w set \<Rightarrow> (bytes \<Rightarrow> 'f) \<Rightarrow> ('w \<Rightarrow> 'f \<Rightarrow> bool) \<Rightarrow> bool" where
  "links_ok px S slot ex \<longleftrightarrow>
     (\<forall>w \<in> S. \<forall>n r w1. px_realloc px n w = (r, w1) \<longrightarrow> w1 \<in> S \<and> ex w1 = ex w) \<and>
     (\<forall>w \<in> S. \<forall>t p r w1. px_symlink px t p w = (r, w1) \<longrightarrow>
        w1 \<in> S \<and> (case r of Inr _ \<Rightarrow> \<not> ex w (slot p) \<and> ex w1 = (ex w)(slot p := True) | Inl _ \<Rightarrow> ex w1 = ex w)) \<and>
     (\<forall>w \<in> S. \<forall>p r w1. px_unlink px p w = (r, w1) \<longrightarrow>
        w1 \<in> S \<and> (case r of Inr _ \<Rightarrow> ex w1 = (ex w)(slot p := False) | Inl _ \<Rightarrow> ex w1 = ex w))"

definition locks_inv :: "'w set \<Rightarrow> (bytes \<Rightarrow> 'f) \<Rightarrow> ('w \<Rightarrow> 'f \<Rightarrow> bool) \<Rightarrow> lfs_lock list \<times> 'w \<Rightarrow> bool" where
  "locks_inv S slot ex X \<longleftrightarrow>
     snd X \<in> S \<and> distinct (map slot (held (fst X))) \<and> (\<forall>p \<in> set (held (fst X)). ex (snd X) (slot p))"

lemma held_Nil [simp]: "held [] = []"
  by (simp add: held_def map_filter_def)

lemma held_append [simp]: "held (ls @ ms) = held ls @ held ms"
  by (simp add: held_def map_filter_def)

lemma held_Cons [simp]: "held (l # ls) = (case ln l of None \<Rightarrow> held ls | Some p \<Rightarrow> p # held ls)"
  by (cases "ln l") (simp_all add: held_def map_filter_simps)

lemma links_okD:
  assumes "links_ok px S slot ex" "w \<in> S"
  shows "px_realloc px n w = (m, w1) \<Longrightarrow> w1 \<in> S \<and> ex w1 = ex w"
    and "px_symlink px t p w = (r, w1) \<Longrightarrow>
      w1 \<in> S \<and> (case r of Inr _ \<Rightarrow> \<not> ex w (slot p) \<and> ex w1 = (ex w)(slot p := True) | Inl _ \<Rightarrow> ex w1 = ex w)"
    and "px_unlink px p w = (r, w1) \<Longrightarrow> w1 \<in> S \<and> (case r of Inr _ \<Rightarrow> ex w1 = (ex w)(slot p := False) | Inl _ \<Rightarrow> ex w1 = ex w)"
  using assms unfolding links_ok_def by blast+

lemma lock_dir_ok:
  assumes ok: "links_ok px S slot ex" and w: "w \<in> S" and l: "lfs_lock_dir px ns args w = (r, w1)"
  shows "w1 \<in> S \<and> ((\<exists>res. r = Inl res \<and> ex w1 = ex w) \<or>
    (\<exists>d. lua_tolstring ns (lua_arg args 1) = Some d \<and> r = Inr \<lparr>ln = Some (c_text d @ lockfile)\<rparr> \<and>
       \<not> ex w (slot (c_text d @ lockfile)) \<and> ex w1 = (ex w)(slot (c_text d @ lockfile) := True)))"
proof (cases "lua_tolstring ns (lua_arg args 1)")
  case (Some d)
  obtain m wm where m: "px_realloc px (length d + length lockfile + 1) w = (m, wm)" by fastforce
  note e = links_okD(1) [OF ok w m]
  obtain s w2 where s: "px_symlink px (str ''lock'') (c_text d @ lockfile) wm = (s, w2)" by fastforce
  note sy = links_okD(2) [OF ok conjunct1 [OF e] s]
  show ?thesis using l Some m s e sy by (cases m; cases s) (auto simp: lfs_lock_dir_def)
qed (use assms in \<open>auto simp: lfs_lock_dir_def\<close>)

lemma unlock_dir_inv:
  assumes ok: "links_ok px S slot ex" and inv: "locks_inv S slot ex (as @ l # bs, w)" and u: "lfs_unlock_dir px l w = (l1, w1)"
  shows "locks_inv S slot ex (as @ l1 # bs, w1)"
proof (cases "ln l")
  case (Some p)
  obtain r w2 where r: "px_unlink px p w = (r, w2)" by fastforce
  have w: "w \<in> S" using inv by (simp add: locks_inv_def)
  have "w2 \<in> S \<and> (ex w2 = ex w \<or> ex w2 = (ex w)(slot p := False))" using links_okD(3) [OF ok w r] by (cases r) auto
  then show ?thesis using inv u Some r by (auto simp: lfs_unlock_dir_def locks_inv_def) (metis imageI)+
qed (use inv u in \<open>simp add: lfs_unlock_dir_def\<close>)

lemma lock_step_inv:
  assumes "links_ok px S slot ex" "locks_inv S slot ex X"
  shows "locks_inv S slot ex (lock_step px ns op X)"
proof (cases op)
  case (LockDir args)
  obtain ls w where X: "X = (ls, w)" by fastforce
  obtain r w1 where r: "lfs_lock_dir px ns args w = (r, w1)" by fastforce
  have "w \<in> S" using assms(2) by (simp add: locks_inv_def X)
  then show ?thesis using lock_dir_ok [OF assms(1) _ r] assms(2) r by (auto simp: LockDir X locks_inv_def)
next
  case (UnlockDir i)
  obtain ls w where X: "X = (ls, w)" by fastforce
  obtain l w1 where u: "lfs_unlock_dir px (ls ! i) w = (l, w1)" by fastforce
  show ?thesis
  proof (cases "i < length ls")
    case True
    then have "ls = take i ls @ ls ! i # drop (Suc i) ls" "ls[i := l] = take i ls @ l # drop (Suc i) ls"
      by (simp_all add: id_take_nth_drop upd_conv_take_nth_drop)
    then show ?thesis using unlock_dir_inv [OF assms(1) _ u, of "take i ls" "drop (Suc i) ls"] assms(2) True u
      by (simp add: UnlockDir X)
  qed (use assms(2) in \<open>simp add: UnlockDir X\<close>)
qed

lemma lock_run_inv: "links_ok px S slot ex \<Longrightarrow> locks_inv S slot ex X \<Longrightarrow> locks_inv S slot ex (lock_run px ns ops X)"
  unfolding lock_run_def by (induction ops arbitrary: X) (simp_all add: lock_step_inv)

subsection \<open>Attributes\<close>

definition tbl_get :: "(lua_value \<times> lua_value) list \<Rightarrow> lua_value \<Rightarrow> lua_value" where
  "tbl_get ps k = (case find (\<lambda>p. fst p = k) ps of None \<Rightarrow> LNil | Some p \<Rightarrow> snd p)"

lemma tbl_get_simps [simp]:
  "tbl_get [] k = LNil"
  "tbl_get ((k1, v) # ps) k = (if k1 = k then v else tbl_get ps k)"
  by (simp_all add: tbl_get_def)

lemma tbl_get_rawset: "v \<noteq> LNil \<Longrightarrow> tbl_get (rawset ps k v) k1 = (if k1 = k then v else tbl_get ps k1)"
  by (induction ps k v rule: rawset.induct) auto

lemma all_members_other: "k \<notin> LString ` fst ` set ms \<Longrightarrow> \<forall>m \<in> set ms. snd m st \<noteq> LNil \<Longrightarrow> tbl_get (all_members ms st ps) k = tbl_get ps k"
  by (induction ms st ps rule: all_members.induct) (auto simp: tbl_get_rawset)

lemma all_members_get:
  "(n, g) \<in> set ms \<Longrightarrow> distinct (map fst ms) \<Longrightarrow> \<forall>m \<in> set ms. snd m st \<noteq> LNil \<Longrightarrow>
    tbl_get (all_members ms st ps) (LString n) = g st"
proof (induction ms st ps rule: all_members.induct)
  case (2 m push ms st ps)
  show ?case
  proof (cases "n = m")
    case True
    then have "g = push" "LString m \<notin> LString ` fst ` set ms" using 2(2,3) by force+
    then show ?thesis using True 2(4) all_members_other [of "LString m" ms st] by (simp add: tbl_get_rawset)
  next
    case False
    then have "(n, g) \<in> set ms" using 2(2) by auto
    then show ?thesis using 2(1,3,4) by simp
  qed
qed simp

lemma member_value_get: "(n, g) \<in> set ms \<Longrightarrow> distinct (map fst ms) \<Longrightarrow> member_value ms n st = LRet [g st]"
  by (induction ms n st rule: member_value.induct) (auto simp: rev_image_eqI)

lemma member_value_none:
  "n \<notin> fst ` set ms \<Longrightarrow> member_value ms n st = LErr (str ''invalid attribute name '' @ [chr (CHR 0x27)] @ n @ [chr (CHR 0x27)])"
  by (induction ms n st rule: member_value.induct) auto

lemma stat_members_facts:
  "distinct (map fst stat_members)" "(n, g) \<in> set stat_members \<Longrightarrow> g st \<noteq> LNil" "(n, g) \<in> set stat_members \<Longrightarrow> c_text n = n"
  by (auto simp: stat_members_def str_def chr_def c_text_def)

subsection \<open>Permissions\<close>

lemma fold_tests_nth:
  "distinct (map (fst \<circ> snd) ts) \<Longrightarrow> \<forall>(b, i, c) \<in> set ts. i < length ps \<Longrightarrow> (b, j, c) \<in> set ts \<Longrightarrow>
    fold (\<lambda>(bit, i, c) ps. if P bit then ps[i := c] else ps) ts ps ! j = (if P b then c else ps ! j)"
proof (induction ts arbitrary: ps)
  case (Cons t ts)
  obtain b1 i1 c1 where t: "t = (b1, i1, c1)" by (cases t) auto
  have other: "j \<notin> (fst \<circ> snd) ` set ts \<Longrightarrow> fold (\<lambda>(bit, i, c) ps. if P bit then ps[i := c] else ps) ts ps ! j = ps ! j" for ps
    by (induction ts arbitrary: ps) auto
  show ?case
  proof (cases "(b, j, c) = t")
    case True
    then show ?thesis using Cons.prems t other by auto
  next
    case False
    then have "(b, j, c) \<in> set ts" using Cons.prems(3) by simp
    moreover from this have "j \<noteq> i1" using Cons.prems(1) by (force simp: t)
    ultimately show ?thesis using Cons.IH [of "if P b1 then ps[i1 := c1] else ps"] Cons.prems t by (auto split: if_splits)
  qed
qed simp

lemma perm_bits: "(\<forall>(b, i, c) \<in> set perm_tests. (m AND b \<noteq> 0) = (k AND b \<noteq> 0)) \<longleftrightarrow> m AND 0x1FF = k AND 0x1FF"
  for m k :: u32
proof -
  have b: "b \<in> (\<lambda>n. 2 ^ n) ` {..<9} \<longleftrightarrow> b \<in> fst ` set perm_tests" for b :: u32
    by (auto simp: perm_tests_def lessThan_Suc eval_nat_numeral)
  have "(\<forall>(b, i, c) \<in> set perm_tests. (m AND b \<noteq> 0) = (k AND b \<noteq> 0)) \<longleftrightarrow> (\<forall>b \<in> fst ` set perm_tests. (m AND b \<noteq> 0) = (k AND b \<noteq> 0))"
    by auto
  also have "\<dots> \<longleftrightarrow> (\<forall>b \<in> (\<lambda>n. 2 ^ n) ` {..<9}. (m AND b \<noteq> 0) = (k AND b \<noteq> 0))" using b by blast
  also have "\<dots> \<longleftrightarrow> (\<forall>n < 9. bit m n = bit k n)" by (auto simp: and_exp_eq_0_iff_not_bit)
  also have "\<dots> \<longleftrightarrow> m AND mask 9 = k AND mask 9"
  proof
    assume m: "m AND mask 9 = k AND mask 9"
    have "bit m n = bit (m AND mask 9) n" "bit k n = bit (k AND mask 9) n" if "n < 9" for n using that by (simp_all add: bit_simps)
    then show "\<forall>n < 9. bit m n = bit k n" using m by simp
  qed (auto simp: bit_eq_iff bit_simps)
  finally show ?thesis by (simp add: mask_eq_exp_minus_1)
qed

text \<open>The text of the permissions says exactly the nine low bits.\<close>

theorem perm2string_exact: "perm2string m = perm2string k \<longleftrightarrow> m AND 0x1FF = k AND 0x1FF"
proof -
  have d: "distinct (map (fst \<circ> snd) perm_tests)" "\<forall>(b, i, c) \<in> set perm_tests. i < length (replicate 9 (chr (CHR ''-'')))"
    by (simp_all add: perm_tests_def)
  have nth: "perm2string m ! i = (if m AND b \<noteq> 0 then c else chr (CHR ''-''))" if "(b, i, c) \<in> set perm_tests" for m b i c
    using fold_tests_nth [OF d that, of "\<lambda>b. m AND b \<noteq> 0"] d(2) that by (auto simp: perm2string_def)
  have "length (perm2string m) = 9" for m by (simp add: perm2string_def perm_tests_def)
  moreover have "i < 9 \<longleftrightarrow> i \<in> (fst \<circ> snd) ` set perm_tests" for i by (auto simp: perm_tests_def)
  ultimately have "perm2string m = perm2string k \<longleftrightarrow> (\<forall>(b, i, c) \<in> set perm_tests. perm2string m ! i = perm2string k ! i)"
    by (fastforce simp: list_eq_iff_nth_eq)
  also have "\<dots> \<longleftrightarrow> (\<forall>(b, i, c) \<in> set perm_tests. (m AND b \<noteq> 0) = (k AND b \<noteq> 0))"
  proof (intro ball_cong refl, clarify)
    fix b i c
    assume t: "(b, i, c) \<in> set perm_tests"
    then have "c \<noteq> chr (CHR ''-'')" by (auto simp: perm_tests_def chr_def)
    then show "(perm2string m ! i = perm2string k ! i) = ((m AND b \<noteq> 0) = (k AND b \<noteq> 0))" using nth [OF t] by auto
  qed
  finally show ?thesis unfolding perm_bits .
qed

subsection \<open>An example system\<close>

text \<open>
  Names are absolute paths, a relative name is looked up in the working directory, and the names that \<^verbatim>\<open>readdir\<close> has still to
  give are part of the world.
\<close>

record example_fs =
  cwd :: bytes
  names :: "bytes list"
  entries :: "bytes list"

definition abs_name :: "example_fs \<Rightarrow> bytes \<Rightarrow> bytes" where
  "abs_name w p = (if p \<noteq> [] \<and> hd p = chr (CHR ''/'') then p else cwd w @ chr (CHR ''/'') # p)"

definition example_stat :: lfs_stat where
  "example_stat = \<lparr>st_mode = 0x81A4, st_dev = 1, st_ino = 7, st_nlink = 1, st_uid = 0, st_gid = 0, st_rdev = 0, st_atime = 5, st_mtime = 6,
     st_ctime = 6, st_size = 42, st_blocks = 8, st_blksize = 4096\<rparr>"

definition example_px :: "example_fs posix" where
  "example_px = \<lparr>
     px_realloc = (\<lambda>n w. (Inr (), w)),
     px_chdir = (\<lambda>p w. (Inr (), w\<lparr>cwd := abs_name w p\<rparr>)),
     px_getcwd = (\<lambda>n w. (if length (cwd w) < n then Inr (cwd w) else Inl ERANGE, w)),
     px_fcntl = (\<lambda>f l w. (Inr (), w)),
     px_symlink = (\<lambda>t p w. if abs_name w p \<in> set (names w) then (Inl 17, w) else (Inr (), w\<lparr>names := abs_name w p # names w\<rparr>)),
     px_link = (\<lambda>t p w. if abs_name w p \<in> set (names w) then (Inl 17, w) else (Inr (), w\<lparr>names := abs_name w p # names w\<rparr>)),
     px_unlink = (\<lambda>p w. if abs_name w p \<in> set (names w) then (Inr (), w\<lparr>names := filter (\<lambda>q. q \<noteq> abs_name w p) (names w)\<rparr>) else (Inl 2, w)),
     px_mkdir = (\<lambda>p m w. (Inl 13, w)),
     px_rmdir = (\<lambda>p w. (Inl 13, w)),
     px_opendir = (\<lambda>p w. (Inr 3, w)),
     px_readdir = (\<lambda>h w. case entries w of [] \<Rightarrow> (None, w) | e # es \<Rightarrow> (Some e, w\<lparr>entries := es\<rparr>)),
     px_closedir = (\<lambda>h w. w),
     px_utime = (\<lambda>p b w. (Inr (), w)),
     px_stat = (\<lambda>p w. (Inr example_stat, w)),
     px_lstat = (\<lambda>p w. (Inr example_stat, w)),
     px_readlink = (\<lambda>p n w. (Inr (take n (cwd w)), w)),
     px_strerror = (\<lambda>e. str ''error'')\<rparr>"

definition example_world :: example_fs where
  "example_world = \<lparr>cwd = str ''/a'', names = [], entries = [str ''.'', str ''x'']\<rparr>"

definition in_dir :: "bytes \<Rightarrow> example_fs set" where
  "in_dir d = {w. cwd w = d}"

definition example_exists :: "example_fs \<Rightarrow> bytes \<Rightarrow> bool" where
  "example_exists w n \<longleftrightarrow> n \<in> set (names w)"

lemma example_links: "links_ok example_px (in_dir d) (abs_name \<lparr>cwd = d, names = [], entries = []\<rparr>) example_exists"
  by (auto simp: links_ok_def example_px_def in_dir_def example_exists_def abs_name_def fun_eq_iff split: if_splits sum.splits)

subsection \<open>Properties\<close>

text \<open>
  C36: However programs take and free locks of directories (by the method or the collector), no two locks that are held lead to
  the same directory entry, every lock held has its link in the file system, and a directory whose lock is held cannot be
  locked: the call returns nil and a message, and changes nothing. This holds while the working directory stays the same.
\<close>

theorem lfs_lock_exclusive:
  assumes ok: "links_ok px S slot ex" and w: "w \<in> S" and run: "lock_run px ns ops ([], w) = (ls, w1)"
  shows "distinct (map slot (held ls)) \<and> (\<forall>p \<in> set (held ls). ex w1 (slot p)) \<and>
    (\<forall>p \<in> set (held ls). \<forall>d. slot (c_text d @ lockfile) = slot p \<longrightarrow>
       (\<exists>r w2. lfs_lock_dir px ns [LString d] w1 = (Inl r, w2) \<and> ex w2 = ex w1))"
proof -
  have inv: "locks_inv S slot ex (ls, w1)" using lock_run_inv [OF ok, of "([], w)" ns ops] w run by (simp add: locks_inv_def)
  have "\<exists>r w2. lfs_lock_dir px ns [LString d] w1 = (Inl r, w2) \<and> ex w2 = ex w1"
    if "p \<in> set (held ls)" "slot (c_text d @ lockfile) = slot p" for p d
  proof -
    obtain r w2 where l: "lfs_lock_dir px ns [LString d] w1 = (r, w2)" by fastforce
    have "ex w1 (slot (c_text d @ lockfile))" "w1 \<in> S" using inv that by (auto simp: locks_inv_def)
    with lock_dir_ok [OF ok _ l] show ?thesis using l by (auto simp: lua_arg_def lua_tolstring_def)
  qed
  then show ?thesis using inv by (auto simp: locks_inv_def)
qed

theorem lfs_lock_exclusive_witness:
  "let (ls, w1) = lock_run example_px (\<lambda>v. []) [LockDir [LString (str ''x'')], LockDir [LString (str ''/a/x'')]] ([], example_world)
   in held ls = [str ''x/lockfile.lfs''] \<and> example_exists w1 (str ''/a/x/lockfile.lfs'') \<and>
      (\<exists>r w2. lfs_lock_dir example_px (\<lambda>v. []) [LString (str ''/a/x'')] w1 = (Inl r, w2))"
proof -
  let ?ops = "[LockDir [LString (str ''x'')], LockDir [LString (str ''/a/x'')]]"
  have run: "lock_run example_px (\<lambda>v. []) ?ops ([], example_world) =
      ([\<lparr>ln = Some (str ''x/lockfile.lfs'')\<rparr>], example_world\<lparr>names := [str ''/a/x/lockfile.lfs'']\<rparr>)"
    by (simp add: lock_run_def Let_def lfs_lock_dir_def lua_arg_def lua_tolstring_def c_text_def lockfile_def example_px_def example_world_def
      abs_name_def str_def chr_def)
  have "example_world \<in> in_dir (str ''/a'')" by (simp add: in_dir_def example_world_def)
  note ex = lfs_lock_exclusive [OF example_links this run]
  have "abs_name \<lparr>cwd = str ''/a'', names = [], entries = []\<rparr> (c_text (str ''/a/x'') @ lockfile) =
      abs_name \<lparr>cwd = str ''/a'', names = [], entries = []\<rparr> (str ''x/lockfile.lfs'')"
    by (simp add: abs_name_def c_text_def lockfile_def str_def chr_def)
  then show ?thesis using ex run by (auto simp: abs_name_def str_def chr_def)
qed

text \<open>
  The name of a lock is the text the program gave: when the working directory changes before the lock is freed, another
  directory loses its lock and the own one stays locked.
\<close>

theorem lfs_unlock_after_chdir:
  fixes a b :: bytes
  assumes "a \<noteq> b" "b \<noteq> []" "hd b = chr (CHR ''/'')"
  defines "w \<equiv> \<lparr>cwd = a, names = [b @ str ''/./lockfile.lfs''], entries = []\<rparr>"
  shows "\<exists>l w1 w2. lfs_lock_dir example_px ns [LString (str ''.'')] w = (Inr l, w1) \<and> px_chdir example_px b w1 = (Inr (), w2) \<and>
    names (snd (lfs_unlock_dir example_px l w2)) = [a @ str ''/./lockfile.lfs'']"
  using assms
  by (simp add: w_def lfs_lock_dir_def lua_arg_def lua_tolstring_def c_text_def lockfile_def example_px_def abs_name_def str_def chr_def
    lfs_unlock_dir_def Let_def)

text \<open>A lock is never taken to be stale: what is passed behind the path has no effect.\<close>

theorem lfs_lock_never_stale: "lfs_lock_dir px ns (LString d # others) w = lfs_lock_dir px ns [LString d] w"
  by (simp add: lfs_lock_dir_def lua_arg_def lua_tolstring_def)

text \<open>An access time that is nil is the start of the epoch unless the path is the only argument.\<close>

theorem lfs_touch_nil_is_epoch:
  "file_utime px ns tonum toint [LString f, LNil] w = (let (r, w1) = px_utime px (c_text f) (Some (0, 0)) w in (pushresult px r None, w1))"
  by (simp add: file_utime_def check_string_def lua_arg_def lua_tolstring_def opt_arg_def to_time_def d_trunc_def dmag_def dneg_def Let_def)

text \<open>
  C37: A directory iterator that was opened reads its stream any number of times and then closes it exactly once, whatever the
  order in which a program asks for names and closes it, when the collector closes it at the end; after the stream was closed it
  is not used again.
\<close>

theorem lfs_dir_closed_once:
  assumes "dir_iter_factory (logged px) ns args (w, []) = (Inr d, w1)"
  shows "\<exists>h rs d2 w2 n. dir_run (logged px) (ops @ [Close]) d w1 = (rs, d2, w2, Opendir h # replicate n (Readdir h) @ [Closedir h]) \<and>
    LBad \<notin> set rs \<and> closed d2"
proof -
  obtain h w0 where d: "d = \<lparr>closed = False, dir = Some h\<rparr>" "w1 = (w0, [Opendir h])"
    using assms by (auto simp: dir_iter_factory_def logged_def split: sum.splits prod.splits)
  then show ?thesis using dir_run_log [of d h px "ops @ [Close]" w0 "[Opendir h]"] by auto
qed

theorem lfs_dir_closed_once_witness:
  "\<exists>h rs d2 w2 n. dir_run (logged example_px) ([Next, Close, Next] @ [Close]) \<lparr>closed = False, dir = Some 3\<rparr> (example_world, [Opendir 3]) =
     (rs, d2, w2, Opendir h # replicate n (Readdir h) @ [Closedir h]) \<and> LBad \<notin> set rs \<and> closed d2"
proof -
  have "dir_iter_factory (logged example_px) (\<lambda>v. []) [LString (str ''/a'')] (example_world, []) =
      (Inr \<lparr>closed = False, dir = Some 3\<rparr>, (example_world, [Opendir 3]))"
    by (simp add: dir_iter_factory_def check_string_def lua_arg_def lua_tolstring_def logged_def example_px_def)
  then show ?thesis by (rule lfs_dir_closed_once)
qed

text \<open>
  Asking an opened iterator again and again gives the names of the directory in order, then no value, and from then on the
  error that the directory is closed.
\<close>

theorem lfs_dir_lists:
  assumes "dir_iter_factory px ns args w = (Inr d, w1)" "\<And>h. readdir_lists px h left"
  shows "fst (dir_run px (replicate (length (left w1) + 1 + k) Next) d w1) =
    map (\<lambda>e. LRet [LString e]) (left w1) @ LRet [] # replicate k (LArgErr 1 (str ''closed directory''))"
proof -
  obtain h where "d = \<lparr>closed = False, dir = Some h\<rparr>" using assms(1) by (auto simp: dir_iter_factory_def split: sum.splits prod.splits)
  then show ?thesis using dir_run_lists [OF assms(2) _ _ refl, of d h] by simp
qed

theorem lfs_dir_lists_witness:
  "fst (dir_run example_px [Next, Next, Next, Next] \<lparr>closed = False, dir = Some 3\<rparr> example_world) =
     [LRet [LString (str ''.'')], LRet [LString (str ''x'')], LRet [], LArgErr 1 (str ''closed directory'')]"
proof -
  have "dir_iter_factory example_px (\<lambda>v. []) [LString (str ''/a'')] example_world = (Inr \<lparr>closed = False, dir = Some 3\<rparr>, example_world)"
    by (simp add: dir_iter_factory_def check_string_def lua_arg_def lua_tolstring_def example_px_def)
  moreover have "readdir_lists example_px h entries" for h by (auto simp: readdir_lists_def example_px_def split: list.splits)
  ultimately show ?thesis
    using lfs_dir_lists [of example_px "\<lambda>v. []" "[LString (str ''/a'')]" example_world _ example_world entries 1]
    by (simp add: example_world_def eval_nat_numeral)
qed

text \<open>
  C38: The target of a symbolic link is returned whole however long it is (below a gigabyte, where the size of the buffer would
  overflow), with every write inside the buffer; the only other outcome is the error of a memory request that failed.
\<close>

theorem lfs_link_target_whole:
  assumes "readlink_gives px S (c_text f) t" "w \<in> S" "length t < 2 ^ 30"
  shows "\<exists>w1. link_info px ns [LString f, LString (str ''target'')] w = (LRet [LString t], w1) \<or>
    \<not> memory_ok px \<and> (\<exists>e. memory_error px e \<and>
      link_info px ns [LString f, LString (str ''target'')] w = (pusherror px (Some (str ''could not obtain link target'')) e, w1))"
proof -
  obtain r w1 where "push_link_target px (c_text f) w = Some (r, w1)"
    "r = Inr t \<or> \<not> memory_ok px \<and> (\<exists>e. r = Inl e \<and> memory_error px e)"
    using link_loop_whole [OF assms(1,3) _ assms(2), of 256] by (auto simp: push_link_target_def)
  moreover have "c_text (str ''target'') = str ''target''" by (simp add: c_text_def str_def chr_def)
  ultimately show ?thesis
    by (intro exI [of _ w1]) (auto simp: link_info_def lua_isstring_def lua_arg_def lua_tolstring_def check_string_def)
qed

theorem lfs_link_target_whole_witness:
  "\<exists>w1. link_info example_px (\<lambda>v. []) [LString (str ''l''), LString (str ''target'')] (example_world\<lparr>cwd := replicate 1000 7\<rparr>) =
     (LRet [LString (replicate 1000 7)], w1)"
proof -
  let ?w = "example_world\<lparr>cwd := replicate 1000 7\<rparr>"
  have "readlink_gives example_px (in_dir (replicate 1000 7)) (c_text (str ''l'')) (replicate 1000 7)" "memory_ok example_px"
    by (auto simp: readlink_gives_def memory_ok_def in_dir_def example_px_def)
  moreover have "?w \<in> in_dir (replicate 1000 7)" by (simp add: in_dir_def)
  ultimately show ?thesis using lfs_link_target_whole [of example_px "in_dir (replicate 1000 7)" "str ''l''" "replicate 1000 7" ?w "\<lambda>v. []"]
    by simp
qed

text \<open>
  The working directory is returned whole for every length below 2 to the 63; the only other outcome is the error of a
  memory request that failed, and the loop always ends.
\<close>

theorem lfs_currentdir_whole:
  assumes "getcwd_gives px S p" "w \<in> S" "length p < 2 ^ 63"
  shows "\<exists>w1. get_dir px w = (LRet [LString p], w1) \<or>
    \<not> memory_ok px \<and> (\<exists>e. memory_error px e \<and> get_dir px w = (pusherror px (Some (str ''get_dir realloc() failed'')) e, w1))"
  using get_dir_loop_whole [OF assms(1,3) _ _ assms(2), of LFS_MAXPATHLEN 12] by (auto simp: get_dir_def LFS_MAXPATHLEN_def)

theorem lfs_currentdir_whole_witness: "\<exists>w1. get_dir example_px (example_world\<lparr>cwd := replicate 5000 7\<rparr>) = (LRet [LString (replicate 5000 7)], w1)"
proof -
  have "getcwd_gives example_px (in_dir (replicate 5000 7)) (replicate 5000 7)" "memory_ok example_px"
    by (auto simp: getcwd_gives_def memory_ok_def in_dir_def example_px_def)
  moreover have "example_world\<lparr>cwd := replicate 5000 7\<rparr> \<in> in_dir (replicate 5000 7)" by (simp add: in_dir_def)
  ultimately show ?thesis using lfs_currentdir_whole [of example_px "in_dir (replicate 5000 7)" "replicate 5000 7"] by simp
qed

text \<open>
  C39: \<^verbatim>\<open>attributes\<close> with the name of a member gives what the table without a name holds under that name; any other name is
  an error, and the other keys of a table that was passed in keep their values.
\<close>

theorem lfs_attributes_agree:
  assumes st: "px_stat px (c_text f) w = (Inr info, w1)"
  shows "(\<exists>t. file_info px ns [LString f, LTable ps] w = (LRet [LTable t], w1) \<and>
      (\<forall>m \<in> set stat_members. tbl_get t (LString (fst m)) = snd m info) \<and>
      (\<forall>k. k \<notin> LString ` fst ` set stat_members \<longrightarrow> tbl_get t k = tbl_get ps k)) \<and>
    (\<forall>m \<in> set stat_members. file_info px ns [LString f, LString (fst m)] w = (LRet [snd m info], w1)) \<and>
    (\<forall>n. c_text n \<notin> fst ` set stat_members \<longrightarrow> (\<exists>e. file_info px ns [LString f, LString n] w = (LErr e, w1)))"
proof -
  have nn: "\<forall>m \<in> set stat_members. snd m info \<noteq> LNil" using stat_members_facts(2) by (metis prod.collapse)
  have ct: "c_text (fst m) = fst m" if "m \<in> set stat_members" for m using stat_members_facts(3) that by (metis prod.collapse)
  have v: "member_value stat_members (fst m) info = LRet [snd m info]" if "m \<in> set stat_members" for m
    using member_value_get [OF _ stat_members_facts(1), of "fst m" "snd m"] that by simp
  have g: "tbl_get (all_members stat_members info ps) (LString (fst m)) = snd m info" if "m \<in> set stat_members" for m
    using all_members_get [OF _ stat_members_facts(1) nn, of "fst m" "snd m"] that by simp
  show ?thesis using st ct v g all_members_other [OF _ nn] member_value_none
    by (auto simp: file_info_def file_info0_def check_string_def lua_arg_def lua_tolstring_def lua_isstring_def)
qed

theorem lfs_attributes_agree_witness:
  "\<exists>t. file_info example_px (\<lambda>v. []) [LString (str ''f''), LTable [(LBool True, LNull)]] example_world = (LRet [LTable t], example_world) \<and>
     tbl_get t (LBool True) = LNull \<and> tbl_get t (LString (str ''permissions'')) = LString (str ''rw-r--r--'') \<and>
     tbl_get t (LString (str ''mode'')) = LString (str ''file'')"
proof -
  have st: "px_stat example_px (c_text (str ''f'')) example_world = (Inr example_stat, example_world)" by (simp add: example_px_def)
  from lfs_attributes_agree [OF st, of "\<lambda>v. []" "[(LBool True, LNull)]"] obtain t where
    t: "file_info example_px (\<lambda>v. []) [LString (str ''f''), LTable [(LBool True, LNull)]] example_world = (LRet [LTable t], example_world)"
      "\<forall>m \<in> set stat_members. tbl_get t (LString (fst m)) = snd m example_stat"
      "\<forall>k. k \<notin> LString ` fst ` set stat_members \<longrightarrow> tbl_get t k = tbl_get [(LBool True, LNull)] k" by blast
  have "perm2string 0x81A4 = str ''rw-r--r--''" "mode2string 0x81A4 = str ''file''" by (code_simp, code_simp)
  moreover have "tbl_get t (LString (str ''permissions'')) = LString (perm2string (st_mode example_stat))"
    "tbl_get t (LString (str ''mode'')) = LString (mode2string (st_mode example_stat))" using t(2) by (simp_all add: stat_members_def)
  moreover have "tbl_get t (LBool True) = LNull" using spec [OF t(3), of "LBool True"] by auto
  ultimately show ?thesis using t(1) by (simp add: example_stat_def)
qed

end
