(* ===== verification/Gfmt.thy ===== *)
theory Gfmt
  imports Skynet_Prelude Complex_Main
begin

text \<open>
  \<^verbatim>\<open>fpconv_g_fmt\<close> of lua-cjson/g_fmt.c, which prints a double when the internal conversions are compiled in. \<^verbatim>\<open>dtoa\<close> has given
  the digits without leading or trailing zeros, the place of the decimal point before or behind them (9999 for a text such as
  Infinity) and the sign. The text is shown to denote exactly the number that the digits and the point stand for.
\<close>

record dtoa_result =
  dt_digits :: bytes
  dt_decpt :: int
  dt_sign :: bool

text \<open>
  The two loops over the exponent: its number of digits with the power of ten, and the digits from the highest on. The
  numbers are unbounded here and \<^verbatim>\<open>int\<close> in the code, which is the same for the exponents that \<^verbatim>\<open>dtoa\<close> gives for a double,
  at most 324 in size.
\<close>

function exp_scale :: "nat \<Rightarrow> nat \<Rightarrow> nat \<Rightarrow> nat \<times> nat" where
  "exp_scale d j k = (if 10 * k \<le> d \<and> 0 < k then exp_scale d (Suc j) (k * 10) else (j, k))"
  by pat_completeness auto
termination by (relation "measure (\<lambda>(d, j, k). d - k)") auto

declare exp_scale.simps [simp del]

fun exp_digits :: "nat \<Rightarrow> nat \<Rightarrow> nat \<Rightarrow> bytes" where
  "exp_digits 0 k d = [of_nat (d div k + 48)]"
| "exp_digits (Suc j) k d = of_nat (d div k + 48) # (if j = 0 then [] else exp_digits j k ((d - d div k * k) * 10))"

text \<open>The loop that copies digits and puts the point behind the last one before it, when more digits follow.\<close>

fun put_fixed :: "bytes \<Rightarrow> int \<Rightarrow> bytes \<times> int" where
  "put_fixed [] decpt = ([], decpt)"
| "put_fixed (c # s) decpt =
     (let (r, d) = put_fixed s (decpt - 1) in (c # (if decpt - 1 = 0 \<and> s \<noteq> [] then chr (CHR ''.'') # r else r), d))"

definition put_exponent :: "int \<Rightarrow> bytes" where
  "put_exponent e =
     (let n = nat \<bar>e\<bar>; (j, k) = exp_scale n 2 10
      in chr (CHR ''e'') # chr (if e < 0 then CHR ''-'' else CHR ''+'') # exp_digits j k n)"

text \<open>The text that is left in the buffer; the result of the C function is its length. \<open>None\<close>: there are no digits.\<close>

definition internal_g_fmt :: "dtoa_result \<Rightarrow> int \<Rightarrow> bytes option" where
  "internal_g_fmt r precision =
     (let s = dt_digits r; decpt = dt_decpt r; sg = (if dt_sign r then [chr (CHR ''-'')] else [])
      in if decpt = 9999 then Some (sg @ s)
         else if decpt \<le> -4 \<or> decpt > precision then
           (case s of [] \<Rightarrow> None
            | c # cs \<Rightarrow> Some (sg @ c # (if cs = [] then [] else chr (CHR ''.'') # cs) @ put_exponent (decpt - 1)))
         else if decpt \<le> 0 then Some (sg @ str ''0.'' @ replicate (nat (- decpt)) (chr (CHR ''0'')) @ s)
         else (let (t, d) = put_fixed s decpt in Some (sg @ t @ replicate (nat d) (chr (CHR ''0'')))))"

subsection \<open>What a decimal text denotes\<close>

definition is_digit :: "byte \<Rightarrow> bool" where
  "is_digit c \<longleftrightarrow> 48 \<le> c \<and> c \<le> 57"

definition digits_val :: "bytes \<Rightarrow> nat" where
  "digits_val ds = foldl (\<lambda>n c. 10 * n + (unat c - 48)) 0 ds"

definition exponent_val :: "bytes \<Rightarrow> int" where
  "exponent_val e =
     (case e of [] \<Rightarrow> 0
      | c # r \<Rightarrow> if c = chr (CHR ''-'') then - int (digits_val r) else if c = chr (CHR ''+'') then int (digits_val r) else int (digits_val e))"

text \<open>A text without sign: the mantissa up to the letter e, its point, and the exponent.\<close>

definition unsigned_val :: "bytes \<Rightarrow> rat" where
  "unsigned_val t =
     (let m = takeWhile (\<lambda>c. c \<noteq> chr (CHR ''e'')) t; e = drop (length m + 1) t;
          ip = takeWhile (\<lambda>c. c \<noteq> chr (CHR ''.'')) m; fp = drop (length ip + 1) m
      in of_nat (digits_val (ip @ fp)) * 10 powi (exponent_val e - int (length fp)))"

definition decimal_val :: "bytes \<Rightarrow> rat" where
  "decimal_val t = (if t \<noteq> [] \<and> hd t = chr (CHR ''-'') then - unsigned_val (tl t) else unsigned_val t)"

subsection \<open>Digits\<close>

lemma digits_val_append: "digits_val (xs @ ys) = digits_val xs * 10 ^ length ys + digits_val ys"
proof -
  have "foldl (\<lambda>n c. 10 * n + (unat c - 48)) a ys = a * 10 ^ length ys + foldl (\<lambda>n c. 10 * n + (unat c - 48)) 0 ys" for a and ys :: bytes
  proof (induction ys rule: rev_induct)
    case (snoc y ys)
    then show ?case by (simp add: algebra_simps)
  qed simp
  then show ?thesis unfolding digits_val_def foldl_append by blast
qed

lemma digits_val_simps [simp]: "digits_val [] = 0" "digits_val [c] = unat c - 48"
  by (simp_all add: digits_val_def)

lemma digits_val_Cons: "digits_val (c # cs) = (unat c - 48) * 10 ^ length cs + digits_val cs"
  using digits_val_append [of "[c]" cs] by simp

lemma digits_val_zeros [simp]: "digits_val (replicate n (chr (CHR ''0''))) = 0"
  by (induction n) (simp_all add: digits_val_Cons chr_def)

lemma digit_val: "n < 10 \<Longrightarrow> unat (of_nat n + 48 :: byte) = n + 48"
  by (simp add: unat_word_ariths unat_of_nat take_bit_nat_eq_self)

lemma is_digit_of_nat: "n < 10 \<Longrightarrow> is_digit (of_nat n + 48)"
  by (simp add: is_digit_def word_le_nat_alt digit_val)

lemma exp_scale_spec: "k = 10 ^ (j - 1) \<Longrightarrow> 1 \<le> j \<Longrightarrow> exp_scale d j k = (j1, k1) \<Longrightarrow> j \<le> j1 \<and> k1 = 10 ^ (j1 - 1) \<and> d < 10 ^ j1"
proof (induction d j k rule: exp_scale.induct)
  case (1 d j k)
  have s: "k * 10 = 10 ^ (Suc j - 1)" using "1.prems"(1,2) by (cases j) simp_all
  show ?case
  proof (cases "10 * k \<le> d \<and> 0 < k")
    case True
    with 1 s show ?thesis by (subst (asm) (2) exp_scale.simps) fastforce
  next
    case False
    then have "exp_scale d j k = (j, k)" unfolding exp_scale.simps [of d j k] by (simp only: if_False)
    then have "j1 = j" "k1 = k" using "1.prems"(3) by simp_all
    moreover have "\<not> 10 * k \<le> d" using False "1.prems"(1) by simp
    ultimately show ?thesis using s "1.prems" by (simp add: mult.commute)
  qed
qed

lemma exp_digits_spec:
  "d < 10 ^ Suc m \<Longrightarrow> j \<le> m \<Longrightarrow> digits_val (exp_digits (Suc j) (10 ^ m) d) = d div 10 ^ (m - j) \<and>
    length (exp_digits (Suc j) (10 ^ m) d) = Suc j \<and> list_all is_digit (exp_digits (Suc j) (10 ^ m) d)"
proof (induction j arbitrary: d)
  case 0
  then have "d div 10 ^ m < 10" by (simp add: less_mult_imp_div_less)
  then show ?case by (simp add: digit_val is_digit_of_nat)
next
  case (Suc j)
  let ?q = "d div 10 ^ m" and ?r = "(d - d div 10 ^ m * 10 ^ m) * 10"
  have q: "?q < 10" using Suc.prems(1) by (simp add: less_mult_imp_div_less)
  have "d - d div 10 ^ m * 10 ^ m = d mod 10 ^ m" by (simp add: minus_div_mult_eq_mod)
  then have r: "?r = d mod 10 ^ m * 10" by simp
  then have "?r < 10 ^ Suc m" by simp
  from Suc.IH [OF this] Suc.prems(2) have IH: "digits_val (exp_digits (Suc j) (10 ^ m) ?r) = ?r div 10 ^ (m - j)"
    "length (exp_digits (Suc j) (10 ^ m) ?r) = Suc j" "list_all is_digit (exp_digits (Suc j) (10 ^ m) ?r)" by simp_all
  have e: "m - j = Suc (m - Suc j)" "m = (m - Suc j) + Suc j" using Suc.prems(2) by simp_all
  have "?r div 10 ^ (m - j) = d mod 10 ^ m div 10 ^ (m - Suc j)" unfolding r e(1) by simp
  moreover have "d div 10 ^ (m - Suc j) = ?q * 10 ^ Suc j + d mod 10 ^ m div 10 ^ (m - Suc j)"
  proof -
    have "d = (?q * 10 ^ Suc j) * 10 ^ (m - Suc j) + d mod 10 ^ m"
      using div_mult_mod_eq [of d "10 ^ m"] e(2) by (metis mult.assoc power_add add.commute)
    then show ?thesis by (metis div_mult_self3 power_not_zero zero_neq_numeral)
  qed
  ultimately show ?case using q IH by (simp add: digits_val_Cons digit_val is_digit_of_nat)
qed

lemma put_exponent_val: "put_exponent e = chr (CHR ''e'') # x \<Longrightarrow> exponent_val x = e \<and> 3 \<le> length x"
proof -
  assume x: "put_exponent e = chr (CHR ''e'') # x"
  obtain j k where jk: "exp_scale (nat \<bar>e\<bar>) 2 10 = (j, k)" by fastforce
  have s: "2 \<le> j" "k = 10 ^ (j - 1)" "nat \<bar>e\<bar> < 10 ^ j" using exp_scale_spec [of 10 2 "nat \<bar>e\<bar>" j k] jk by simp_all
  obtain i where i: "j = Suc i" using s(1) by (cases j) auto
  have "digits_val (exp_digits j k (nat \<bar>e\<bar>)) = nat \<bar>e\<bar>" "length (exp_digits j k (nat \<bar>e\<bar>)) = j"
    using exp_digits_spec [of "nat \<bar>e\<bar>" i i] s by (simp_all add: i)
  then show ?thesis using x s(1) by (auto simp: put_exponent_def jk exponent_val_def chr_def)
qed

subsection \<open>The parts of a text\<close>

definition mantissa :: "bytes \<Rightarrow> bytes \<Rightarrow> bytes" where
  "mantissa ip fp = ip @ (if fp = [] then [] else chr (CHR ''.'') # fp)"

lemma digit_not_mark: "is_digit c \<Longrightarrow> c \<noteq> chr (CHR ''e'') \<and> c \<noteq> chr (CHR ''.'') \<and> c \<noteq> chr (CHR ''-'')"
  by (auto simp: is_digit_def chr_def)

lemma digits_no_mark:
  "list_all is_digit ds \<Longrightarrow> chr (CHR ''e'') \<notin> set ds \<and> chr (CHR ''.'') \<notin> set ds \<and> chr (CHR ''-'') \<notin> set ds"
  using digit_not_mark by (auto simp: list_all_iff)

lemma takeWhile_mark: "x \<notin> set m \<Longrightarrow> takeWhile (\<lambda>c. c \<noteq> x) (m @ x # r) = m" "x \<notin> set m \<Longrightarrow> takeWhile (\<lambda>c. c \<noteq> x) m = m"
  by (induction m) auto

lemma unsigned_val_parts:
  assumes d: "list_all is_digit ip" "list_all is_digit fp" and e: "x = [] \<or> x = chr (CHR ''e'') # y"
  shows "unsigned_val (mantissa ip fp @ x) = of_nat (digits_val (ip @ fp)) * 10 powi (exponent_val (tl x) - int (length fp))"
proof -
  note n = digits_no_mark [OF d(1)] digits_no_mark [OF d(2)]
  have ne: "chr (CHR ''e'') \<notin> set (mantissa ip fp)" using n by (auto simp: mantissa_def chr_def)
  have m: "takeWhile (\<lambda>c. c \<noteq> chr (CHR ''e'')) (mantissa ip fp @ x) = mantissa ip fp"
    using e takeWhile_mark [OF ne] by auto
  have "drop (length (mantissa ip fp) + 1) (mantissa ip fp @ x) = tl x" using e by auto
  moreover have "takeWhile (\<lambda>c. c \<noteq> chr (CHR ''.'')) (mantissa ip fp) = ip" using takeWhile_mark [of "chr (CHR ''.'')" ip] n by (simp add: mantissa_def)
  moreover have "drop (length ip + 1) (mantissa ip fp) = fp" by (simp add: mantissa_def)
  ultimately show ?thesis unfolding unsigned_val_def Let_def m by (simp only:)
qed

lemma put_fixed_spec:
  "put_fixed s decpt = (if 0 < decpt \<and> decpt < int (length s) then take (nat decpt) s @ chr (CHR ''.'') # drop (nat decpt) s else s,
     decpt - int (length s))"
proof (induction s arbitrary: decpt)
  case (Cons c s)
  consider "decpt \<le> 0" | "decpt = 1" | "1 < decpt" by linarith
  then show ?case
  proof cases
    case 3
    then have "nat decpt = Suc (nat (decpt - 1))" by simp
    then show ?thesis using Cons.IH [of "decpt - 1"] 3 by auto
  qed (use Cons.IH [of "decpt - 1"] in auto)
qed simp

subsection \<open>Properties\<close>

text \<open>The digits \<open>s\<close> with the point at \<open>decpt\<close>.\<close>

definition dtoa_val :: "dtoa_result \<Rightarrow> rat" where
  "dtoa_val r = (if dt_sign r then -1 else 1) * of_nat (digits_val (dt_digits r)) * 10 powi (dt_decpt r - int (length (dt_digits r)))"

lemma signed_val:
  "u \<noteq> [] \<Longrightarrow> hd u \<noteq> chr (CHR ''-'') \<Longrightarrow> decimal_val ((if sg then [chr (CHR ''-'')] else []) @ u) = (if sg then -1 else 1) * unsigned_val u"
  by (simp add: decimal_val_def)

lemma g_fmt_exponent_val:
  assumes "list_all is_digit (c # cs)"
  shows "unsigned_val (c # (if cs = [] then [] else chr (CHR ''.'') # cs) @ put_exponent (decpt - 1)) =
    of_nat (digits_val (c # cs)) * 10 powi (decpt - int (length (c # cs)))"
proof -
  obtain x where x: "put_exponent (decpt - 1) = chr (CHR ''e'') # x" by (cases "exp_scale (nat \<bar>decpt - 1\<bar>) 2 10") (simp add: put_exponent_def Let_def)
  have "unsigned_val (mantissa [c] cs @ chr (CHR ''e'') # x) = of_nat (digits_val ([c] @ cs)) * 10 powi (exponent_val x - int (length cs))"
    using unsigned_val_parts [of "[c]" cs "chr (CHR ''e'') # x" x] assms by simp
  then show ?thesis using put_exponent_val [OF x] by (simp add: x mantissa_def algebra_simps)
qed

lemma g_fmt_fixed_val:
  assumes d: "list_all is_digit s" and p: "0 < decpt" and t: "put_fixed s decpt = (t, r)"
  shows "unsigned_val (t @ replicate (nat r) (chr (CHR ''0''))) = of_nat (digits_val s) * 10 powi (decpt - int (length s))"
proof (cases "decpt < int (length s)")
  case True
  then have u: "t @ replicate (nat r) (chr (CHR ''0'')) = mantissa (take (nat decpt) s) (drop (nat decpt) s) @ []"
    using t p by (auto simp: put_fixed_spec mantissa_def)
  have "list_all is_digit (take (nat decpt) s)" "list_all is_digit (drop (nat decpt) s)"
    using d by (auto simp: list_all_iff dest: in_set_takeD in_set_dropD)
  from unsigned_val_parts [OF this, of "[]"] show ?thesis unfolding u using True p by (simp add: exponent_val_def algebra_simps)
next
  case False
  let ?z = "replicate (nat r) (chr (CHR ''0''))"
  have u: "t @ ?z = mantissa (s @ ?z) [] @ []" "r = decpt - int (length s)" using t False by (auto simp: put_fixed_spec mantissa_def)
  have "list_all is_digit (s @ ?z)" using d by (auto simp: list_all_iff is_digit_def chr_def)
  from unsigned_val_parts [OF this, of "[]" "[]"] have "unsigned_val (t @ ?z) = of_nat (digits_val (s @ ?z))"
    unfolding u(1) by (simp add: exponent_val_def)
  also have "\<dots> = of_nat (digits_val s) * 10 ^ nat r" by (simp add: digits_val_append)
  finally show ?thesis using False u(2) by (simp add: power_int_def)
qed

text \<open>
  C40: The text that is written for digits of \<^verbatim>\<open>dtoa\<close> denotes exactly the number they stand for, in the form with an exponent, in
  the form that starts with a zero and in the plain form.
\<close>

theorem g_fmt_exact:
  assumes s: "dt_digits r \<noteq> []" "list_all is_digit (dt_digits r)" and f: "dt_decpt r \<noteq> 9999"
  shows "\<exists>t. internal_g_fmt r precision = Some t \<and> decimal_val t = dtoa_val r"
proof -
  obtain c cs where c: "dt_digits r = c # cs" using s(1) by (cases "dt_digits r") auto
  then have hd: "c \<noteq> chr (CHR ''-'')" using s(2) digit_not_mark by simp
  consider (ex) "dt_decpt r \<le> -4 \<or> dt_decpt r > precision" | (zero) "\<not> (dt_decpt r \<le> -4 \<or> dt_decpt r > precision)" "dt_decpt r \<le> 0"
    | (fixed) "\<not> (dt_decpt r \<le> -4 \<or> dt_decpt r > precision)" "0 < dt_decpt r" by linarith
  then show ?thesis
  proof cases
    case ex
    then show ?thesis using f hd g_fmt_exponent_val [of c cs "dt_decpt r"] s(2)
      by (simp add: internal_g_fmt_def c Let_def signed_val dtoa_val_def)
  next
    case zero
    let ?z = "replicate (nat (- dt_decpt r)) (chr (CHR ''0''))"
    have u: "str ''0.'' @ ?z @ dt_digits r = mantissa (str ''0'') (?z @ dt_digits r) @ []" using s(1) by (simp add: mantissa_def str_def)
    have "list_all is_digit (str ''0'')" "list_all is_digit (?z @ dt_digits r)"
      using s(2) by (auto simp: list_all_iff is_digit_def chr_def str_def)
    moreover have "digits_val (str ''0'' @ ?z @ dt_digits r) = digits_val (dt_digits r)"
      by (simp add: digits_val_append) (simp add: str_def chr_def)
    ultimately have "unsigned_val (str ''0.'' @ ?z @ dt_digits r) =
        of_nat (digits_val (dt_digits r)) * 10 powi (dt_decpt r - int (length (dt_digits r)))"
      unfolding u using zero(2) unsigned_val_parts [of "str ''0''" "?z @ dt_digits r" "[]"] by (simp add: exponent_val_def algebra_simps)
    then show ?thesis using f zero
      by (simp add: internal_g_fmt_def Let_def signed_val dtoa_val_def str_def chr_def)
  next
    case fixed
    obtain t d where t: "put_fixed (dt_digits r) (dt_decpt r) = (t, d)" by fastforce
    then have "t \<noteq> []" "hd t = c" using put_fixed_spec [of "dt_digits r" "dt_decpt r"] fixed(2) by (auto simp: c hd_append take_Cons' split: if_splits)
    then show ?thesis using f fixed hd g_fmt_fixed_val [OF s(2) fixed(2) t] t
      by (simp add: internal_g_fmt_def Let_def signed_val dtoa_val_def)
  qed
qed

theorem g_fmt_exact_witness:
  "internal_g_fmt \<lparr>dt_digits = str ''125'', dt_decpt = -9, dt_sign = True\<rparr> 14 = Some (str ''-1.25e-10'') \<and>
   decimal_val (str ''-1.25e-10'') = dtoa_val \<lparr>dt_digits = str ''125'', dt_decpt = -9, dt_sign = True\<rparr>"
proof -
  let ?r = "\<lparr>dt_digits = str ''125'', dt_decpt = -9, dt_sign = True\<rparr>"
  have "internal_g_fmt ?r 14 = Some (str ''-1.25e-10'')" by code_simp
  moreover have "list_all is_digit (dt_digits ?r)" by code_simp
  ultimately show ?thesis using g_fmt_exact [of ?r 14] by (simp add: str_def)
qed

text \<open>
  The buffer of 32 bytes that the comment asks for is enough for every double: as many digits as the precision, a decimal
  point within the range of doubles, or one of the texts for numbers that are not finite.
\<close>

lemma exp_digits_length: "length (exp_digits j k d) = max 1 j"
  by (induction j k d rule: exp_digits.induct) auto

lemma put_exponent_length: "\<bar>e\<bar> < 1000 \<Longrightarrow> length (put_exponent e) \<le> 5"
proof -
  assume "\<bar>e\<bar> < 1000"
  then have "fst (exp_scale (nat \<bar>e\<bar>) 2 10) \<le> 3" by (simp add: exp_scale.simps [of _ "Suc _"] exp_scale.simps [of _ _ 10] exp_scale.simps [of _ _ 100] numeral_2_eq_2)
  then show ?thesis by (auto simp: put_exponent_def Let_def exp_digits_length split: prod.splits)
qed

theorem g_fmt_fits:
  assumes t: "internal_g_fmt r precision = Some t" and p: "int (length (dt_digits r)) \<le> precision" "precision \<le> 17"
    and d: "dt_decpt r = 9999 \<or> -400 < dt_decpt r \<and> dt_decpt r < 400"
  shows "length t + 1 \<le> 32"
proof -
  have e: "length (put_exponent (dt_decpt r - 1)) \<le> 5" if "dt_decpt r \<noteq> 9999"
    using put_exponent_length [of "dt_decpt r - 1"] d that by auto
  show ?thesis using t p d e
    by (auto simp: internal_g_fmt_def Let_def put_fixed_spec split: if_splits list.splits)
qed

end
