(* ===== verification/Spec2Isabelle.thy ===== *)
theory Spec2Isabelle
  imports Package_Props Skiplist_Props Ws_Props Client_Gate Client_Lines Busilogger Lua_Hash Syslog_Service Cjson_Props Webclient Srp Aes Lfs_Props Gfmt
begin

text \<open>
  A verification library for the C modules of the skynet game server, the files under \<^verbatim>\<open>src/server/lualib-src\<close> and
  \<^verbatim>\<open>src/server/service-src\<close>. They are either services of the skynet runtime, which get messages through a callback, or Lua
  modules, whose functions get their arguments on the Lua stack. Memory the C code indexes is a list, and an access out of
  range, a read of memory never written, a failed assertion or a signed overflow is the result \<open>None\<close> (or a constructor of
  its own where the result has several kinds); a theorem that a call gives \<open>Some\<close> therefore says that it is free of undefined
  behaviour. Signed overflow is left out, and stated where the definition is, in these places: the sums and products of \<^verbatim>\<open>lua-hash.c\<close>
  and the sum in \<^verbatim>\<open>hash_fd\<close> of \<^verbatim>\<open>lua-websocketnetpack.c\<close> wrap at 32 bits; the counter \<^verbatim>\<open>recv\<close> of \<^verbatim>\<open>service_package.c\<close> and the exponent in
  \<^verbatim>\<open>g_fmt.c\<close> are unbounded; the write-only counter \<^verbatim>\<open>total_size\<close> of \<^verbatim>\<open>filter_data_\<close> has no counterpart. Calls to the runtime, the kernel and the C library are recorded as effects or take their answers from
  arguments.

  \<^bold>\<open>Shared.\<close> \<open>Skynet_Prelude\<close> has bytes, arrays, memory copies, doubles as their bits, decimal and hexadecimal text. \<open>Fifo\<close> is the
  contract of a first in, first out queue as a locale with the facts its clients use; the three rings of the program are
  interpretations of it; \<open>queue_calls\<close> is the contract of the calls as users make them, under which every sequence of pushes
  and pops answers like a plain list. \<open>Appender\<close> is the contract of a
  buffer that is appended to. \<open>Lua_Value\<close> has the values that Lua passes to C.

  \<^bold>\<open>Package service\<close> (\<^verbatim>\<open>service_package.c\<close>). \<open>Ring_Queue\<close>: the growing ring buffer, refined to a list. \<open>Package_Service\<close>: every
  function of the service; \<open>Package_Props\<close>: any chunking of a byte stream gives the same packages, the k-th request gets the
  k-th package, a sequence of messages is undefined exactly when it has an empty text message, closing answers every waiting
  request, the heartbeat detects a silent peer, release frees everything the service owns.

  \<^bold>\<open>Skiplist\<close> (\<^verbatim>\<open>skiplist/skiplist.c\<close>, \<^verbatim>\<open>lua-skiplist.c\<close>). \<open>Skiplist\<close>: the functions on a store of nodes, with 32-bit spans and
  64-bit ranks. \<open>Skiplist_Inv\<close>: the representation invariant and what the searches compute; \<open>Skiplist_Insert\<close>,
  \<open>Skiplist_Delete\<close>: the updates keep it; \<open>Skiplist_Spec\<close>, \<open>Skiplist_Ops\<close>, \<open>Skiplist_Query\<close>: the abstract board, an ordered list of
  pairs of score and member, and the operations on it; \<open>Skiplist_Lua\<close>: the Lua methods. \<open>Skiplist_Props\<close>: every sequence
  of operations refines the board, for every outcome of the random levels, and the queries answer by it.

  \<^bold>\<open>Websocket gate\<close> (\<^verbatim>\<open>lua-websocketnetpack.c\<close>). \<open>Ws_Queue\<close>: the ring of finished packages and the hash table of unfinished
  ones; \<open>Ws_Codec\<close>: frame headers, masks, the handshake search and the packer; \<open>Wsnetpack\<close>: the filter. \<open>Ws_Stream\<close> and
  \<open>Ws_Props\<close>: frames of any number of connections, cut and interleaved in any way, come out per connection, in order and
  unmasked; and the bounds at which the code fails.

  \<^bold>\<open>Websocket client\<close> (\<^verbatim>\<open>lua-clientwebsocket.c\<close>). \<open>Client_Ws\<close>: handshake, sending and receiving; \<open>Client_Lines\<close>: the queue of
  input lines that a reader thread and Lua share, as a step relation over both threads; \<open>Client_Props\<close>, \<open>Client_Gate\<close>: what is
  received, and the composition with the gate: what the client sends is what the gate hands out.

  \<^bold>\<open>JSON\<close> (\<^verbatim>\<open>lua-cjson/strbuf.c\<close>, \<^verbatim>\<open>strbuf.h\<close>, \<^verbatim>\<open>fpconv.c\<close>, \<^verbatim>\<open>lua_cjson.c\<close>). \<open>Strbuf\<close>: the growing string buffer with its memory;
  its append functions interpret the locale \<open>appender\<close>. \<open>Cjson_Config\<close>: the options and tables of a module instance.
  \<open>Cjson_Encode\<close>: number formatting and the encoder; \<open>Cjson_Print\<close>: the text of a document as a reference definition, which
  the encoder is shown to write. \<open>Cjson_Decode\<close>: the decoder on raw bytes; \<open>Cjson_Safe\<close>: on every input it returns a value or
  an error. \<open>Cjson_Lex\<close>, \<open>Cjson_Props\<close>: decoding what was encoded gives the value back, and too deep input is refused.

  \<open>Gfmt\<close> (\<^verbatim>\<open>g_fmt.c\<close>): the number printer of the optional internal conversions writes exactly the number whose digits it gets,
  within its buffer.

  \<^bold>\<open>HTTP client\<close> (\<^verbatim>\<open>lua-webclient.c\<close>). \<open>Webclient\<close>: the methods on libcurl's multi interface. The body of an answer is what
  libcurl delivered, also when memory runs out (the callback interprets \<open>appender\<close> too), and forms fit their array.

  \<^bold>\<open>Cryptography\<close> (\<^verbatim>\<open>lua-srp.c\<close>, \<^verbatim>\<open>lua-aes.c\<close>). \<open>Srp\<close>: client and server of the password protocol agree on the session key, and
  the server takes zero for the client's public value; \<open>Aes\<close>: encryption stays in its buffer, and decrypting gives the text
  back exactly when OpenSSL writes no further than the length of its input, less than its documentation asks room for. What OpenSSL computes is a
  parameter with its documented equations as named hypotheses, and a small instance shows that they can hold.

  \<^bold>\<open>File system\<close> (\<^verbatim>\<open>luafilesystem/src/lfs.c\<close>). \<open>Lfs\<close>: every function as compiled for POSIX, on a record of system calls over a state
  of the world. \<open>Lfs_Props\<close>: directory locks exclude each other while the working directory stays the same (and not when it
  changes), a directory stream is closed exactly once, the buffers for link targets and the working directory grow until the
  answer fits, and the ways of asking for attributes agree. What the kernel promises are named hypotheses, met by a small
  example file system.

  \<^bold>\<open>Small modules.\<close> \<open>Busilogger\<close> (\<^verbatim>\<open>service_busilogger.c\<close>): after a successful start messages end up in the file of
  their day, provided the two readings of the clock of one call are on one day. \<open>Lua_Hash\<close> (\<^verbatim>\<open>lua-hash.c\<close>,
  \<^verbatim>\<open>lua-uuid.c\<close>): the hash of a table does not depend on the order of its pairs; session ids never repeat. \<open>Syslog_Service\<close>
  (\<^verbatim>\<open>service_syslog.c\<close>).

  \<^bold>\<open>Fuel and bounds.\<close> The decoder's mutual recursion is bounded by \<open>decode_fuel\<close>, twice the length of the input plus four;
  \<open>json_decode_total\<close> shows that this is enough for every input. All other loops are total functions with a measure (the size of the
  buffer in \<open>get_dir_loop\<close> and \<open>link_loop\<close> doubles until it overflows). Sizes
  the C code keeps in an \<^verbatim>\<open>int\<close> are assumed below two to the 31, or two to the 30 where a buffer doubles (\<open>SB_LIMIT\<close>).

  \<^bold>\<open>Not modelled.\<close> \<^verbatim>\<open>dtoa.c\<close>, multiple precision code by a third party that is compiled only with \<^verbatim>\<open>USE_INTERNAL_FPCONV\<close>; the
  protobuf binding, third-party C++ code on two libraries that are not in the repository and outside the Makefiles;
  \<^verbatim>\<open>src/3rd\<close>, which is vendored (OpenSSL headers, another copy of lua-cjson); \<^verbatim>\<open>luaclock.c\<close>, a division and a sum of doubles,
  because the library compares doubles but does not round; the branches of \<^verbatim>\<open>lfs.c\<close> for Windows; Lua scripts and
  configuration. Functions that only register others with Lua, and functions that only pass a value on to the kernel, have no
  definition of their own.
\<close>

end
